(* ===== verification/Prelude.thy ===== *)
theory Prelude
  imports Main "HOL-Library.Word" "HOL-Library.Signed_Division"
begin

text \<open>
  What every component shares: the machine integers, the faults a C program can run into,
  programs as state transformers that may fault, the statement combinators the models are
  written with, and the triples (with their rules) the proofs are written with.
\<close>

section \<open>Machine integers\<close>

type_synonym u8 = "8 word"
type_synonym u32 = "32 word"

text \<open>The value range of \<open>int32_t\<close>.\<close>

definition in_int32 :: "int \<Rightarrow> bool" where
  "in_int32 i \<longleftrightarrow> - (2 ^ 31) \<le> i \<and> i < 2 ^ 31"

section \<open>Faults\<close>

text \<open>
  Where C has no defined behaviour, or where a thread blocks for ever, the model has a fault.
  \<open>Deadlock\<close>: a mutex is locked while it is held (the code's mutexes are of the default,
  non-recursive type). \<open>Nonterminating\<close>: a loop ran longer than any loop over the data it
  reads can run. \<open>Format_argument\<close>: a conversion of \<open>printf\<close> without its argument.
\<close>

datatype fault =
    Null_deref
  | Use_after_free
  | Out_of_bounds
  | Signed_overflow
  | Deadlock
  | Unlock_not_held
  | Destroy_locked
  | Nonterminating
  | Format_argument

section \<open>Programs\<close>

type_synonym ('s, 'a) prog = "'s \<Rightarrow> fault + ('a \<times> 's)"

definition ret :: "'a \<Rightarrow> ('s, 'a) prog" where
  "ret x s = Inr (x, s)"

definition fail :: "fault \<Rightarrow> ('s, 'a) prog" where
  "fail f s = Inl f"

text \<open>\<open>bnd m k\<close>: run \<open>m\<close>, pass its value on; \<open>sq m n\<close>: one statement after another.\<close>

definition bnd :: "('s, 'a) prog \<Rightarrow> ('a \<Rightarrow> ('s, 'b) prog) \<Rightarrow> ('s, 'b) prog" where
  "bnd m k s = (case m s of Inl f \<Rightarrow> Inl f | Inr (x, s') \<Rightarrow> k x s')"

definition sq :: "('s, 'a) prog \<Rightarrow> ('s, 'b) prog \<Rightarrow> ('s, 'b) prog" where
  "sq m n = bnd m (\<lambda>_. n)"

text \<open>A computation that reads no state, as a statement.\<close>

definition lift_sum :: "fault + 'a \<Rightarrow> ('s, 'a) prog" where
  "lift_sum r = (case r of Inl f \<Rightarrow> fail f | Inr x \<Rightarrow> ret x)"

text \<open>A sequence of statements, and a statement under a condition.\<close>

primrec block :: "('s, unit) prog list \<Rightarrow> ('s, unit) prog" where
  "block [] = ret ()"
| "block (m # ms) = sq m (block ms)"

definition when_p :: "bool \<Rightarrow> ('s, unit) prog \<Rightarrow> ('s, unit) prog" where
  "when_p b m = (if b then m else ret ())"

definition gets :: "('s \<Rightarrow> 'a) \<Rightarrow> ('s, 'a) prog" where
  "gets f s = Inr (f s, s)"

definition modify :: "('s \<Rightarrow> 's) \<Rightarrow> ('s, unit) prog" where
  "modify f s = Inr ((), f s)"

text \<open>Code working on a part of the state, such as one global variable.\<close>

definition zoom :: "('s \<Rightarrow> 't) \<Rightarrow> ('t \<Rightarrow> 's \<Rightarrow> 's) \<Rightarrow> ('t, 'a) prog \<Rightarrow> ('s, 'a) prog" where
  "zoom get put m s = (case m (get s) of Inl f \<Rightarrow> Inl f | Inr (x, t) \<Rightarrow> Inr (x, put t s))"

named_theorems prog_simps \<open>evaluation of programs on a given state\<close>

lemma prog_basic [prog_simps]:
  "ret x s = Inr (x, s)"
  "fail f s = Inl f"
  "gets g s = Inr (g s, s)"
  "modify h s = Inr ((), h s)"
  "sq m n s = bnd m (\<lambda>_. n) s"
  by (simp_all add: ret_def fail_def gets_def modify_def sq_def)

lemma bnd_eqs [prog_simps]:
  "m s = Inr (x, s') \<Longrightarrow> bnd m k s = k x s'"
  "m s = Inl f \<Longrightarrow> bnd m k s = Inl f"
  by (simp_all add: bnd_def)

lemma bnd_Inr_iff:
  "bnd m k s = Inr (y, t) \<longleftrightarrow> (\<exists>x s'. m s = Inr (x, s') \<and> k x s' = Inr (y, t))"
  by (auto simp: bnd_def split: sum.splits prod.splits)

lemma bnd_lift_sum:
  "bnd (lift_sum r) k = (case r of Inl f \<Rightarrow> fail f | Inr x \<Rightarrow> k x)"
  by (rule ext) (simp add: lift_sum_def prog_simps split: sum.split)

lemma when_p_simps [simp]:
  "when_p True m = m"
  "when_p False m = ret ()"
  by (simp_all add: when_p_def)

section \<open>Triples\<close>

text \<open>
  \<open>triple F P m Q\<close>: started in a state with \<open>P\<close>, the program \<open>m\<close> either stops with one of
  the faults in \<open>F\<close> or returns, with \<open>Q\<close> of its value and the new state. With \<open>F = {}\<close>
  this is total correctness (the programs always return or fault), with \<open>F = UNIV\<close> partial.
\<close>

definition triple ::
  "fault set \<Rightarrow> ('s \<Rightarrow> bool) \<Rightarrow> ('s, 'a) prog \<Rightarrow> ('a \<Rightarrow> 's \<Rightarrow> bool) \<Rightarrow> bool" where
  "triple F P m Q \<longleftrightarrow>
     (\<forall>s. P s \<longrightarrow> (case m s of Inl f \<Rightarrow> f \<in> F | Inr (x, s') \<Rightarrow> Q x s'))"

lemma tripleI:
  assumes "\<And>s f. P s \<Longrightarrow> m s = Inl f \<Longrightarrow> f \<in> F"
    and "\<And>s x s'. P s \<Longrightarrow> m s = Inr (x, s') \<Longrightarrow> Q x s'"
  shows "triple F P m Q"
  using assms by (auto simp: triple_def split: sum.splits)

lemma triple_ret: "(\<And>s. P s \<Longrightarrow> Q x s) \<Longrightarrow> triple F P (ret x) Q"
  by (simp add: triple_def ret_def)

lemma triple_bnd:
  "triple F P m R \<Longrightarrow> (\<And>x. triple F (R x) (k x) Q) \<Longrightarrow> triple F P (bnd m k) Q"
  by (fastforce simp: triple_def bnd_def split: sum.splits prod.splits)

lemma triple_sq:
  "triple F P m (\<lambda>_. R) \<Longrightarrow> triple F R n Q \<Longrightarrow> triple F P (sq m n) Q"
  unfolding sq_def by (rule triple_bnd)

lemma triple_when:
  "(b \<Longrightarrow> triple F P m (\<lambda>_. Q)) \<Longrightarrow> (\<And>s. \<not> b \<Longrightarrow> P s \<Longrightarrow> Q s) \<Longrightarrow> triple F P (when_p b m) (\<lambda>_. Q)"
  by (cases b) (auto intro: triple_ret)

lemma triple_if:
  "(b \<Longrightarrow> triple F P m Q) \<Longrightarrow> (\<not> b \<Longrightarrow> triple F P n Q) \<Longrightarrow> triple F P (if b then m else n) Q"
  by simp

lemma triple_gets: "(\<And>s. P s \<Longrightarrow> Q (g s) s) \<Longrightarrow> triple F P (gets g) Q"
  by (simp add: triple_def gets_def)

lemma triple_modify: "(\<And>s. P s \<Longrightarrow> Q () (h s)) \<Longrightarrow> triple F P (modify h) Q"
  by (simp add: triple_def modify_def)

lemma triple_fail: "f \<in> F \<Longrightarrow> triple F P (fail f) Q"
  by (simp add: triple_def fail_def)

lemma triple_weaken:
  "triple G P' m Q' \<Longrightarrow> G \<subseteq> F \<Longrightarrow> (\<And>s. P s \<Longrightarrow> P' s) \<Longrightarrow> (\<And>x s. Q' x s \<Longrightarrow> Q x s) \<Longrightarrow> triple F P m Q"
  by (fastforce simp: triple_def split: sum.splits prod.splits)

lemma triple_post:
  "triple F P m Q' \<Longrightarrow> (\<And>x s. Q' x s \<Longrightarrow> Q x s) \<Longrightarrow> triple F P m Q"
  by (erule triple_weaken) simp_all

lemma triple_returns:
  "triple {} P m Q \<Longrightarrow> P s \<Longrightarrow> \<exists>x s'. m s = Inr (x, s') \<and> Q x s'"
  by (cases "m s") (auto simp: triple_def)

lemma triple_result:
  "triple F P m Q \<Longrightarrow> P s \<Longrightarrow> m s = Inr (x, s') \<Longrightarrow> Q x s'"
  by (auto simp: triple_def split: sum.splits)

lemma triple_fault:
  "triple F P m Q \<Longrightarrow> P s \<Longrightarrow> m s = Inl f \<Longrightarrow> f \<in> F"
  by (auto simp: triple_def split: sum.splits)

end
