(* ===== verification/Safe.thy ===== *)
theory Safe
  imports Prelude
begin

text \<open>
  The mutex-protected counters of \<open>DataStructures/safe.c\<close>: a number and the mutex that
  guards it. A mutex is the flag "held".
\<close>

record safe_32 =
  number :: u32
  mutex :: bool

definition safe_lock :: "(safe_32, unit) prog" where
  "safe_lock t = (if mutex t then Inl Deadlock else Inr ((), t\<lparr>mutex := True\<rparr>))"

definition safe_unlock :: "(safe_32, unit) prog" where
  "safe_unlock t = (if mutex t then Inr ((), t\<lparr>mutex := False\<rparr>) else Inl Unlock_not_held)"

definition increment_safe :: "(safe_32, u32) prog" where
  "increment_safe =
     sq safe_lock
     (sq (modify (\<lambda>t. t\<lparr>number := number t + 1\<rparr>))
     (bnd (gets number) (\<lambda>ret_val.
      sq safe_unlock (ret ret_val))))"

definition read_safe :: "(safe_32, u32) prog" where
  "read_safe =
     sq safe_lock
     (bnd (gets number) (\<lambda>ret_val.
      sq safe_unlock (ret ret_val)))"

definition write_safe :: "u32 \<Rightarrow> (safe_32, unit) prog" where
  "write_safe new_number =
     block [safe_lock, modify (\<lambda>t. t\<lparr>number := new_number\<rparr>), safe_unlock]"

lemma increment_safe_eq [prog_simps]:
  "increment_safe t =
     (if mutex t then Inl Deadlock else Inr (number t + 1, t\<lparr>number := number t + 1\<rparr>))"
  by (simp add: increment_safe_def sq_def bnd_def safe_lock_def safe_unlock_def modify_def
      gets_def ret_def)

lemma read_safe_eq [prog_simps]:
  "read_safe t = (if mutex t then Inl Deadlock else Inr (number t, t))"
  by (simp add: read_safe_def sq_def bnd_def safe_lock_def safe_unlock_def gets_def ret_def)

lemma write_safe_eq [prog_simps]:
  "write_safe n t = (if mutex t then Inl Deadlock else Inr ((), t\<lparr>number := n\<rparr>))"
  by (simp add: write_safe_def sq_def bnd_def safe_lock_def safe_unlock_def modify_def ret_def)

end
