(* ===== verification/Data_Structure.thy ===== *)
theory Data_Structure
  imports Prelude
begin

text \<open>
  The container behind the routing table (\<open>DataStructures/data_structure.c\<close>): an array of
  256 pointers, indexed by the top byte of the 32-bit variable an entry is stored under. An
  index is a \<open>uint8_t\<close>, so no access is out of range. The contract of such a container is the
  locale \<open>keyed_store\<close>; the array is its interpretation \<open>ds\<close>.
\<close>

section \<open>The array\<close>

type_synonym 'e data_header = "u8 \<Rightarrow> 'e option"

definition slot_of :: "u32 \<Rightarrow> u8" where
  "slot_of v = ucast (drop_bit 24 v)"

definition add_entry_to_data_structure ::
  "'e data_header \<Rightarrow> 'e option \<Rightarrow> u32 \<Rightarrow> u8 \<times> 'e data_header" where
  "add_entry_to_data_structure container entry sort_variable =
     (let index = slot_of sort_variable in (index, container(index := entry)))"

definition remove_entry_from_data_structure ::
  "'e data_header \<Rightarrow> u32 \<Rightarrow> 'e option \<times> 'e data_header" where
  "remove_entry_from_data_structure container search_variable =
     (let index = slot_of search_variable; return_val = container index
      in (return_val, container(index := None)))"

definition find_entry_in_data_structure :: "'e data_header \<Rightarrow> u32 \<Rightarrow> 'e option" where
  "find_entry_in_data_structure container search_variable =
     (let index = slot_of search_variable in container index)"

definition create_data_header :: "'e data_header" where
  "create_data_header = (\<lambda>_. None)"

section \<open>The contract\<close>

text \<open>
  What the routing table relies on: entries are found under a key of the 32-bit variable,
  adding overwrites the entry of the same key, removing returns it and leaves the others.
\<close>

locale keyed_store =
  fixes create :: "'c"
    and add :: "'c \<Rightarrow> 'e option \<Rightarrow> u32 \<Rightarrow> u8 \<times> 'c"
    and remove :: "'c \<Rightarrow> u32 \<Rightarrow> 'e option \<times> 'c"
    and find_in :: "'c \<Rightarrow> u32 \<Rightarrow> 'e option"
    and key :: "u32 \<Rightarrow> 'k"
  assumes find_key: "key v = key w \<Longrightarrow> find_in c v = find_in c w"
    and find_create: "find_in create v = None"
    and find_add: "find_in (snd (add c e v)) w = (if key w = key v then e else find_in c w)"
    and removed: "fst (remove c v) = find_in c v"
    and find_remove: "find_in (snd (remove c v)) w = (if key w = key v then None else find_in c w)"
begin

lemma removed_after_add: "fst (remove (snd (add c e v)) v) = e"
  by (simp add: removed find_add)

lemma removed_twice: "key w = key v \<Longrightarrow> fst (remove (snd (remove c v)) w) = None"
  by (simp add: removed find_remove)

text \<open>Moving an entry from one container to another, as \<open>move_routing_entry\<close> does.\<close>

lemma move_finds:
  "find_in (snd (add (snd (remove d v)) (fst (remove c v)) v)) w =
     (if key w = key v then find_in c v else find_in d w)"
  by (simp add: find_add find_remove removed)

end

interpretation ds: keyed_store create_data_header add_entry_to_data_structure
  remove_entry_from_data_structure find_entry_in_data_structure slot_of
  by unfold_locales
    (simp_all add: create_data_header_def add_entry_to_data_structure_def
      remove_entry_from_data_structure_def find_entry_in_data_structure_def Let_def)

lemma find_entry_slot:
  "find_entry_in_data_structure c v = c (slot_of v)"
  by (simp add: find_entry_in_data_structure_def Let_def)

lemma fst_remove_entry [simp]: "fst (remove_entry_from_data_structure c v) = c (slot_of v)"
  by (simp add: remove_entry_from_data_structure_def Let_def)

lemma fst_add_entry [simp]: "fst (add_entry_to_data_structure c e v) = slot_of v"
  by (simp add: add_entry_to_data_structure_def Let_def)

lemma snd_add_entry [simp]: "snd (add_entry_to_data_structure c e v) = c(slot_of v := e)"
  by (simp add: add_entry_to_data_structure_def Let_def)

lemma snd_remove_entry [simp]:
  "snd (remove_entry_from_data_structure c v) = c(slot_of v := None)"
  by (simp add: remove_entry_from_data_structure_def Let_def)

end
