(* ===== verification/Linked_List.thy ===== *)
theory Linked_List
  imports Prelude
begin

text \<open>
  The doubly linked list of \<open>DataStructures/linked_list.c\<close>, at the level of its pointers: the
  nodes a list has allocated, by address, and the two pointers of its header. Nodes are never
  shared between lists, so each list carries its own nodes. A \<open>linked_list *\<close> is an
  option, \<open>None\<close> for \<open>NULL\<close>. The lemmas show that every operation does on the list of data
  what its comment says; \<open>list_store\<close> is the contract the message handlers use.
\<close>

section \<open>Nodes and headers\<close>

type_synonym node_ptr = "nat option"

record linked_entry =
  data :: u32
  nxt :: node_ptr
  prv :: node_ptr

text \<open>\<open>fresh\<close> is the address the next \<open>malloc\<close> of a node returns.\<close>

record linked_list =
  nodes :: "nat \<rightharpoonup> linked_entry"
  fresh :: nat
  first :: node_ptr
  lst :: node_ptr

definition empty_list :: linked_list where
  "empty_list = \<lparr>nodes = Map.empty, fresh = 0, first = None, lst = None\<rparr>"

section \<open>Accesses\<close>

definition node_at :: "node_ptr \<Rightarrow> (linked_list, linked_entry) prog" where
  "node_at p l = (case p of None \<Rightarrow> Inl Null_deref
     | Some a \<Rightarrow> (case nodes l a of None \<Rightarrow> Inl Use_after_free | Some n \<Rightarrow> Inr (n, l)))"

definition set_node :: "node_ptr \<Rightarrow> (linked_entry \<Rightarrow> linked_entry) \<Rightarrow> (linked_list, unit) prog" where
  "set_node p f l = (case p of None \<Rightarrow> Inl Null_deref
     | Some a \<Rightarrow> (case nodes l a of None \<Rightarrow> Inl Use_after_free
         | Some n \<Rightarrow> Inr ((), l\<lparr>nodes := (nodes l)(a \<mapsto> f n)\<rparr>)))"

definition free_node :: "node_ptr \<Rightarrow> (linked_list, unit) prog" where
  "free_node p l = (case p of None \<Rightarrow> Inr ((), l)
     | Some a \<Rightarrow> (case nodes l a of None \<Rightarrow> Inl Use_after_free
         | Some n \<Rightarrow> Inr ((), l\<lparr>nodes := (nodes l)(a := None)\<rparr>)))"

definition malloc_node :: "u32 \<Rightarrow> (linked_list, nat) prog" where
  "malloc_node d l =
     Inr (fresh l, l\<lparr>nodes := (nodes l)(fresh l \<mapsto> \<lparr>data = d, nxt = None, prv = None\<rparr>),
                     fresh := Suc (fresh l)\<rparr>)"

definition set_first :: "node_ptr \<Rightarrow> (linked_list, unit) prog" where
  "set_first p = modify (\<lambda>l. l\<lparr>first := p\<rparr>)"

definition set_last :: "node_ptr \<Rightarrow> (linked_list, unit) prog" where
  "set_last p = modify (\<lambda>l. l\<lparr>lst := p\<rparr>)"

text \<open>
  A program on the list behind a \<open>linked_list *\<close>, with what happens for \<open>NULL\<close>.
\<close>

definition on_list ::
  "(linked_list option, 'a) prog \<Rightarrow> (linked_list, 'a) prog \<Rightarrow> (linked_list option, 'a) prog" where
  "on_list null m lo = (case lo of None \<Rightarrow> null None
     | Some l \<Rightarrow> (case m l of Inl f \<Rightarrow> Inl f | Inr (x, l') \<Rightarrow> Inr (x, Some l')))"

section \<open>The operations\<close>

text \<open>
  A loop over the nodes takes fuel: the number of nodes the list ever allocated, and one for
  the test that ends it. The lemmas below show that it never runs out on a well-formed list.
\<close>

definition loop_fuel :: "linked_list \<Rightarrow> nat" where
  "loop_fuel l = Suc (fresh l)"

primrec free_loop :: "nat \<Rightarrow> node_ptr \<Rightarrow> (linked_list, unit) prog" where
  "free_loop 0 entry = fail Nonterminating"
| "free_loop (Suc n) entry =
     (if entry = None then ret ()
      else bnd (node_at entry) (\<lambda>e. sq (free_node entry) (free_loop n (nxt e))))"

text \<open>
  The result of \<open>free_linked_list\<close> is what is still allocated: \<open>None\<close> once the header is
  freed too.
\<close>

definition free_linked_list :: "(linked_list option, unit) prog" where
  "free_linked_list lo = (case lo of None \<Rightarrow> Inr ((), None)
     | Some l \<Rightarrow>
         (if first l = None then Inr ((), Some l)
          else (case free_loop (loop_fuel l) (first l) l of Inl f \<Rightarrow> Inl f
                | Inr _ \<Rightarrow> Inr ((), None))))"

definition add_entry_to_list :: "u32 \<Rightarrow> (linked_list option, unit) prog" where
  "add_entry_to_list d = on_list (ret ())
     (bnd (malloc_node d) (\<lambda>new_entry.
      bnd (gets first) (\<lambda>f.
      if f = None
      then block [set_last (Some new_entry), set_first (Some new_entry)]
      else
        bnd (gets lst) (\<lambda>old_last.
        block [set_node old_last (\<lambda>n. n\<lparr>nxt := Some new_entry\<rparr>),
               set_node (Some new_entry) (\<lambda>n. n\<lparr>prv := old_last\<rparr>),
               set_last (Some new_entry)]))))"

primrec remove_loop :: "nat \<Rightarrow> node_ptr \<Rightarrow> u32 \<Rightarrow> (linked_list, unit) prog" where
  "remove_loop 0 test_entry d = fail Nonterminating"
| "remove_loop (Suc n) test_entry d =
     (if test_entry = None then ret ()
      else
        bnd (node_at test_entry) (\<lambda>e.
        if data e = d then
          (if nxt e = None
           then block [set_last (prv e), set_node (prv e) (\<lambda>m. m\<lparr>nxt := None\<rparr>),
                       free_node test_entry]
           else block [set_node (prv e) (\<lambda>m. m\<lparr>nxt := nxt e\<rparr>),
                       set_node (nxt e) (\<lambda>m. m\<lparr>prv := prv e\<rparr>),
                       free_node test_entry])
        else remove_loop n (nxt e) d))"

definition remove_entry_from_list :: "u32 \<Rightarrow> (linked_list option, unit) prog" where
  "remove_entry_from_list d = on_list (ret ())
     (bnd (gets first) (\<lambda>test_entry.
      bnd (node_at test_entry) (\<lambda>e.
      if data e = d then
        (if nxt e = None
         then block [free_node test_entry, set_last None, set_first None]
         else block [set_first (nxt e), set_node (nxt e) (\<lambda>m. m\<lparr>prv := None\<rparr>),
                     free_node test_entry])
      else bnd (gets loop_fuel) (\<lambda>n. remove_loop n (nxt e) d))))"

primrec count_loop :: "nat \<Rightarrow> node_ptr \<Rightarrow> u32 \<Rightarrow> (linked_list, u32) prog" where
  "count_loop 0 cur_entry cnt = fail Nonterminating"
| "count_loop (Suc n) cur_entry cnt =
     (if cur_entry = None then ret cnt
      else bnd (node_at cur_entry) (\<lambda>e. count_loop n (nxt e) (cnt + 1)))"

text \<open>The array is as long as \<open>malloc\<close> made it; writing past its end is a fault.\<close>

primrec fill_loop :: "nat \<Rightarrow> node_ptr \<Rightarrow> u32 \<Rightarrow> u32 list \<Rightarrow> (linked_list, u32 list) prog" where
  "fill_loop 0 cur_entry index ret_array = fail Nonterminating"
| "fill_loop (Suc n) cur_entry index ret_array =
     (if cur_entry = None then ret ret_array
      else
        bnd (node_at cur_entry) (\<lambda>e.
        if unat index < length ret_array
        then fill_loop n (nxt e) (index + 1) (ret_array[unat index := data e])
        else fail Out_of_bounds))"

text \<open>
  The result is the array, \<open>None\<close> for \<open>NULL\<close>; \<open>*size\<close> is its length. The contents
  \<open>malloc\<close> leaves (here 0) are all overwritten.
\<close>

definition get_all_entries :: "(linked_list option, u32 list option) prog" where
  "get_all_entries = on_list (ret None)
     (bnd (gets first) (\<lambda>cur_entry.
      bnd (gets loop_fuel) (\<lambda>fuel.
      bnd (count_loop fuel cur_entry 0) (\<lambda>n_entries.
      bnd (fill_loop fuel cur_entry 0 (replicate (unat n_entries) 0)) (\<lambda>ret_array.
      ret (Some ret_array))))))"

primrec search_loop :: "nat \<Rightarrow> node_ptr \<Rightarrow> u32 \<Rightarrow> (linked_list, u8) prog" where
  "search_loop 0 current_entry d = fail Nonterminating"
| "search_loop (Suc n) current_entry d =
     (if current_entry = None then ret 0
      else
        bnd (node_at current_entry) (\<lambda>e.
        if data e = d then ret 1 else search_loop n (nxt e) d))"

definition is_in_list :: "u32 \<Rightarrow> (linked_list option, u8) prog" where
  "is_in_list d = on_list (fail Null_deref)
     (bnd (gets first) (\<lambda>current_entry.
      bnd (gets loop_fuel) (\<lambda>n. search_loop n current_entry d)))"

section \<open>What a list holds\<close>

text \<open>
  \<open>hd_ptr\<close> and \<open>last_ptr\<close>: the pointer to the first (last) of some addresses, or a given
  pointer when there are none. \<open>dls h p as q\<close>: the addresses \<open>as\<close> are a doubly linked segment
  between \<open>p\<close> (before) and \<open>q\<close> (after).
\<close>

definition hd_ptr :: "nat list \<Rightarrow> node_ptr \<Rightarrow> node_ptr" where
  "hd_ptr as q = (case as of [] \<Rightarrow> q | a # _ \<Rightarrow> Some a)"

definition last_ptr :: "node_ptr \<Rightarrow> nat list \<Rightarrow> node_ptr" where
  "last_ptr p as = (if as = [] then p else Some (last as))"

primrec dls :: "(nat \<rightharpoonup> linked_entry) \<Rightarrow> node_ptr \<Rightarrow> nat list \<Rightarrow> node_ptr \<Rightarrow> bool" where
  "dls h p [] q \<longleftrightarrow> True"
| "dls h p (a # as) q \<longleftrightarrow>
     (\<exists>n. h a = Some n \<and> prv n = p \<and> nxt n = hd_ptr as q \<and> dls h (Some a) as q)"

definition dll :: "linked_list \<Rightarrow> nat list \<Rightarrow> bool" where
  "dll l as \<longleftrightarrow> distinct as \<and> dom (nodes l) = set as \<and> dls (nodes l) None as None \<and>
     first l = hd_ptr as None \<and> lst l = last_ptr None as \<and> (\<forall>a \<in> set as. a < fresh l)"

definition models :: "linked_list \<Rightarrow> u32 list \<Rightarrow> bool" where
  "models l xs \<longleftrightarrow> (\<exists>as. dll l as \<and> xs = map (\<lambda>a. data (the (nodes l a))) as)"

lemma ptr_simps [simp]:
  "hd_ptr [] q = q" "hd_ptr (a # as) q = Some a"
  "last_ptr p [] = p" "last_ptr p (as @ bs) = last_ptr (last_ptr p as) bs"
  "hd_ptr (as @ bs) q = hd_ptr as (hd_ptr bs q)"
  "last_ptr p (a # as) = last_ptr (Some a) as"
  by (auto simp: hd_ptr_def last_ptr_def split: list.splits)

lemma hd_ptr_None [simp]: "hd_ptr as q = None \<longleftrightarrow> as = [] \<and> q = None"
  by (cases as) simp_all

lemma dls_append:
  "dls h p (as @ bs) q \<longleftrightarrow> dls h p as (hd_ptr bs q) \<and> dls h (last_ptr p as) bs q"
  by (induction as arbitrary: p) auto

lemma dls_upd [simp]: "a \<notin> set as \<Longrightarrow> dls (h(a := x)) p as q = dls h p as q"
  by (induction as arbitrary: p) auto

lemma models_empty [simp]: "models empty_list []"
  by (simp add: models_def dll_def empty_list_def)

lemma dll_length: "dll l as \<Longrightarrow> length as \<le> fresh l"
proof -
  assume "dll l as"
  then have "distinct as" and "set as \<subseteq> {..<fresh l}" by (auto simp: dll_def)
  then have "card (set as) \<le> fresh l" using card_mono[of "{..<fresh l}" "set as"] by simp
  with \<open>distinct as\<close> show ?thesis by (simp add: distinct_card)
qed

lemma models_length: "models l xs \<Longrightarrow> length xs < loop_fuel l"
  by (auto simp: models_def loop_fuel_def dest: dll_length)

lemma models_unique: "models l xs \<Longrightarrow> models l ys \<Longrightarrow> xs = ys"
proof -
  have seg: "dls h p as None \<Longrightarrow> dls h p' bs None \<Longrightarrow> hd_ptr as None = hd_ptr bs None \<Longrightarrow> as = bs"
    for h p p' and as bs :: "nat list"
    by (induction as arbitrary: p p' bs; case_tac bs) auto
  assume "models l xs" "models l ys"
  then show ?thesis by (auto simp: models_def dll_def dest: seg)
qed

lemma node_at_dls [prog_simps]:
  "nodes l a = Some n \<Longrightarrow> node_at (Some a) l = Inr (n, l)"
  by (simp add: node_at_def)

lemma set_node_Some [prog_simps]:
  "nodes l a = Some n \<Longrightarrow> set_node (Some a) f l = Inr ((), l\<lparr>nodes := (nodes l)(a \<mapsto> f n)\<rparr>)"
  by (simp add: set_node_def)

lemma free_node_Some [prog_simps]:
  "nodes l a = Some n \<Longrightarrow> free_node (Some a) l = Inr ((), l\<lparr>nodes := (nodes l)(a := None)\<rparr>)"
  by (simp add: free_node_def)

lemma on_list_Some [prog_simps]:
  "m l = Inr (x, l') \<Longrightarrow> on_list null m (Some l) = Inr (x, Some l')"
  "m l = Inl f \<Longrightarrow> on_list null m (Some l) = Inl f"
  by (simp_all add: on_list_def)

lemma on_list_None [prog_simps]: "on_list null m None = null None"
  by (simp add: on_list_def)

lemma set_ptr_eqs [prog_simps]:
  "set_first p l = Inr ((), l\<lparr>first := p\<rparr>)"
  "set_last p l = Inr ((), l\<lparr>lst := p\<rparr>)"
  "malloc_node d l = Inr (fresh l, l\<lparr>nodes := (nodes l)(fresh l \<mapsto> \<lparr>data = d, nxt = None, prv = None\<rparr>),
                     fresh := Suc (fresh l)\<rparr>)"
  by (simp_all add: set_first_def set_last_def malloc_node_def modify_def)

section \<open>Each operation on the list of data\<close>

abbreviation data_of :: "(nat \<rightharpoonup> linked_entry) \<Rightarrow> nat list \<Rightarrow> u32 list" where
  "data_of h as \<equiv> map (\<lambda>a. data (the (h a))) as"

lemma add_entry_models:
  assumes "models l xs"
  shows "\<exists>l'. add_entry_to_list d (Some l) = Inr ((), Some l') \<and> models l' (xs @ [d])"
proof -
  from assms obtain as where l: "dll l as" "xs = data_of (nodes l) as"
    by (auto simp: models_def)
  from l(1) have new: "fresh l \<notin> set as" "nodes l (fresh l) = None"
    by (auto simp: dll_def domIff set_eq_iff)
  show ?thesis
  proof (cases as rule: rev_cases)
    case Nil
    with l show ?thesis
      by (auto simp: add_entry_to_list_def dll_def models_def prog_simps
          intro!: exI[of _ "[fresh l]"])
  next
    case (snoc bs b)
    with l(1) obtain n where n: "nodes l b = Some n" "prv n = last_ptr None bs" "nxt n = None"
      by (auto simp: dll_def dls_append)
    have b: "lst l = Some b" "\<exists>f. first l = Some f" "b \<noteq> fresh l" "b \<notin> set bs"
      using l(1) snoc new by (auto simp: dll_def simp flip: not_None_eq)
    then show ?thesis
      using l snoc n new
      by (auto simp: add_entry_to_list_def dll_def models_def prog_simps dls_append less_Suc_eq
          intro!: exI[of _ "bs @ [b, fresh l]"])
  qed
qed

lemma search_loop_eq:
  "dls (nodes l) p as None \<Longrightarrow> length as < n \<Longrightarrow>
     search_loop n (hd_ptr as None) d l = Inr (if d \<in> set (data_of (nodes l) as) then 1 else 0, l)"
  by (induction as arbitrary: n p; case_tac n) (auto simp: prog_simps)

lemma is_in_list_models:
  "models l xs \<Longrightarrow> is_in_list d (Some l) = Inr (if d \<in> set xs then 1 else 0, Some l)"
  using models_length[of l xs]
  by (auto simp: models_def is_in_list_def dll_def prog_simps search_loop_eq)

lemma count_loop_eq:
  "dls (nodes l) p as None \<Longrightarrow> length as < n \<Longrightarrow>
     count_loop n (hd_ptr as None) k l = Inr (k + of_nat (length as), l)"
  by (induction as arbitrary: n p k; case_tac n) (auto simp: prog_simps)

lemma fill_loop_eq:
  "dls (nodes l) p as None \<Longrightarrow> length as < n \<Longrightarrow> length xs + length as < 2 ^ 32 \<Longrightarrow>
     length ys = length as \<Longrightarrow>
     fill_loop n (hd_ptr as None) (of_nat (length xs)) (xs @ ys) l =
       Inr (xs @ data_of (nodes l) as, l)"
proof (induction as arbitrary: n p xs ys)
  case Nil
  then show ?case by (cases n) (auto simp: prog_simps)
next
  case (Cons a as)
  then obtain m e y ys' where n: "n = Suc m" and e: "nodes l a = Some e"
      "nxt e = hd_ptr as None" "dls (nodes l) (Some a) as None" and ys: "ys = y # ys'"
    by (cases n; cases ys) auto
  have "unat (of_nat (length xs) :: u32) = length xs"
    using Cons.prems by (simp add: unat_of_nat take_bit_nat_eq_self)
  moreover have "fill_loop m (hd_ptr as None) (of_nat (length (xs @ [data e])))
      ((xs @ [data e]) @ ys') l = Inr ((xs @ [data e]) @ data_of (nodes l) as, l)"
    using Cons.prems n ys by (intro Cons.IH[OF e(3)]) auto
  ultimately show ?case
    using n e ys by (simp add: prog_simps add.commute)
qed

lemma get_all_entries_models:
  assumes "models l xs" and "length xs < 2 ^ 32"
  shows "get_all_entries (Some l) = Inr (Some xs, Some l)"
proof -
  from assms(1) obtain as where l: "dls (nodes l) None as None" "first l = hd_ptr as None"
      "xs = data_of (nodes l) as"
    by (auto simp: models_def dll_def)
  have fuel: "length as < loop_fuel l" using models_length[OF assms(1)] l by simp
  have "unat (of_nat (length as) :: u32) = length as"
    using assms(2) l by (simp add: unat_of_nat take_bit_nat_eq_self)
  then show ?thesis
    using l assms(2) fuel fill_loop_eq[OF l(1) fuel, of "[]" "replicate (length as) 0"]
    by (simp add: get_all_entries_def prog_simps count_loop_eq)
qed

lemma free_loop_eq:
  "dls (nodes l) p as None \<Longrightarrow> distinct as \<Longrightarrow> length as < n \<Longrightarrow>
     free_loop n (hd_ptr as None) l = Inr ((), l\<lparr>nodes := nodes l |` (- set as)\<rparr>)"
proof (induction as arbitrary: n p l)
  case Nil
  then show ?case by (cases n) (auto simp: prog_simps)
next
  case (Cons a as)
  then obtain m e where n: "n = Suc m" and e: "nodes l a = Some e"
      "nxt e = hd_ptr as None" "dls (nodes l) (Some a) as None"
    by (cases n) auto
  let ?l = "l\<lparr>nodes := (nodes l)(a := None)\<rparr>"
  have "free_loop m (hd_ptr as None) ?l = Inr ((), ?l\<lparr>nodes := nodes ?l |` (- set as)\<rparr>)"
    using Cons.prems n e by (intro Cons.IH[of _ "Some a"]) (auto simp del: fun_upd_apply)
  moreover have "(nodes l)(a := None) |` (- set as) = nodes l |` (- set (a # as))"
    by (auto simp: restrict_map_def fun_eq_iff)
  ultimately show ?case using n e by (simp add: prog_simps)
qed

lemma free_linked_list_models:
  assumes "models l xs"
  shows "free_linked_list (Some l) = Inr ((), if xs = [] then Some l else None)"
proof -
  from assms obtain as where l: "dls (nodes l) None as None" "first l = hd_ptr as None"
      "distinct as" "xs = data_of (nodes l) as"
    by (auto simp: models_def dll_def)
  have "length as < loop_fuel l" using models_length[OF assms] l by simp
  from free_loop_eq[OF l(1,3) this] l show ?thesis
    by (simp add: free_linked_list_def)
qed

text \<open>The four ways a node leaves the list: it is the only one, the first, the last, or inside.\<close>

lemma unlink_only:
  "dll l [a] \<Longrightarrow> dll (l\<lparr>nodes := (nodes l)(a := None), lst := None, first := None\<rparr>) []"
  by (auto simp: dll_def)

lemma unlink_first:
  "dll l (a # b # cs) \<Longrightarrow> nodes l b = Some m \<Longrightarrow>
     dll (l\<lparr>first := Some b, nodes := (nodes l)(b \<mapsto> m\<lparr>prv := None\<rparr>, a := None)\<rparr>) (b # cs)"
  by (auto simp: dll_def)

lemma unlink_last:
  "dll l (bs @ [b, a]) \<Longrightarrow> nodes l b = Some m \<Longrightarrow>
     dll (l\<lparr>lst := Some b, nodes := (nodes l)(b \<mapsto> m\<lparr>nxt := None\<rparr>, a := None)\<rparr>) (bs @ [b])"
  by (auto simp: dll_def dls_append)

lemma unlink_inside:
  "dll l (bs @ b # a # c # cs) \<Longrightarrow> nodes l b = Some m \<Longrightarrow> nodes l c = Some k \<Longrightarrow>
     dll (l\<lparr>nodes := (nodes l)(b \<mapsto> m\<lparr>nxt := Some c\<rparr>, c \<mapsto> k\<lparr>prv := Some b\<rparr>, a := None)\<rparr>)
       (bs @ b # c # cs)"
  by (auto simp: dll_def dls_append)

lemma remove_loop_skip:
  "dls (nodes l) p bs (Some a) \<Longrightarrow> d \<notin> set (data_of (nodes l) bs) \<Longrightarrow>
     remove_loop (length bs + n) (hd_ptr bs (Some a)) d l = remove_loop n (Some a) d l"
  by (induction bs arbitrary: p) (auto simp: prog_simps)

lemma remove_loop_absent:
  "dls (nodes l) p as None \<Longrightarrow> length as < n \<Longrightarrow> d \<notin> set (data_of (nodes l) as) \<Longrightarrow>
     remove_loop n (hd_ptr as None) d l = Inr ((), l)"
  by (induction as arbitrary: n p; case_tac n) (auto simp: prog_simps)

lemma remove_at:
  assumes l: "dll l (bs @ b # a # cs)" and a: "nodes l a = Some e" "data e = d"
  shows "\<exists>l'. remove_loop (Suc n) (Some a) d l = Inr ((), l') \<and>
           models l' (data_of (nodes l) (bs @ b # cs))"
proof -
  obtain m where m: "nodes l b = Some m" using l by (auto simp: dll_def dls_append)
  have e: "prv e = Some b" "nxt e = hd_ptr cs None" and dist: "distinct (bs @ b # a # cs)"
    using l a by (auto simp: dll_def dls_append)
  show ?thesis
  proof (cases cs)
    case Nil
    with l m dist have "models (l\<lparr>lst := Some b, nodes := (nodes l)(b \<mapsto> m\<lparr>nxt := None\<rparr>, a := None)\<rparr>)
        (data_of (nodes l) (bs @ [b]))"
      unfolding models_def by (intro exI[of _ "bs @ [b]"]) (auto simp: unlink_last)
    with Nil a e m dist show ?thesis by (auto simp: prog_simps)
  next
    case (Cons c cs')
    then obtain k where k: "nodes l c = Some k" using l by (auto simp: dll_def dls_append)
    with Cons l m dist have "models (l\<lparr>nodes := (nodes l)(b \<mapsto> m\<lparr>nxt := Some c\<rparr>,
        c \<mapsto> k\<lparr>prv := Some b\<rparr>, a := None)\<rparr>) (data_of (nodes l) (bs @ b # c # cs'))"
      unfolding models_def by (intro exI[of _ "bs @ b # c # cs'"]) (auto simp: unlink_inside)
    with Cons a e m k dist show ?thesis by (auto simp: prog_simps)
  qed
qed

lemma remove_first_models:
  assumes l: "dll l (a # as)" and a: "nodes l a = Some e" "data e = d"
  shows "\<exists>l'. remove_entry_from_list d (Some l) = Inr ((), Some l') \<and>
           models l' (data_of (nodes l) as)"
proof (cases as)
  case Nil
  have "models (l\<lparr>nodes := (nodes l)(a := None), lst := None, first := None\<rparr>) []"
    using unlink_only l Nil by (auto simp: models_def)
  with Nil l a show ?thesis
    by (auto simp: remove_entry_from_list_def dll_def prog_simps)
next
  case (Cons b cs)
  then obtain m where m: "nodes l b = Some m" and e: "nxt e = Some b" and dist: "distinct (a # b # cs)"
    using l a by (auto simp: dll_def)
  have "models (l\<lparr>first := Some b, nodes := (nodes l)(b \<mapsto> m\<lparr>prv := None\<rparr>, a := None)\<rparr>)
      (data_of (nodes l) (b # cs))"
    unfolding models_def using l Cons m dist
    by (intro exI[of _ "b # cs"]) (auto simp: unlink_first)
  with Cons l a e m dist show ?thesis
    by (auto simp: remove_entry_from_list_def dll_def prog_simps)
qed

lemma remove_entry_models:
  assumes "models l xs" and "xs \<noteq> []"
  shows "\<exists>l'. remove_entry_from_list d (Some l) = Inr ((), Some l') \<and> models l' (remove1 d xs)"
proof -
  from assms obtain a0 as where l: "dll l (a0 # as)" and xs: "xs = data_of (nodes l) (a0 # as)"
    by (auto simp: models_def map_eq_Cons_conv neq_Nil_conv)
  then obtain e0 where e0: "nodes l a0 = Some e0" "nxt e0 = hd_ptr as None"
      "dls (nodes l) (Some a0) as None"
    by (auto simp: dll_def)
  have start: "remove_entry_from_list d (Some l) =
      on_list (ret ()) (remove_loop (loop_fuel l) (hd_ptr as None) d) (Some l)"
    if "data e0 \<noteq> d"
    using l e0 that by (simp add: remove_entry_from_list_def dll_def prog_simps on_list_def)
  show ?thesis
  proof (cases "data e0 = d")
    case True
    with remove_first_models[OF l e0(1)] xs e0 show ?thesis by auto
  next
    case ne: False
    show ?thesis
    proof (cases "d \<in> set (data_of (nodes l) as)")
      case False
      have "length as < loop_fuel l" using dll_length[OF l] by (simp add: loop_fuel_def)
      from remove_loop_absent[OF e0(3) this False] start[OF ne] False l xs ne e0
      show ?thesis by (auto simp: prog_simps models_def remove1_idem)
    next
      case True
      then obtain ys zs where "data_of (nodes l) as = ys @ d # zs" and "d \<notin> set ys"
        using split_list_first by metis
      then obtain ds a cs where as: "as = ds @ a # cs" and d: "data (the (nodes l a)) = d"
          "d \<notin> set (data_of (nodes l) ds)"
        by (clarsimp simp: map_eq_append_conv map_eq_Cons_conv)
      obtain bs b where b: "a0 # ds = bs @ [b]" by (cases "a0 # ds" rule: rev_cases) auto
      with l as have l2: "dll l (bs @ b # a # cs)" by (metis append.assoc append_Cons append_Nil)
      then obtain e where e: "nodes l a = Some e" "data e = d" using d by (auto simp: dll_def dls_append)
      from dll_length[OF l] as have "loop_fuel l = length ds + Suc (fresh l - length ds)"
        by (simp add: loop_fuel_def)
      then obtain n where n: "loop_fuel l = length ds + Suc n" ..
      have "dls (nodes l) (Some a0) ds (Some a)" using e0(3) as by (simp add: dls_append)
      from remove_loop_skip[OF this d(2), of "Suc n"] n as
      have "remove_loop (loop_fuel l) (hd_ptr as None) d l = remove_loop (Suc n) (Some a) d l" by simp
      moreover have "remove1 d xs = data_of (nodes l) (bs @ b # cs)"
      proof -
        have "remove1 d xs = data_of (nodes l) ((a0 # ds) @ cs)"
          using xs as d ne e0 by (simp add: remove1_append)
        then show ?thesis by (simp only: b) simp
      qed
      ultimately show ?thesis
        using remove_at[OF l2 e, of n] start[OF ne] by (auto simp: prog_simps)
    qed
  qed
qed

lemma remove_entry_empty:
  "models l [] \<Longrightarrow> remove_entry_from_list d (Some l) = Inl Null_deref"
  by (auto simp: models_def dll_def remove_entry_from_list_def prog_simps node_at_def)

text \<open>What the handlers read off the header: whether the list is empty, or has one entry.\<close>

lemma models_first:
  "models l xs \<Longrightarrow> first l = None \<longleftrightarrow> xs = []"
  by (clarsimp simp: models_def dll_def)

lemma models_single:
  assumes "models l xs" and "xs \<noteq> []"
  shows "first l = lst l \<longleftrightarrow> length xs = 1"
proof -
  from assms obtain a as where l: "dll l (a # as)" "xs = data_of (nodes l) (a # as)"
    by (auto simp: models_def map_eq_Cons_conv neq_Nil_conv)
  show ?thesis
  proof (cases as rule: rev_cases)
    case Nil
    with l show ?thesis by (simp add: dll_def)
  next
    case (snoc bs b)
    with l show ?thesis by (auto simp: dll_def)
  qed
qed

lemma models_head:
  "models l (x # xs) \<Longrightarrow> \<exists>n. node_at (first l) l = Inr (n, l) \<and> data n = x"
  by (auto simp: models_def dll_def map_eq_Cons_conv prog_simps)

section \<open>The contract\<close>

text \<open>
  What the handlers rely on: a list holds some data, in order; adding appends to it, and
  membership and the array of all entries are those of the data.
\<close>

locale list_store =
  fixes holds :: "'l \<Rightarrow> u32 list \<Rightarrow> bool"
    and nil :: "'l"
    and add :: "u32 \<Rightarrow> ('l option, unit) prog"
    and is_in :: "u32 \<Rightarrow> ('l option, u8) prog"
    and all_entries :: "('l option, u32 list option) prog"
  assumes holds_nil: "holds nil []"
    and holds_unique: "holds l xs \<Longrightarrow> holds l ys \<Longrightarrow> xs = ys"
    and holds_add: "holds l xs \<Longrightarrow> \<exists>l'. add d (Some l) = Inr ((), Some l') \<and> holds l' (xs @ [d])"
    and holds_is_in: "holds l xs \<Longrightarrow> is_in d (Some l) = Inr (if d \<in> set xs then 1 else 0, Some l)"
    and holds_all: "holds l xs \<Longrightarrow> length xs < 2 ^ 32 \<Longrightarrow> all_entries (Some l) = Inr (Some xs, Some l)"
begin

text \<open>The idiom of the handlers: add an entry unless the list has it.\<close>

lemma add_if_absent:
  assumes "holds l xs"
  shows "\<exists>l'. bnd (is_in d) (\<lambda>b. when_p (b = 0) (add d)) (Some l) = Inr ((), Some l') \<and>
           holds l' (if d \<in> set xs then xs else xs @ [d])"
  using holds_add[OF assms, of d] assms
  by (cases "d \<in> set xs") (auto simp: prog_simps holds_is_in)

lemma add_if_absent_distinct:
  assumes "holds l xs" and "distinct xs"
  shows "\<exists>l' ys. bnd (is_in d) (\<lambda>b. when_p (b = 0) (add d)) (Some l) = Inr ((), Some l') \<and>
           holds l' ys \<and> distinct ys \<and> set ys = insert d (set xs)"
proof -
  let ?ys = "if d \<in> set xs then xs else xs @ [d]"
  have "distinct ?ys \<and> set ?ys = insert d (set xs)" using assms(2) by auto
  with add_if_absent[OF assms(1), of d] show ?thesis by blast
qed

lemma all_after_add:
  assumes "holds l xs" and "length xs < 2 ^ 32 - 1"
  shows "sq (add d) all_entries (Some l) = (case add d (Some l) of Inl f \<Rightarrow> Inl f
     | Inr (_, l') \<Rightarrow> Inr (Some (xs @ [d]), l'))"
  using holds_add[OF assms(1), of d] assms by (auto simp: prog_simps holds_all)

end

locale removable_list_store = list_store +
  fixes remove :: "u32 \<Rightarrow> ('a option, unit) prog"
  assumes holds_remove: "holds l xs \<Longrightarrow> xs \<noteq> [] \<Longrightarrow>
      \<exists>l'. remove d (Some l) = Inr ((), Some l') \<and> holds l' (remove1 d xs)"
begin

lemma remove_added:
  assumes "holds l xs" and "d \<notin> set xs"
  shows "\<exists>l'. sq (add d) (remove d) (Some l) = Inr ((), Some l') \<and> holds l' xs"
proof -
  obtain l1 where l1: "add d (Some l) = Inr ((), Some l1)" "holds l1 (xs @ [d])"
    using holds_add[OF assms(1)] by blast
  with holds_remove[OF l1(2), of d] assms(2) show ?thesis
    by (auto simp: prog_simps remove1_append)
qed

end

interpretation ll: removable_list_store models empty_list add_entry_to_list is_in_list
  get_all_entries remove_entry_from_list
  by unfold_locales
    (simp_all add: models_unique add_entry_models is_in_list_models get_all_entries_models
      remove_entry_models)

end
