(* ===== verification/Time_Funcs.thy ===== *)
theory Time_Funcs
  imports Prelude
begin

text \<open>
  The arithmetic on times of \<open>DataStructures/time_funcs.c\<close>. A \<open>struct timespec\<close> has a
  \<open>time_t\<close> and a \<open>long\<close>, both 64-bit and signed; they are integers here, and
  \<open>timespec_in_range\<close> says how far from the 64-bit bounds the results stay. Millisecond
  amounts are \<open>uint32_t\<close> and wrap. \<open>sdiv\<close> is C's division, which truncates towards zero.
\<close>

record timespec =
  tv_sec :: int
  tv_nsec :: int

section \<open>The functions\<close>

definition subtract_time :: "timespec \<Rightarrow> timespec \<Rightarrow> timespec" where
  "subtract_time current_time end_time =
     (let sec = tv_sec end_time - tv_sec current_time in
      if sec < 0 then \<lparr>tv_sec = 0, tv_nsec = 0\<rparr>
      else
        let nsec = tv_nsec end_time - tv_nsec current_time in
        if nsec < 0 then \<lparr>tv_sec = sec - 1, tv_nsec = nsec + 1000000000\<rparr>
        else \<lparr>tv_sec = sec, tv_nsec = nsec\<rparr>)"

definition get_ms_difference :: "timespec \<Rightarrow> timespec \<Rightarrow> u32" where
  "get_ms_difference current_time end_time =
     (if tv_sec end_time - tv_sec current_time < 0 then 0
      else
        let ms_diff = (0 :: u32);
            end_time_nsec = tv_nsec end_time;
            ms_diff = (word_of_int :: int \<Rightarrow> u32) (uint ms_diff + 1000 * (tv_sec end_time - tv_sec current_time));
            (ms_diff, end_time_nsec) =
              (if end_time_nsec - tv_nsec current_time < 0 \<and> 0 < ms_diff
               then (ms_diff - 1000, end_time_nsec + 1000000000)
               else (ms_diff, end_time_nsec))
        in word_of_int (uint ms_diff + (end_time_nsec - tv_nsec current_time) sdiv 1000000))"

definition add_time :: "timespec \<Rightarrow> timespec \<Rightarrow> timespec" where
  "add_time current_time end_time =
     (let sec = tv_sec end_time + tv_sec current_time;
          nsec = tv_nsec end_time + tv_nsec current_time
      in if 1000000000 < nsec then \<lparr>tv_sec = sec + 1, tv_nsec = nsec - 1000000000\<rparr>
         else \<lparr>tv_sec = sec, tv_nsec = nsec\<rparr>)"

text \<open>The loop that carries whole seconds out of the nanoseconds.\<close>

function carry_nsec :: "timespec \<Rightarrow> timespec" where
  "carry_nsec t =
     (if 1000000000 < tv_nsec t
      then carry_nsec \<lparr>tv_sec = tv_sec t + 1, tv_nsec = tv_nsec t - 1000000000\<rparr>
      else t)"
  by pat_completeness auto
termination
  by (relation "measure (\<lambda>t. nat (tv_nsec t))") auto

declare carry_nsec.simps [simp del]

definition add_time_ms :: "timespec \<Rightarrow> u32 \<Rightarrow> timespec" where
  "add_time_ms current_time miliseconds =
     carry_nsec
       \<lparr>tv_sec = tv_sec current_time + uint (miliseconds div 1000),
        tv_nsec = uint ((miliseconds - 1000 * (miliseconds div 1000)) * 1000000)
                  + tv_nsec current_time\<rparr>"

definition convert_ms_to_timespec :: "u32 \<Rightarrow> timespec" where
  "convert_ms_to_timespec miliseconds =
     (let sec = uint (miliseconds div 1000) in
      carry_nsec \<lparr>tv_sec = sec, tv_nsec = (uint miliseconds - sec * 1000) * 1000000\<rparr>)"

definition convert_timespec_to_ms :: "timespec \<Rightarrow> u32" where
  "convert_timespec_to_ms current_time =
     (let ms = (0 :: u32);
          ms = (word_of_int :: int \<Rightarrow> u32) (uint ms + tv_sec current_time * 1000);
          ms = word_of_int (uint ms + tv_nsec current_time sdiv 1000000)
      in ms)"

definition max_timespec :: "timespec \<Rightarrow> timespec \<Rightarrow> timespec" where
  "max_timespec current_time end_time =
     (if tv_sec end_time \<le> tv_sec current_time then
        (if tv_nsec end_time \<le> tv_nsec current_time then current_time
         else if tv_sec end_time
                 \<le> tv_sec current_time - (tv_nsec current_time - tv_nsec end_time) sdiv 1000000000
         then current_time
         else end_time)
      else end_time)"

section \<open>Times in nanoseconds\<close>

definition total_ns :: "timespec \<Rightarrow> int" where
  "total_ns t = tv_sec t * 1000000000 + tv_nsec t"

text \<open>What \<open>clock_gettime\<close> returns and \<open>nanosleep\<close> takes: 0 to 999999999 nanoseconds.\<close>

definition normalised :: "timespec \<Rightarrow> bool" where
  "normalised t \<longleftrightarrow> 0 \<le> tv_nsec t \<and> tv_nsec t < 1000000000"

text \<open>
  \<open>nanosleep\<close> sleeps for the time it is given and returns 0, unless the seconds are negative
  or the nanoseconds out of range: then it returns -1 at once, every time it is called.
\<close>

definition nanosleep_ok :: "timespec \<Rightarrow> bool" where
  "nanosleep_ok t \<longleftrightarrow> 0 \<le> tv_sec t \<and> normalised t"

definition timespec_in_range :: "timespec \<Rightarrow> bool" where
  "timespec_in_range t \<longleftrightarrow> \<bar>tv_sec t\<bar> < 2 ^ 62 \<and> \<bar>tv_nsec t\<bar> < 2 ^ 62"

lemma normalised_parts:
  "normalised t \<Longrightarrow> tv_sec t = total_ns t div 1000000000 \<and> tv_nsec t = total_ns t mod 1000000000"
  by (simp add: normalised_def total_ns_def)

lemma total_ns_inj:
  "normalised s \<Longrightarrow> normalised t \<Longrightarrow> total_ns s = total_ns t \<Longrightarrow> s = t"
  by (rule timespec.equality) (simp_all add: normalised_parts)

text \<open>Times are ordered by seconds, then nanoseconds.\<close>

instantiation timespec_ext :: (linorder) linorder
begin

definition less_eq_timespec_ext :: "'a timespec_ext \<Rightarrow> 'a timespec_ext \<Rightarrow> bool" where
  "less_eq_timespec_ext s t \<longleftrightarrow> tv_sec s < tv_sec t \<or> tv_sec s = tv_sec t \<and>
     (tv_nsec s < tv_nsec t \<or> tv_nsec s = tv_nsec t \<and> timespec.more s \<le> timespec.more t)"

definition less_timespec_ext :: "'a timespec_ext \<Rightarrow> 'a timespec_ext \<Rightarrow> bool" where
  "less_timespec_ext s t \<longleftrightarrow> s \<le> t \<and> \<not> t \<le> s"

instance
proof
  fix s t u :: "'a timespec_ext"
  show "s < t \<longleftrightarrow> s \<le> t \<and> \<not> t \<le> s" by (rule less_timespec_ext_def)
  show "s \<le> s" by (simp add: less_eq_timespec_ext_def)
  show "s \<le> t \<Longrightarrow> t \<le> u \<Longrightarrow> s \<le> u" by (auto simp: less_eq_timespec_ext_def)
  show "s \<le> t \<Longrightarrow> t \<le> s \<Longrightarrow> s = t" by (auto simp: less_eq_timespec_ext_def intro: timespec.equality)
  show "s \<le> t \<or> t \<le> s" by (auto simp: less_eq_timespec_ext_def)
qed

end

lemma le_total_ns:
  "normalised s \<Longrightarrow> normalised t \<Longrightarrow> s \<le> t \<longleftrightarrow> total_ns s \<le> total_ns (t :: timespec)"
  by (auto simp: less_eq_timespec_ext_def normalised_def total_ns_def)

section \<open>What the functions compute\<close>

lemma carry_total [simp]: "total_ns (carry_nsec t) = total_ns t"
proof (induction t rule: carry_nsec.induct)
  case (1 t)
  then show ?case by (subst carry_nsec.simps) (simp add: total_ns_def)
qed

lemma carry_range:
  "0 \<le> tv_nsec t \<Longrightarrow> 0 \<le> tv_nsec (carry_nsec t) \<and> tv_nsec (carry_nsec t) \<le> 1000000000"
proof (induction t rule: carry_nsec.induct)
  case (1 t)
  then show ?case by (subst (1 2) carry_nsec.simps) simp
qed

lemma carry_sec: "0 \<le> tv_nsec t \<Longrightarrow> tv_sec t \<le> tv_sec (carry_nsec t)"
proof (induction t rule: carry_nsec.induct)
  case (1 t)
  then show ?case by (subst carry_nsec.simps) fastforce
qed

lemma carry_small: "tv_nsec t \<le> 1000000000 \<Longrightarrow> carry_nsec t = t"
  by (subst carry_nsec.simps) simp

lemma ms_split:
  fixes ms :: u32
  shows "uint (ms div 1000) = uint ms div 1000"
    and "uint ((ms - 1000 * (ms div 1000)) * 1000000) = uint ms mod 1000 * 1000000"
proof -
  show d: "uint (ms div 1000) = uint ms div 1000"
    by (simp add: uint_div)
  have b: "uint ms < 2 ^ 32" using uint_lt2p[of ms] by simp
  have "ms - 1000 * (ms div 1000) = ms mod 1000"
    by (metis minus_mult_div_eq_mod)
  moreover have "uint (ms mod 1000) = uint ms mod 1000"
    by (simp add: uint_mod)
  ultimately show "uint ((ms - 1000 * (ms div 1000)) * 1000000) = uint ms mod 1000 * 1000000"
    by (simp add: uint_word_ariths take_bit_eq_mod)
qed

lemma ms_to_ns: "(x :: int) div 1000 * 1000000000 + x mod 1000 * 1000000 = x * 1000000"
  using div_mult_mod_eq[of x 1000] by linarith

lemma add_time_ms_eq:
  "add_time_ms t ms = carry_nsec \<lparr>tv_sec = tv_sec t + uint ms div 1000,
     tv_nsec = uint ms mod 1000 * 1000000 + tv_nsec t\<rparr>"
  by (simp only: add_time_ms_def ms_split)

lemma add_time_ms_total:
  "total_ns (add_time_ms t ms) = total_ns t + uint ms * 1000000"
  using ms_to_ns[of "uint ms"] by (simp add: add_time_ms_eq) (simp add: total_ns_def)

lemma add_time_ms_range:
  "normalised t \<Longrightarrow> 0 \<le> tv_nsec (add_time_ms t ms) \<and> tv_nsec (add_time_ms t ms) \<le> 1000000000"
  using carry_range by (simp add: add_time_ms_eq normalised_def)

lemma convert_ms_eq:
  "convert_ms_to_timespec ms =
     \<lparr>tv_sec = uint ms div 1000, tv_nsec = uint ms mod 1000 * 1000000\<rparr>"
proof -
  have "uint ms - uint ms div 1000 * 1000 = uint ms mod 1000"
    by (simp add: minus_div_mult_eq_mod)
  then show ?thesis
    by (simp add: convert_ms_to_timespec_def Let_def ms_split carry_small)
qed

lemma convert_ms_sleeps: "nanosleep_ok (convert_ms_to_timespec ms)"
  by (simp add: convert_ms_eq nanosleep_ok_def normalised_def pos_imp_zdiv_nonneg_iff)

lemma convert_ms_total: "total_ns (convert_ms_to_timespec ms) = uint ms * 1000000"
  using ms_to_ns[of "uint ms"] by (simp add: convert_ms_eq total_ns_def)

lemma sdiv_pos: "0 \<le> a \<Longrightarrow> 0 < b \<Longrightarrow> a sdiv b = a div (b :: int)"
  by (simp add: signed_divide_int_def sgn_if)

lemma convert_timespec_eq:
  "0 \<le> tv_nsec t \<Longrightarrow>
     convert_timespec_to_ms t = word_of_int (tv_sec t * 1000 + tv_nsec t div 1000000)"
  by (simp add: convert_timespec_to_ms_def sdiv_pos flip: wi_hom_add)

lemma subtract_time_later:
  "tv_sec cur \<le> tv_sec end \<Longrightarrow> total_ns (subtract_time cur end) = total_ns end - total_ns cur"
  by (simp add: subtract_time_def Let_def total_ns_def)

lemma subtract_time_earlier:
  "tv_sec end < tv_sec cur \<Longrightarrow> subtract_time cur end = \<lparr>tv_sec = 0, tv_nsec = 0\<rparr>"
  by (simp add: subtract_time_def Let_def)

lemma subtract_time_normalised:
  "normalised cur \<Longrightarrow> normalised end \<Longrightarrow> normalised (subtract_time cur end)"
  by (simp add: subtract_time_def Let_def normalised_def)

lemma max_timespec_eq:
  assumes "normalised s" and "normalised t"
  shows "max_timespec s t = (if tv_sec t \<le> tv_sec s then s else t)"
proof -
  have "(tv_nsec s - tv_nsec t) sdiv 1000000000 = 0"
    using assms by (simp add: signed_divide_int_def normalised_def abs_if)
  then show ?thesis by (simp add: max_timespec_def)
qed

lemma div_million_less: "(x :: int) < 4294967296 * 1000000 \<Longrightarrow> x div 1000000 < 4294967296"
  by presburger

lemma get_ms_difference_later:
  assumes d: "0 \<le> tv_sec end_time - tv_sec cur" "tv_sec end_time - tv_sec cur < 4294967"
    and n: "- 1000000000 < tv_nsec end_time - tv_nsec cur"
    and neg: "tv_nsec end_time - tv_nsec cur < 0 \<Longrightarrow> 0 < tv_sec end_time - tv_sec cur"
  shows "get_ms_difference cur end_time = word_of_int
    (((tv_sec end_time - tv_sec cur) * 1000000000 + (tv_nsec end_time - tv_nsec cur)) div 1000000)"
proof -
  define d' where "d' = tv_sec end_time - tv_sec cur"
  define n' where "n' = tv_nsec end_time - tv_nsec cur"
  have w: "uint (word_of_int (1000 * d') :: u32) = 1000 * d'"
    using d unfolding d'_def[symmetric] by (simp only: uint_word_of_int) simp
  have "0 < (word_of_int (1000 * d') :: u32) \<longleftrightarrow> 0 < d'"
    using w d by (simp add: word_less_def d'_def)
  moreover have "(d' * 1000000000 + n') div 1000000 = 1000 * d' + n' div 1000000" by simp
  moreover have "(n' + 1000000000) div 1000000 = n' div 1000000 + 1000" by simp
  moreover have "get_ms_difference cur end_time =
      (let ms = word_of_int (1000 * d') :: u32 in
       if n' < 0 \<and> 0 < ms then word_of_int (uint (ms - 1000) + (n' + 1000000000) sdiv 1000000)
       else word_of_int (uint ms + n' sdiv 1000000))"
    using d by (simp add: get_ms_difference_def Let_def d'_def n'_def algebra_simps)
  ultimately show ?thesis
    unfolding d'_def[symmetric] n'_def[symmetric]
    using n neg unfolding d'_def[symmetric] n'_def[symmetric]
    by (cases "n' < 0") (simp_all add: sdiv_pos flip: wi_hom_add)
qed

section \<open>Properties\<close>

text \<open>Converting a number of milliseconds to a timespec and back gives the number.\<close>

theorem ms_round_trip: "convert_timespec_to_ms (convert_ms_to_timespec ms) = ms"
proof -
  have "uint ms div 1000 * 1000 + uint ms mod 1000 = uint ms" by simp
  then show ?thesis
    by (simp add: convert_timespec_eq convert_ms_eq)
qed

text \<open>
  Adding milliseconds to a time is exact, and moves the seconds by less than 4294969, so a
  64-bit \<open>time_t\<close> does not overflow. The nanoseconds stay between 0 and 1000000000, the upper
  bound included: the loop that carries seconds leaves 1000000000 as it is.
\<close>

theorem add_time_ms_exact:
  assumes "normalised t"
  shows "total_ns (add_time_ms t ms) = total_ns t + uint ms * 1000000 \<and>
    0 \<le> tv_nsec (add_time_ms t ms) \<and> tv_nsec (add_time_ms t ms) \<le> 1000000000 \<and>
    tv_sec t \<le> tv_sec (add_time_ms t ms) \<and> tv_sec (add_time_ms t ms) \<le> tv_sec t + 4294968"
proof -
  let ?r = "add_time_ms t ms"
  have tot: "total_ns ?r = total_ns t + uint ms * 1000000" by (rule add_time_ms_total)
  have ns: "0 \<le> tv_nsec ?r \<and> tv_nsec ?r \<le> 1000000000"
    by (rule add_time_ms_range[OF assms])
  have "uint ms < 4294967296" using uint_lt2p[of ms] by simp
  with tot ns assms have "tv_sec ?r \<le> tv_sec t + 4294968"
    by (simp add: total_ns_def normalised_def)
  moreover have "tv_sec t \<le> tv_sec ?r"
  proof -
    have "0 \<le> uint ms div 1000" by (simp add: pos_imp_zdiv_nonneg_iff)
    with assms show ?thesis
      using carry_sec[of "\<lparr>tv_sec = tv_sec t + uint ms div 1000,
        tv_nsec = uint ms mod 1000 * 1000000 + tv_nsec t\<rparr>"]
      by (simp add: add_time_ms_eq normalised_def)
  qed
  ultimately show ?thesis using tot ns by blast
qed

theorem add_time_ms_exact_witness:
  "total_ns (add_time_ms \<lparr>tv_sec = 7, tv_nsec = 999999999\<rparr> 3000) =
     total_ns \<lparr>tv_sec = 7, tv_nsec = 999999999\<rparr> + uint (3000 :: u32) * 1000000"
  using add_time_ms_exact[of "\<lparr>tv_sec = 7, tv_nsec = 999999999\<rparr>" 3000]
  by (simp add: normalised_def)

text \<open>
  The time an expiration thread sleeps for is what \<open>subtract_time\<close> leaves of the time
  until the expiry. \<open>nanosleep\<close> accepts it, unless the expiry has passed but lies in the
  current second: then the seconds come out as -1, \<open>nanosleep\<close> fails each time it is called,
  and \<open>while(nanosleep(...))\<close> does not end.
\<close>

theorem subtract_time_sleeps:
  assumes "normalised cur" and "normalised end_time"
  shows "nanosleep_ok (subtract_time cur end_time) \<longleftrightarrow>
           tv_sec cur \<noteq> tv_sec end_time \<or> total_ns cur \<le> total_ns end_time"
  using assms
  by (auto simp: subtract_time_def Let_def nanosleep_ok_def normalised_def total_ns_def)

theorem subtract_time_sleeps_witness:
  "\<not> nanosleep_ok (subtract_time \<lparr>tv_sec = 5, tv_nsec = 20\<rparr> \<lparr>tv_sec = 5, tv_nsec = 10\<rparr>)"
  using subtract_time_sleeps[of "\<lparr>tv_sec = 5, tv_nsec = 20\<rparr>" "\<lparr>tv_sec = 5, tv_nsec = 10\<rparr>"]
  by (simp add: normalised_def total_ns_def)

text \<open>
  \<open>max_timespec\<close> compares the seconds only: it returns the later of two times, except that
  of two times in the same second it always returns the first.
\<close>

theorem max_timespec_seconds:
  assumes "normalised s" and "normalised t"
  shows "max_timespec s t = (if tv_sec s = tv_sec t then s else max s t)"
proof -
  have "tv_sec s \<noteq> tv_sec t \<Longrightarrow> (s \<le> t) = (tv_sec s < tv_sec t)"
    by (simp add: less_eq_timespec_ext_def)
  then show ?thesis
    using assms by (auto simp: max_timespec_eq max_def)
qed

theorem max_timespec_seconds_witness:
  "max_timespec \<lparr>tv_sec = 1, tv_nsec = 3\<rparr> \<lparr>tv_sec = 1, tv_nsec = 8\<rparr> = \<lparr>tv_sec = 1, tv_nsec = 3\<rparr>"
  by (subst max_timespec_seconds) (simp_all add: normalised_def)

text \<open>
  The difference of two times in milliseconds is the exact one, rounded down, when the end
  time is not earlier and less than about \<open>2 ^ 32\<close> milliseconds away.
\<close>

theorem get_ms_difference_exact:
  assumes "normalised cur" and "normalised end_time"
    and "total_ns cur \<le> total_ns end_time" and "tv_sec end_time - tv_sec cur < 4294967"
  shows "uint (get_ms_difference cur end_time) = (total_ns end_time - total_ns cur) div 1000000"
proof -
  let ?d = "tv_sec end_time - tv_sec cur" and ?n = "tv_nsec end_time - tv_nsec cur"
  have tot: "total_ns end_time - total_ns cur = ?d * 1000000000 + ?n" by (simp add: total_ns_def)
  have d: "0 \<le> ?d" using assms by (simp add: total_ns_def normalised_def)
  have n: "- 1000000000 < ?n" "?n < 1000000000" using assms by (simp_all add: normalised_def)
  have "?n < 0 \<Longrightarrow> 0 < ?d" using assms(3) tot d by (cases "?d = 0") auto
  then have eq: "get_ms_difference cur end_time = word_of_int ((?d * 1000000000 + ?n) div 1000000)"
    using get_ms_difference_later[OF _ assms(4)] d n by simp
  have "0 \<le> ?d * 1000000000 + ?n" using assms(3) tot by simp
  moreover have "?d * 1000000000 \<le> 4294966 * 1000000000"
    using assms(4) by (intro mult_right_mono) simp_all
  then have "(?d * 1000000000 + ?n) div 1000000 < 4294967296"
    using n(2) by (intro div_million_less) simp
  ultimately show ?thesis
    by (simp only: eq tot uint_word_of_int) (simp add: pos_imp_zdiv_nonneg_iff)
qed

theorem get_ms_difference_exact_witness:
  "uint (get_ms_difference \<lparr>tv_sec = 5, tv_nsec = 900000000\<rparr> \<lparr>tv_sec = 6, tv_nsec = 100000000\<rparr>) = 200"
  by (subst get_ms_difference_exact) (simp_all add: normalised_def total_ns_def)

text \<open>
  For an end time that is earlier than the current time, the difference is 0, as the comment
  has it, only if it lies in an earlier second: in the same second it is the negative number of
  milliseconds modulo \<open>2 ^ 32\<close>.
\<close>

theorem get_ms_difference_past:
  assumes "normalised cur" and "normalised end_time" and "total_ns end_time < total_ns cur"
  shows "get_ms_difference cur end_time =
    (if tv_sec end_time < tv_sec cur then 0
     else - word_of_int ((total_ns cur - total_ns end_time) div 1000000))"
proof (cases "tv_sec end_time < tv_sec cur")
  case True
  then show ?thesis by (simp add: get_ms_difference_def)
next
  case False
  with assms have "tv_sec end_time = tv_sec cur" "tv_nsec end_time < tv_nsec cur"
    by (auto simp: total_ns_def normalised_def)
  then show ?thesis
    by (simp add: get_ms_difference_def Let_def signed_divide_int_def total_ns_def flip: wi_hom_neg)
qed

theorem get_ms_difference_past_witness:
  "get_ms_difference \<lparr>tv_sec = 5, tv_nsec = 20000000\<rparr> \<lparr>tv_sec = 5, tv_nsec = 10000000\<rparr> = 4294967286"
  by (subst get_ms_difference_past) (simp_all add: normalised_def total_ns_def)

end
