(* ===== verification/Wire.thy ===== *)
theory Wire
  imports Prelude
begin

unbundle bit_operations_syntax

text \<open>
  How a header lies in memory. The headers are structs of \<open>uint32_t\<close> words, the first of them
  made of bit-fields; the code runs on little-endian machines (the headers have a variant for
  big-endian ones, but \<open>incoming_control_message\<close> reads the type from byte 3), where the first
  bit-field takes the lowest bits and the lowest byte comes first. \<open>wire_format\<close> is the
  contract of a header: the bytes of a header read back as the header, and the other way round.
\<close>

section \<open>Words and bytes\<close>

definition le32 :: "u32 \<Rightarrow> u8 list" where
  "le32 w = [ucast w, ucast (drop_bit 8 w), ucast (drop_bit 16 w), ucast (drop_bit 24 w)]"

definition bytes_of_words :: "u32 list \<Rightarrow> u8 list" where
  "bytes_of_words ws = concat (map le32 ws)"

text \<open>The \<open>i\<close>-th \<open>uint32_t\<close> of a block of memory.\<close>

definition word_at :: "u8 list \<Rightarrow> nat \<Rightarrow> u32" where
  "word_at bs i = ucast (bs ! (4 * i)) OR push_bit 8 (ucast (bs ! (4 * i + 1))) OR
     push_bit 16 (ucast (bs ! (4 * i + 2))) OR push_bit 24 (ucast (bs ! (4 * i + 3)))"

definition read_word :: "u8 list \<Rightarrow> nat \<Rightarrow> fault + u32" where
  "read_word bs i = (if 4 * i + 3 < length bs then Inr (word_at bs i) else Inl Out_of_bounds)"

text \<open>
  Handing \<open>n\<close> bytes of a block to another function: bytes behind the block are whatever lies
  there, given by \<open>junk\<close>.
\<close>

definition read_block :: "(nat \<Rightarrow> u8) \<Rightarrow> u8 list \<Rightarrow> nat \<Rightarrow> u8 list" where
  "read_block junk blk n = map (\<lambda>i. if i < length blk then blk ! i else junk i) [0..<n]"

lemma length_le32 [simp]: "length (le32 w) = 4"
  by (simp add: le32_def)

lemma length_bytes_of_words [simp]: "length (bytes_of_words ws) = 4 * length ws"
  by (induction ws) (simp_all add: bytes_of_words_def)

lemma bytes_of_words_simps [simp]:
  "bytes_of_words [] = []"
  "bytes_of_words (w # ws) = le32 w @ bytes_of_words ws"
  "bytes_of_words (ws @ vs) = bytes_of_words ws @ bytes_of_words vs"
  by (simp_all add: bytes_of_words_def)

lemma le32_word:
  "(ucast (ucast w :: u8) OR push_bit 8 (ucast (ucast (drop_bit 8 w) :: u8)) OR
    push_bit 16 (ucast (ucast (drop_bit 16 w) :: u8)) OR
    push_bit 24 (ucast (ucast (drop_bit 24 w) :: u8))) = (w :: u32)" (is "?l = w")
proof (rule bit_word_eqI)
  fix n assume n: "n < LENGTH(32)"
  consider "n < 8" | "8 \<le> n" "n < 16" | "16 \<le> n" "n < 24" | "24 \<le> n" by linarith
  then show "bit ?l n = bit w n" by cases (use n in \<open>auto simp: bit_simps\<close>)
qed

lemma word_at_head: "word_at (le32 w @ bs) 0 = w"
  using le32_word[of w] by (simp add: word_at_def le32_def)

lemma word_at_step: "length p = 4 \<Longrightarrow> word_at (p @ bs) (Suc i) = word_at bs i"
  by (simp add: word_at_def nth_append add.commute)

lemma word_at_bytes: "i < length ws \<Longrightarrow> word_at (bytes_of_words ws @ bs) i = ws ! i"
proof (induction ws arbitrary: i)
  case (Cons w ws)
  then show ?case
    by (cases i) (simp_all add: word_at_head word_at_step)
qed simp

lemma read_word_bytes:
  "i < length ws \<Longrightarrow> read_word (bytes_of_words ws @ bs) i = Inr (ws ! i)"
  by (simp add: read_word_def word_at_bytes)

lemma le32_word_at:
  assumes "4 * i + 3 < length bs"
  shows "le32 (word_at bs i) = [bs ! (4 * i), bs ! (4 * i + 1), bs ! (4 * i + 2), bs ! (4 * i + 3)]"
  unfolding le32_def word_at_def
  by (simp, intro conjI; rule bit_word_eqI; auto simp: bit_simps dest: bit_imp_le_length)

lemma read_block_exact: "read_block junk b (length b) = b"
  by (rule nth_equalityI) (auto simp: read_block_def)

lemma length_read_block [simp]: "length (read_block junk b n) = n"
  by (simp add: read_block_def)

lemma read_block_over:
  "length b \<le> n \<Longrightarrow> read_block junk b n = b @ map junk [length b..<n]"
  by (rule nth_equalityI) (auto simp: read_block_def nth_append)

section \<open>The contract of a header\<close>

locale wire_format =
  fixes encode :: "'h \<Rightarrow> u8 list"
    and decode :: "u8 list \<Rightarrow> fault + 'h"
    and width :: nat
  assumes length_encode: "length (encode h) = width"
    and decode_encode: "decode (encode h @ rest) = Inr h"
    and encode_decode: "decode bs = Inr h \<Longrightarrow> encode h = take width bs"
    and decode_short: "length bs < width \<Longrightarrow> decode bs = Inl Out_of_bounds"
    and decode_long: "width \<le> length bs \<Longrightarrow> \<exists>h. decode bs = Inr h"
begin

lemma decode_encode_exact: "decode (encode h) = Inr h"
  using decode_encode[of h "[]"] by simp

lemma encode_inj: "encode h = encode k \<Longrightarrow> h = k"
  by (metis decode_encode_exact sum.inject(2))

lemma decode_ok_iff: "(\<exists>h. decode bs = Inr h) \<longleftrightarrow> width \<le> length bs"
proof (cases "width \<le> length bs")
  case False
  then have "decode bs = Inl Out_of_bounds" by (intro decode_short) simp
  with False show ?thesis by simp
qed (simp add: decode_long)

lemma decode_prefix: "take width bs = take width cs \<Longrightarrow> width \<le> length bs \<Longrightarrow> width \<le> length cs \<Longrightarrow>
    decode bs = decode cs"
  using decode_long[of bs] decode_long[of cs] encode_decode encode_inj by metis

text \<open>Reading a header, changing it, and writing it back changes no other byte.\<close>

lemma rewrite_in_place:
  "decode bs = Inr h \<Longrightarrow> decode (encode (f h) @ drop width bs) = Inr (f h) \<and>
     length (encode (f h) @ drop width bs) = length bs"
  using decode_ok_iff[of bs] by (simp add: decode_encode length_encode)

end

end
