(* ===== verification/Messages.thy ===== *)
theory Messages
  imports Wire
begin

unbundle bit_operations_syntax

text \<open>
  The three control messages (\<open>Messages/rreq.h\<close>, \<open>rreq.c\<close>, \<open>rrep.h\<close>, \<open>rrep.c\<close>, \<open>rerr.h\<close>,
  \<open>rerr.c\<close>): their headers, with each bit-field at its width, the functions that make a
  message, and the bytes a header is. The formats satisfy \<open>wire_format\<close> (\<open>rreq_fmt\<close>,
  \<open>rrep_fmt\<close>, \<open>rerr_fmt\<close>).
\<close>

section \<open>Packet types\<close>

definition RREQ_TYPE :: u8 where "RREQ_TYPE = 1"
definition RREP_TYPE :: u8 where "RREP_TYPE = 2"
definition RERR_TYPE :: u8 where "RERR_TYPE = 3"
definition RREP_ACK_TYPE :: u8 where "RREP_ACK_TYPE = 4"

lemmas packet_types = RREQ_TYPE_def RREP_TYPE_def RERR_TYPE_def RREP_ACK_TYPE_def

section \<open>Route requests\<close>

definition RREQ_JOIN :: u8 where "RREQ_JOIN = 16"
definition RREQ_REPAIR :: u8 where "RREQ_REPAIR = 8"
definition RREQ_GRAT :: u8 where "RREQ_GRAT = 4"
definition RREQ_DEST_ONLY :: u8 where "RREQ_DEST_ONLY = 2"
definition RREQ_UNKNOWN :: u8 where "RREQ_UNKNOWN = 1"

lemmas rreq_flag_defs =
  RREQ_JOIN_def RREQ_REPAIR_def RREQ_GRAT_def RREQ_DEST_ONLY_def RREQ_UNKNOWN_def

record rreq_header =
  rreq_hop_count :: u8
  rreq_ttl :: "11 word"
  rreq_flags :: "5 word"
  rreq_type :: u8
  rreq_rreq_id :: u32
  rreq_dest_ip :: u32
  rreq_dest_seq :: u32
  rreq_src_ip :: u32
  rreq_src_seq :: u32

text \<open>\<open>message->flags & flag\<close>, not 0.\<close>

definition rreq_flag :: "rreq_header \<Rightarrow> u8 \<Rightarrow> bool" where
  "rreq_flag m flag \<longleftrightarrow> (ucast (rreq_flags m) :: u32) AND ucast flag \<noteq> 0"

definition generate_rreq_message ::
  "u8 \<Rightarrow> u32 \<Rightarrow> u32 \<Rightarrow> u32 \<Rightarrow> u32 \<Rightarrow> u32 \<Rightarrow> rreq_header" where
  "generate_rreq_message flags rreq_id dest_ip dest_seq origin_ip origin_seq =
     \<lparr>rreq_hop_count = 0, rreq_ttl = 0, rreq_flags = ucast flags, rreq_type = RREQ_TYPE,
      rreq_rreq_id = rreq_id, rreq_dest_ip = dest_ip, rreq_dest_seq = dest_seq,
      rreq_src_ip = origin_ip, rreq_src_seq = origin_seq\<rparr>"

definition increment_hop_rreq :: "rreq_header \<Rightarrow> rreq_header" where
  "increment_hop_rreq m = m\<lparr>rreq_hop_count := rreq_hop_count m + 1\<rparr>"

definition rreq_bits :: "u8 \<Rightarrow> 11 word \<Rightarrow> 5 word \<Rightarrow> u8 \<Rightarrow> u32" where
  "rreq_bits hop_count ttl flags ty =
     ucast hop_count OR push_bit 8 (ucast ttl) OR push_bit 19 (ucast flags) OR push_bit 24 (ucast ty)"

definition rreq_words :: "rreq_header \<Rightarrow> u32 list" where
  "rreq_words m =
     [rreq_bits (rreq_hop_count m) (rreq_ttl m) (rreq_flags m) (rreq_type m),
      rreq_rreq_id m, rreq_dest_ip m, rreq_dest_seq m, rreq_src_ip m, rreq_src_seq m]"

definition encode_rreq :: "rreq_header \<Rightarrow> u8 list" where
  "encode_rreq m = bytes_of_words (rreq_words m)"

definition sizeof_rreq :: nat where "sizeof_rreq = 24"

definition decode_rreq :: "u8 list \<Rightarrow> fault + rreq_header" where
  "decode_rreq bs =
     (if length bs < sizeof_rreq then Inl Out_of_bounds
      else Inr \<lparr>rreq_hop_count = ucast (word_at bs 0),
                rreq_ttl = ucast (drop_bit 8 (word_at bs 0)),
                rreq_flags = ucast (drop_bit 19 (word_at bs 0)),
                rreq_type = ucast (drop_bit 24 (word_at bs 0)),
                rreq_rreq_id = word_at bs 1, rreq_dest_ip = word_at bs 2,
                rreq_dest_seq = word_at bs 3, rreq_src_ip = word_at bs 4,
                rreq_src_seq = word_at bs 5\<rparr>)"

section \<open>Route replies\<close>

definition RREP_REPAIR :: u8 where "RREP_REPAIR = 2"
definition RREP_ACK :: u8 where "RREP_ACK = 1"

record rrep_header =
  rrep_hop_count :: u8
  rrep_prefix_size :: "5 word"
  rrep_reserved :: "9 word"
  rrep_flags :: "2 word"
  rrep_type :: u8
  rrep_dest_ip :: u32
  rrep_dest_seq :: u32
  rrep_src_ip :: u32
  rrep_lifetime :: u32

definition rrep_flag :: "rrep_header \<Rightarrow> u8 \<Rightarrow> bool" where
  "rrep_flag m flag \<longleftrightarrow> (ucast (rrep_flags m) :: u32) AND ucast flag \<noteq> 0"

text \<open>
  The prefix size passed in is not stored: that bit-field keeps what \<open>malloc\<close> left in it,
  the first argument here.
\<close>

definition generate_rrep_message ::
  "5 word \<Rightarrow> u8 \<Rightarrow> u8 \<Rightarrow> u32 \<Rightarrow> u32 \<Rightarrow> u32 \<Rightarrow> u32 \<Rightarrow> rrep_header" where
  "generate_rrep_message malloc_junk flags prefix_size dest_ip dest_seq origin_ip life_time =
     \<lparr>rrep_hop_count = 0, rrep_prefix_size = malloc_junk, rrep_reserved = 0,
      rrep_flags = ucast flags, rrep_type = RREP_TYPE, rrep_dest_ip = dest_ip,
      rrep_dest_seq = dest_seq, rrep_src_ip = origin_ip, rrep_lifetime = life_time\<rparr>"

definition increment_hop_rrep :: "rrep_header \<Rightarrow> rrep_header" where
  "increment_hop_rrep m = m\<lparr>rrep_hop_count := rrep_hop_count m + 1\<rparr>"

definition rrep_bits :: "u8 \<Rightarrow> 5 word \<Rightarrow> 9 word \<Rightarrow> 2 word \<Rightarrow> u8 \<Rightarrow> u32" where
  "rrep_bits hop_count prefix_size reserved flags ty =
     ucast hop_count OR push_bit 8 (ucast prefix_size) OR push_bit 13 (ucast reserved) OR
     push_bit 22 (ucast flags) OR push_bit 24 (ucast ty)"

definition rrep_words :: "rrep_header \<Rightarrow> u32 list" where
  "rrep_words m =
     [rrep_bits (rrep_hop_count m) (rrep_prefix_size m) (rrep_reserved m) (rrep_flags m) (rrep_type m),
      rrep_dest_ip m, rrep_dest_seq m, rrep_src_ip m, rrep_lifetime m]"

definition encode_rrep :: "rrep_header \<Rightarrow> u8 list" where
  "encode_rrep m = bytes_of_words (rrep_words m)"

definition sizeof_rrep :: nat where "sizeof_rrep = 20"

definition decode_rrep :: "u8 list \<Rightarrow> fault + rrep_header" where
  "decode_rrep bs =
     (if length bs < sizeof_rrep then Inl Out_of_bounds
      else Inr \<lparr>rrep_hop_count = ucast (word_at bs 0),
                rrep_prefix_size = ucast (drop_bit 8 (word_at bs 0)),
                rrep_reserved = ucast (drop_bit 13 (word_at bs 0)),
                rrep_flags = ucast (drop_bit 22 (word_at bs 0)),
                rrep_type = ucast (drop_bit 24 (word_at bs 0)),
                rrep_dest_ip = word_at bs 1, rrep_dest_seq = word_at bs 2,
                rrep_src_ip = word_at bs 3, rrep_lifetime = word_at bs 4\<rparr>)"

section \<open>Route errors\<close>

record rerr_header =
  rerr_dest_count :: u8
  rerr_reserved :: "15 word"
  rerr_n :: "1 word"
  rerr_type :: u8

definition rerr_bits :: "u8 \<Rightarrow> 15 word \<Rightarrow> 1 word \<Rightarrow> u8 \<Rightarrow> u32" where
  "rerr_bits dest_count reserved n ty =
     ucast dest_count OR push_bit 8 (ucast reserved) OR push_bit 23 (ucast n) OR push_bit 24 (ucast ty)"

definition rerr_words :: "rerr_header \<Rightarrow> u32 list" where
  "rerr_words m = [rerr_bits (rerr_dest_count m) (rerr_reserved m) (rerr_n m) (rerr_type m)]"

definition encode_rerr :: "rerr_header \<Rightarrow> u8 list" where
  "encode_rerr m = bytes_of_words (rerr_words m)"

definition sizeof_rerr :: nat where "sizeof_rerr = 4"

definition decode_rerr :: "u8 list \<Rightarrow> fault + rerr_header" where
  "decode_rerr bs =
     (if length bs < sizeof_rerr then Inl Out_of_bounds
      else Inr \<lparr>rerr_dest_count = ucast (word_at bs 0),
                rerr_reserved = ucast (drop_bit 8 (word_at bs 0)),
                rerr_n = ucast (drop_bit 23 (word_at bs 0)),
                rerr_type = ucast (drop_bit 24 (word_at bs 0))\<rparr>)"

text \<open>
  A message with the destinations behind the header, as \<open>(packet, packet_length)\<close>, or no
  message (\<open>NULL\<close>) for no destination. \<open>generate_rerr_message\<close> takes them as variable
  arguments; taking more arguments than were passed is undefined.
\<close>

definition generate_rerr_message ::
  "u8 \<Rightarrow> u8 \<Rightarrow> u32 list \<Rightarrow> fault + (u8 list \<times> u32) option" where
  "generate_rerr_message n number_dests dests =
     (if number_dests \<le> 0 then Inr None
      else
        let header = \<lparr>rerr_dest_count = number_dests, rerr_reserved = 0, rerr_n = ucast n,
                      rerr_type = RERR_TYPE\<rparr>
        in if length dests < 2 * unat number_dests then Inl Out_of_bounds
           else Inr (Some (encode_rerr header @ bytes_of_words (take (2 * unat number_dests) dests),
                           4 + 4 * ucast number_dests * 2)))"

definition generate_rerr_message_buff ::
  "u8 \<Rightarrow> u8 \<Rightarrow> u32 list \<Rightarrow> fault + (u8 list \<times> u32) option" where
  "generate_rerr_message_buff n number_dests dest_ip_seq_pairs =
     (if number_dests \<le> 0 then Inr None
      else
        let header = \<lparr>rerr_dest_count = number_dests, rerr_reserved = 0, rerr_n = ucast n,
                      rerr_type = RERR_TYPE\<rparr>
        in if length dest_ip_seq_pairs < 2 * unat number_dests then Inl Out_of_bounds
           else Inr (Some (encode_rerr header
                             @ bytes_of_words (take (2 * unat number_dests) dest_ip_seq_pairs),
                           4 + 4 * ucast number_dests * 2)))"

section \<open>The bytes of the headers\<close>

lemmas word_fields = rreq_words_def rrep_words_def rerr_words_def

lemma rreq_bits [simp]:
  "ucast (rreq_bits h t f y) = h"
  "ucast (drop_bit 8 (rreq_bits h t f y)) = t"
  "ucast (drop_bit 19 (rreq_bits h t f y)) = f"
  "ucast (drop_bit 24 (rreq_bits h t f y)) = y"
  unfolding rreq_bits_def by (rule bit_word_eqI; auto simp: bit_simps dest: bit_imp_le_length)+

lemma rreq_bits_back: "rreq_bits (ucast w) (ucast (drop_bit 8 w)) (ucast (drop_bit 19 w)) (ucast (drop_bit 24 w)) = w" (is "?l = w")
proof (rule bit_word_eqI)
  fix n assume n: "n < LENGTH(32)"
  consider "n < 8" | "8 \<le> n" "n < 19" | "19 \<le> n" "n < 24" | "24 \<le> n" by linarith
  then show "bit ?l n = bit w n" by cases (use n in \<open>auto simp: rreq_bits_def bit_simps\<close>)
qed

lemma rrep_bits [simp]:
  "ucast (rrep_bits h p r f y) = h"
  "ucast (drop_bit 8 (rrep_bits h p r f y)) = p"
  "ucast (drop_bit 13 (rrep_bits h p r f y)) = r"
  "ucast (drop_bit 22 (rrep_bits h p r f y)) = f"
  "ucast (drop_bit 24 (rrep_bits h p r f y)) = y"
  unfolding rrep_bits_def by (rule bit_word_eqI; auto simp: bit_simps dest: bit_imp_le_length)+

lemma rrep_bits_back: "rrep_bits (ucast w) (ucast (drop_bit 8 w)) (ucast (drop_bit 13 w)) (ucast (drop_bit 22 w)) (ucast (drop_bit 24 w)) = w" (is "?l = w")
proof (rule bit_word_eqI)
  fix n assume n: "n < LENGTH(32)"
  consider "n < 8" | "8 \<le> n" "n < 13" | "13 \<le> n" "n < 22" | "22 \<le> n" "n < 24" | "24 \<le> n" by linarith
  then show "bit ?l n = bit w n" by cases (use n in \<open>auto simp: rrep_bits_def bit_simps\<close>)
qed

lemma rerr_bits [simp]:
  "ucast (rerr_bits c r n y) = c"
  "ucast (drop_bit 8 (rerr_bits c r n y)) = r"
  "ucast (drop_bit 23 (rerr_bits c r n y)) = n"
  "ucast (drop_bit 24 (rerr_bits c r n y)) = y"
  unfolding rerr_bits_def by (rule bit_word_eqI; auto simp: bit_simps dest: bit_imp_le_length)+

lemma rerr_bits_back: "rerr_bits (ucast w) (ucast (drop_bit 8 w)) (ucast (drop_bit 23 w)) (ucast (drop_bit 24 w)) = w" (is "?l = w")
proof (rule bit_word_eqI)
  fix n assume n: "n < LENGTH(32)"
  consider "n < 8" | "8 \<le> n" "n < 23" | "n = 23" | "24 \<le> n" by linarith
  then show "bit ?l n = bit w n" by cases (use n in \<open>auto simp: rerr_bits_def bit_simps\<close>)
qed

text \<open>The bytes of a block, from its words.\<close>

lemma map_upt:
  "map f [0..<5] = [f 0, f 1, f 2, f 3, f 4]"
  "map f [0..<6] = [f 0, f 1, f 2, f 3, f 4, f (5 :: nat)]"
  by (simp_all add: upt_rec eval_nat_numeral)

lemma take_4_drop:
  assumes "k + 3 < length bs"
  shows "take 4 (drop k bs) = [bs ! k, bs ! (k + 1), bs ! (k + 2), bs ! (k + 3)]"
proof -
  have "drop k bs = bs ! k # bs ! Suc k # bs ! Suc (Suc k) # bs ! Suc (Suc (Suc k)) #
      drop (Suc (Suc (Suc (Suc k)))) bs"
    using assms by (simp add: Cons_nth_drop_Suc)
  then show ?thesis by (simp add: eval_nat_numeral)
qed

lemma bytes_of_words_at:
  "4 * n \<le> length bs \<Longrightarrow> bytes_of_words (map (word_at bs) [0..<n]) = take (4 * n) bs"
proof (induction n)
  case (Suc n)
  then have "take (4 * Suc n) bs = take (4 * n) bs @ take 4 (drop (4 * n) bs)"
    by (simp add: take_add[of "4 * n" 4, symmetric] add.commute)
  moreover have "take 4 (drop (4 * n) bs) = le32 (word_at bs n)"
    using Suc.prems by (simp add: le32_word_at take_4_drop)
  ultimately show ?case using Suc by simp
qed simp

interpretation rreq_fmt: wire_format encode_rreq decode_rreq sizeof_rreq
proof unfold_locales
  fix h :: rreq_header and rest
  show "length (encode_rreq h) = sizeof_rreq"
    by (simp add: encode_rreq_def rreq_words_def sizeof_rreq_def)
  show "decode_rreq (encode_rreq h @ rest) = Inr h"
    by (simp add: decode_rreq_def encode_rreq_def sizeof_rreq_def word_at_bytes rreq_words_def del: bytes_of_words_simps)
next
  fix bs and h :: rreq_header
  assume "decode_rreq bs = Inr h"
  then have len: "24 \<le> length bs" and h: "rreq_words h = map (word_at bs) [0..<6]"
    by (auto simp: decode_rreq_def sizeof_rreq_def rreq_words_def rreq_bits_back map_upt
        split: if_splits)
  show "encode_rreq h = take sizeof_rreq bs"
    using bytes_of_words_at[of 6 bs] len by (simp add: encode_rreq_def h sizeof_rreq_def)
qed (auto simp: decode_rreq_def)

interpretation rrep_fmt: wire_format encode_rrep decode_rrep sizeof_rrep
proof unfold_locales
  fix h :: rrep_header and rest
  show "length (encode_rrep h) = sizeof_rrep"
    by (simp add: encode_rrep_def rrep_words_def sizeof_rrep_def)
  show "decode_rrep (encode_rrep h @ rest) = Inr h"
    by (simp add: decode_rrep_def encode_rrep_def sizeof_rrep_def word_at_bytes rrep_words_def del: bytes_of_words_simps)
next
  fix bs and h :: rrep_header
  assume "decode_rrep bs = Inr h"
  then have len: "20 \<le> length bs" and h: "rrep_words h = map (word_at bs) [0..<5]"
    by (auto simp: decode_rrep_def sizeof_rrep_def rrep_words_def rrep_bits_back map_upt
        split: if_splits)
  show "encode_rrep h = take sizeof_rrep bs"
    using bytes_of_words_at[of 5 bs] len by (simp add: encode_rrep_def h sizeof_rrep_def)
qed (auto simp: decode_rrep_def)

interpretation rerr_fmt: wire_format encode_rerr decode_rerr sizeof_rerr
proof unfold_locales
  fix h :: rerr_header and rest
  show "length (encode_rerr h) = sizeof_rerr"
    by (simp add: encode_rerr_def rerr_words_def sizeof_rerr_def)
  show "decode_rerr (encode_rerr h @ rest) = Inr h"
    by (simp add: decode_rerr_def encode_rerr_def sizeof_rerr_def word_at_bytes rerr_words_def del: bytes_of_words_simps)
next
  fix bs and h :: rerr_header
  assume "decode_rerr bs = Inr h"
  then have len: "4 \<le> length bs" and h: "rerr_words h = map (word_at bs) [0..<1]"
    by (auto simp: decode_rerr_def sizeof_rerr_def rerr_words_def rerr_bits_back
        split: if_splits)
  show "encode_rerr h = take sizeof_rerr bs"
    using bytes_of_words_at[of 1 bs] len by (simp add: encode_rerr_def h sizeof_rerr_def)
qed (auto simp: decode_rerr_def)

end
