(* ===== verification/Node_State.thy ===== *)
theory Node_State
  imports Safe Data_Structure Linked_List Time_Funcs Messages
begin

text \<open>
  The state of a node: the global variables of \<open>AODV.c\<close>, the routing entries of
  \<open>routing_table.h\<close> by address, the threads that run beside the packet handlers, and what the
  node has done to the outside. The primitives the handlers are written with: reading and
  writing an entry through a pointer, its mutex and its lists, the clock, threads, sending.

  The packet API (\<open>manet_testbed.h\<close>) is not part of the repository. The node calls it for its
  effect only, so a call is an event of the trace \<open>events\<close>; its two verdicts are constants of
  their own. What the program does not determine is given by a \<open>world\<close>: the clock, and the
  contents of memory it reads without having written it.
\<close>

section \<open>Configuration (\<open>AODV.h\<close>)\<close>

definition ACTIVE_ROUTE_TIMEOUT :: u32 where "ACTIVE_ROUTE_TIMEOUT = 3000"
definition ALLOWED_HELLO_LOSS :: u32 where "ALLOWED_HELLO_LOSS = 2"
definition RREQ_RETRIES :: u32 where "RREQ_RETRIES = 2"
definition TIMEOUT_BUFFER :: u32 where "TIMEOUT_BUFFER = 2"
definition TTL_START :: u32 where "TTL_START = 1"
definition TTL_INCREMENT :: u32 where "TTL_INCREMENT = 2"
definition TTL_THRESHOLD :: u32 where "TTL_THRESHOLD = 7"
definition HELLO_INTERVAL :: u32 where "HELLO_INTERVAL = 1000"
definition NET_DIAMETER :: u32 where "NET_DIAMETER = 35"
definition NODE_TRAVERSAL_TIME :: u32 where "NODE_TRAVERSAL_TIME = 40"
definition NET_TRAVERSAL_TIME :: u32 where
  "NET_TRAVERSAL_TIME = 2 * NODE_TRAVERSAL_TIME * NET_DIAMETER"
definition DELETE_PERIOD :: u32 where "DELETE_PERIOD = 5 * ACTIVE_ROUTE_TIMEOUT"
definition MY_ROUTE_TIMEOUT :: u32 where "MY_ROUTE_TIMEOUT = 2 * ACTIVE_ROUTE_TIMEOUT"
definition PATH_DISCOVERY_TIME :: u32 where "PATH_DISCOVERY_TIME = 2 * NET_TRAVERSAL_TIME"
definition RING_TRAVERSAL_TIME :: "u32 \<Rightarrow> u32" where
  "RING_TRAVERSAL_TIME x = 2 * NODE_TRAVERSAL_TIME * (x + TIMEOUT_BUFFER)"

lemmas config_defs =
  ACTIVE_ROUTE_TIMEOUT_def ALLOWED_HELLO_LOSS_def RREQ_RETRIES_def TIMEOUT_BUFFER_def
  TTL_START_def TTL_INCREMENT_def TTL_THRESHOLD_def HELLO_INTERVAL_def NET_DIAMETER_def
  NODE_TRAVERSAL_TIME_def NET_TRAVERSAL_TIME_def DELETE_PERIOD_def MY_ROUTE_TIMEOUT_def
  PATH_DISCOVERY_TIME_def RING_TRAVERSAL_TIME_def

text \<open>
  \<open>seq_compare\<close> subtracts two \<open>int32_t\<close>: the result is undefined when it is out of range.
\<close>

definition seq_compare :: "u32 \<Rightarrow> u32 \<Rightarrow> ('s, int) prog" where
  "seq_compare x y =
     (let d = sint x - sint y in if in_int32 d then ret d else fail Signed_overflow)"

section \<open>Routing entries (\<open>routing_table.h\<close>)\<close>

type_synonym addr = nat
type_synonym ptr = "addr option"
type_synonym tid = nat

datatype route_status = ROUTE_VALID | ROUTE_INVALID

datatype seq_validity = SEQ_VALID | SEQ_INVALID

datatype rreq_status = SEARCH_FOUND | SEARCH_FAILED | SEARCH_NONE | SEARCH_SEARCHING

text \<open>A thread handle is 0 when there is no thread.\<close>

record routing_entry =
  entry_mutex :: bool
  dest_ip :: u32
  dest_seq :: u32
  seq_valid :: seq_validity
  next_hop :: u32
  hop_count :: u32
  status :: route_status
  time_out :: timespec
  precursor_list :: "linked_list option"
  next_hop_for :: "linked_list option"
  expiration_thread :: tid
  rreq_id :: u32
  rreq_id_thread :: tid
  rreq_search :: rreq_status
  rreq_message_sender :: tid
  active_route :: u32

section \<open>Threads\<close>

text \<open>
  A thread between two of its blocking points: a started expiration thread, or one asleep for
  some time; the thread that forgets a request id; the thread that sends requests, just
  started, or asleep in its first or second loop with its message and loop variable; the
  thread of the hello messages, just started, waiting for an active route, or asleep.
\<close>

datatype thread =
    Expiration addr
  | Expiration_sleep addr timespec
  | Rreq_id_sleep addr timespec
  | Rreq_sender addr
  | Rreq_ring_sleep addr rreq_header u32 timespec
  | Rreq_net_sleep addr rreq_header u32 timespec
  | Hello
  | Hello_wait rrep_header
  | Hello_sleep rrep_header timespec

section \<open>The outside\<close>

datatype verdict = PACKET_ACCEPT | PACKET_DROP | Verdict_0

text \<open>\<open>LOGGING\<close> is \<open>PACKET_ACCEPT\<close>; \<open>Verdict_0\<close> is the literal 0 some handlers return.\<close>

definition LOGGING :: verdict where "LOGGING = PACKET_ACCEPT"

datatype event =
    Sent_unicast u32 "u8 list"
  | Sent_broadcast "u8 list"
  | Added_route u32 u32
  | Deleted_route u32 u32

text \<open>
  \<open>clock n\<close> is the \<open>n\<close>-th reading of \<open>CLOCK_REALTIME\<close>; \<open>entry_junk a\<close> is what \<open>malloc\<close> leaves
  in the request id of an entry at \<open>a\<close>, \<open>prefix_junk\<close> in the prefix size of a reply (by the
  number of events before); \<open>heap_junk\<close> is what lies behind a message buffer; \<open>timing_text\<close>
  is the log line of a search, by its outcome.
\<close>

record world =
  clock :: "nat \<Rightarrow> timespec"
  entry_junk :: "addr \<Rightarrow> u32"
  prefix_junk :: "nat \<Rightarrow> 5 word"
  heap_junk :: "nat \<Rightarrow> u8"
  timing_text :: "rreq_status \<Rightarrow> u8 list"

section \<open>The node\<close>

text \<open>
  \<open>rreq_ids\<close> is the global \<open>rreq_id\<close>. \<open>pending\<close> are the entries that calls of
  \<open>send_rreq\<close> are waiting on.
\<close>

record node =
  ip_address :: u32
  broadcast_ip :: u32
  rreq_ids :: safe_32
  sequence_num :: safe_32
  routes :: "addr data_header"
  active_routes :: u32
  heap :: "addr \<rightharpoonup> routing_entry"
  next_addr :: addr
  threads :: "tid \<rightharpoonup> thread"
  next_tid :: tid
  pending :: "addr list"
  ticks :: nat
  events :: "event list"
  world :: world

section \<open>Primitives\<close>

definition deref :: "ptr \<Rightarrow> (node, routing_entry) prog" where
  "deref p s = (case p of None \<Rightarrow> Inl Null_deref
     | Some a \<Rightarrow> (case heap s a of None \<Rightarrow> Inl Use_after_free | Some e \<Rightarrow> Inr (e, s)))"

definition write_entry :: "ptr \<Rightarrow> (routing_entry \<Rightarrow> routing_entry) \<Rightarrow> (node, unit) prog" where
  "write_entry p f s = (case p of None \<Rightarrow> Inl Null_deref
     | Some a \<Rightarrow> (case heap s a of None \<Rightarrow> Inl Use_after_free
         | Some e \<Rightarrow> Inr ((), s\<lparr>heap := (heap s)(a \<mapsto> f e)\<rparr>)))"

definition mutex_lock :: "ptr \<Rightarrow> (node, unit) prog" where
  "mutex_lock p = bnd (deref p) (\<lambda>e.
     if entry_mutex e then fail Deadlock else write_entry p (\<lambda>e. e\<lparr>entry_mutex := True\<rparr>))"

definition mutex_unlock :: "ptr \<Rightarrow> (node, unit) prog" where
  "mutex_unlock p = bnd (deref p) (\<lambda>e.
     if entry_mutex e then write_entry p (\<lambda>e. e\<lparr>entry_mutex := False\<rparr>) else fail Unlock_not_held)"

text \<open>A list operation on one of the two lists of an entry.\<close>

definition at_precursors :: "ptr \<Rightarrow> (linked_list option, 'a) prog \<Rightarrow> (node, 'a) prog" where
  "at_precursors p m = bnd (deref p) (\<lambda>e.
     case m (precursor_list e) of Inl f \<Rightarrow> fail f
     | Inr (x, l) \<Rightarrow> sq (write_entry p (\<lambda>e. e\<lparr>precursor_list := l\<rparr>)) (ret x))"

definition at_next_hop_for :: "ptr \<Rightarrow> (linked_list option, 'a) prog \<Rightarrow> (node, 'a) prog" where
  "at_next_hop_for p m = bnd (deref p) (\<lambda>e.
     case m (next_hop_for e) of Inl f \<Rightarrow> fail f
     | Inr (x, l) \<Rightarrow> sq (write_entry p (\<lambda>e. e\<lparr>next_hop_for := l\<rparr>)) (ret x))"

definition clock_gettime :: "(node, timespec) prog" where
  "clock_gettime s = Inr (clock (world s) (ticks s), s\<lparr>ticks := Suc (ticks s)\<rparr>)"

text \<open>A new thread, its handle stored in an entry; cancelling a thread that is gone does nothing.\<close>

definition pthread_create ::
  "(tid \<Rightarrow> routing_entry \<Rightarrow> routing_entry) \<Rightarrow> ptr \<Rightarrow> (addr \<Rightarrow> thread) \<Rightarrow> (node, unit) prog" where
  "pthread_create store p th = bnd (deref p) (\<lambda>_.
     bnd (gets next_tid) (\<lambda>t.
     block [modify (\<lambda>s. s\<lparr>threads := (threads s)(t \<mapsto> th (the p)), next_tid := Suc t\<rparr>),
            write_entry p (store t)]))"

definition pthread_cancel :: "tid \<Rightarrow> (node, unit) prog" where
  "pthread_cancel t = modify (\<lambda>s. s\<lparr>threads := (threads s)(t := None)\<rparr>)"

definition set_thread :: "tid \<Rightarrow> thread option \<Rightarrow> (node, unit) prog" where
  "set_thread t th = modify (\<lambda>s. s\<lparr>threads := (threads s)(t := th)\<rparr>)"

definition emit :: "event \<Rightarrow> (node, unit) prog" where
  "emit ev = modify (\<lambda>s. s\<lparr>events := events s @ [ev]\<rparr>)"

definition AddUnicastRoutingEntry :: "u32 \<Rightarrow> u32 \<Rightarrow> (node, unit) prog" where
  "AddUnicastRoutingEntry dest hop = emit (Added_route dest hop)"

definition DeleteEntry :: "u32 \<Rightarrow> u32 \<Rightarrow> (node, unit) prog" where
  "DeleteEntry dest hop = emit (Deleted_route dest hop)"

text \<open>Sending the first \<open>n\<close> bytes at a buffer.\<close>

definition SendUnicast :: "u32 \<Rightarrow> u8 list \<Rightarrow> nat \<Rightarrow> (node, unit) prog" where
  "SendUnicast dest buf n = bnd (gets (heap_junk \<circ> world)) (\<lambda>junk.
     emit (Sent_unicast dest (read_block junk buf n)))"

definition SendBroadcast :: "u8 list \<Rightarrow> nat \<Rightarrow> (node, unit) prog" where
  "SendBroadcast buf n = bnd (gets (heap_junk \<circ> world)) (\<lambda>junk.
     emit (Sent_broadcast (read_block junk buf n)))"

text \<open>A reply in a fresh buffer, and the operations on the two global counters.\<close>

definition new_rrep :: "u8 \<Rightarrow> u8 \<Rightarrow> u32 \<Rightarrow> u32 \<Rightarrow> u32 \<Rightarrow> u32 \<Rightarrow> (node, rrep_header) prog" where
  "new_rrep flags prefix_size dest seq origin life_time =
     bnd (gets (\<lambda>s. prefix_junk (world s) (length (events s)))) (\<lambda>junk.
     ret (generate_rrep_message junk flags prefix_size dest seq origin life_time))"

definition on_sequence_num :: "(safe_32, 'a) prog \<Rightarrow> (node, 'a) prog" where
  "on_sequence_num = zoom sequence_num (\<lambda>v s. s\<lparr>sequence_num := v\<rparr>)"

definition on_rreq_ids :: "(safe_32, 'a) prog \<Rightarrow> (node, 'a) prog" where
  "on_rreq_ids = zoom rreq_ids (\<lambda>v s. s\<lparr>rreq_ids := v\<rparr>)"

end
