(* ===== verification/Routing_Table.thy ===== *)
theory Routing_Table
  imports Node_State
begin

text \<open>
  The routing table (\<open>DataStructures/routing_table.c\<close>), the timers of
  \<open>DataStructures/time_funcs.c\<close> that work on its entries, and the two threads that act when a
  timer runs out. The table the code passes around is always the global \<open>routes\<close>, except in
  \<open>move_routing_entry\<close>. A thread function is split where it sleeps: \<open>expiration_begin\<close> runs up
  to the sleep, \<open>expiration_wake\<close> after it.
\<close>

section \<open>The table\<close>

definition create_routing_table :: "addr data_header" where
  "create_routing_table = create_data_header"

definition get_routing_entry :: "addr data_header \<Rightarrow> u32 \<Rightarrow> ptr" where
  "get_routing_entry table ip = find_entry_in_data_structure table ip"

definition lookup_route :: "u32 \<Rightarrow> (node, ptr) prog" where
  "lookup_route ip = gets (\<lambda>s. get_routing_entry (routes s) ip)"

definition add_routing_entry :: "ptr \<Rightarrow> (node, u8) prog" where
  "add_routing_entry r_entry =
     (if r_entry = None then ret (- 1)
      else
        bnd (deref r_entry) (\<lambda>e.
        bnd (gets (\<lambda>s. add_entry_to_data_structure (routes s) r_entry (dest_ip e))) (\<lambda>(index, table).
        sq (modify (\<lambda>s. s\<lparr>routes := table\<rparr>)) (ret index))))"

definition remove_routing_entry :: "u32 \<Rightarrow> (node, ptr) prog" where
  "remove_routing_entry ip =
     bnd (gets (\<lambda>s. remove_entry_from_data_structure (routes s) ip)) (\<lambda>(r_entry, table).
     sq (modify (\<lambda>s. s\<lparr>routes := table\<rparr>)) (ret r_entry))"

definition mutex_destroy :: "ptr \<Rightarrow> (node, unit) prog" where
  "mutex_destroy p = bnd (deref p) (\<lambda>e. if entry_mutex e then fail Destroy_locked else ret ())"

definition free_ptr :: "ptr \<Rightarrow> (node, unit) prog" where
  "free_ptr p = bnd (deref p) (\<lambda>_. modify (\<lambda>s. s\<lparr>heap := (heap s)(the p := None)\<rparr>))"

definition free_entry :: "ptr \<Rightarrow> (node, unit) prog" where
  "free_entry r_entry =
     bnd (deref r_entry) (\<lambda>e. block
      [when_p (rreq_id_thread e \<noteq> 0) (pthread_cancel (rreq_id_thread e)),
       when_p (rreq_message_sender e \<noteq> 0) (pthread_cancel (rreq_message_sender e)),
       mutex_destroy r_entry,
       at_precursors r_entry free_linked_list,
       at_next_hop_for r_entry free_linked_list,
       free_ptr r_entry])"

text \<open>The memory \<open>malloc\<close> returns: every field is assigned before it is read, but the request id.\<close>

definition malloc_entry :: "routing_entry \<Rightarrow> (node, ptr) prog" where
  "malloc_entry e s =
     Inr (Some (next_addr s),
          s\<lparr>heap := (heap s)(next_addr s \<mapsto> e\<lparr>rreq_id := entry_junk (world s) (next_addr s)\<rparr>),
            next_addr := Suc (next_addr s)\<rparr>)"

text \<open>Returns the entry and whether it is \<open>new\<close>.\<close>

definition create_or_get_routing_entry ::
  "u32 \<Rightarrow> u32 \<Rightarrow> seq_validity \<Rightarrow> u32 \<Rightarrow> u32 \<Rightarrow> u32 \<Rightarrow> (node, ptr \<times> u8) prog" where
  "create_or_get_routing_entry ip seq valid_seq hop hops timeout =
     bnd (lookup_route ip) (\<lambda>new_entry.
     if new_entry \<noteq> None then ret (new_entry, 0)
     else
       bnd clock_gettime (\<lambda>now.
       bnd (malloc_entry
              \<lparr>entry_mutex = False, dest_ip = ip, dest_seq = seq, seq_valid = valid_seq,
               next_hop = hop, hop_count = hops, status = ROUTE_INVALID,
               time_out = add_time_ms now timeout,
               precursor_list = Some empty_list, next_hop_for = Some empty_list,
               expiration_thread = 0, rreq_id = 0, rreq_id_thread = 0,
               rreq_search = SEARCH_NONE, rreq_message_sender = 0, active_route = 0\<rparr>) (\<lambda>new_entry.
       bnd (add_routing_entry new_entry) (\<lambda>_.
       ret (new_entry, 1)))))"

text \<open>
  Moving an entry between two tables; the tables are returned. The result is 0 or 1, and -1
  would say that the entry could not be added.
\<close>

definition move_routing_entry ::
  "addr data_header \<Rightarrow> addr data_header \<Rightarrow> u32
     \<Rightarrow> (node, int \<times> addr data_header \<times> addr data_header) prog" where
  "move_routing_entry initial destination ip =
     (let (moving_entry, initial) = remove_entry_from_data_structure initial ip;
          (destination_entry, destination) = remove_entry_from_data_structure destination ip;
          (index, destination) = add_entry_to_data_structure destination moving_entry ip
      in if 0 \<le> uint index then
           (if destination_entry = None then ret (0, initial, destination)
            else
              bnd (deref destination_entry) (\<lambda>e.
              sq (pthread_cancel (expiration_thread e))
              (sq (free_entry destination_entry)
              (ret (1, initial, destination)))))
         else ret (-1, initial, destination))"

section \<open>Timers\<close>

definition set_expiration_timer :: "ptr \<Rightarrow> u32 \<Rightarrow> (node, unit) prog" where
  "set_expiration_timer entry ms =
     bnd (deref entry) (\<lambda>e. block
      [when_p (\<not> expiration_thread e = 0)
         (block [pthread_cancel (expiration_thread e),
                 write_entry entry (\<lambda>e. e\<lparr>expiration_thread := 0\<rparr>)]),
       when_p (ms \<noteq> 0)
         (bnd clock_gettime (\<lambda>now. write_entry entry (\<lambda>e. e\<lparr>time_out := add_time_ms now ms\<rparr>))),
       pthread_create (\<lambda>t e. e\<lparr>expiration_thread := t\<rparr>) entry Expiration])"

definition start_rreq_timer :: "ptr \<Rightarrow> (node, unit) prog" where
  "start_rreq_timer entry =
     bnd (deref entry) (\<lambda>e. block
      [when_p (\<not> rreq_id_thread e = 0) (pthread_cancel (rreq_id_thread e)),
       pthread_create (\<lambda>t e. e\<lparr>rreq_id_thread := t\<rparr>) entry
         (\<lambda>a. Rreq_id_sleep a (convert_ms_to_timespec PATH_DISCOVERY_TIME))])"

section \<open>The threads\<close>

definition expiration_begin :: "tid \<Rightarrow> addr \<Rightarrow> (node, unit) prog" where
  "expiration_begin t own_entry =
     bnd clock_gettime (\<lambda>current_time.
     bnd (deref (Some own_entry)) (\<lambda>e.
     set_thread t (Some (Expiration_sleep own_entry (subtract_time current_time (time_out e))))))"

definition expiration_wake :: "tid \<Rightarrow> addr \<Rightarrow> (node, unit) prog" where
  "expiration_wake t own_entry =
     sq (mutex_lock (Some own_entry))
     (bnd (deref (Some own_entry)) (\<lambda>e.
      if status e = ROUTE_INVALID then
        sq (mutex_unlock (Some own_entry))
        (bnd (remove_routing_entry (dest_ip e)) (\<lambda>removed.
         block [free_entry removed, set_thread t None]))
      else
        block
         [write_entry (Some own_entry) (\<lambda>e. e\<lparr>status := ROUTE_INVALID\<rparr>),
          DeleteEntry (dest_ip e) (next_hop e),
          bnd (gets active_routes) (\<lambda>n.
            when_p (0 < n \<and> seq_valid e = SEQ_VALID)
              (modify (\<lambda>s. s\<lparr>active_routes := active_routes s - active_route e\<rparr>))),
          bnd clock_gettime (\<lambda>now.
            write_entry (Some own_entry) (\<lambda>e. e\<lparr>time_out := add_time_ms now DELETE_PERIOD\<rparr>)),
          mutex_unlock (Some own_entry),
          set_thread t (Some (Expiration own_entry))]))"

definition rreq_id_wake :: "tid \<Rightarrow> addr \<Rightarrow> (node, unit) prog" where
  "rreq_id_wake t own_entry =
     block [mutex_lock (Some own_entry),
            write_entry (Some own_entry) (\<lambda>e. e\<lparr>rreq_id := 0\<rparr>),
            write_entry (Some own_entry) (\<lambda>e. e\<lparr>rreq_id_thread := 0\<rparr>),
            mutex_unlock (Some own_entry),
            set_thread t None]"

end
