(* ===== verification/Send_Messages.thy ===== *)
theory Send_Messages
  imports Routing_Table
begin

unbundle bit_operations_syntax

text \<open>
  Sending requests and replies (\<open>Messages/send_messages.c\<close>). \<open>send_rreq\<close> blocks its caller while
  a search runs, so it is two definitions, before the wait and after it; the search is the
  thread \<open>send_rreq_thread\<close>, split at its sleeps.
\<close>

section \<open>Replies\<close>

definition send_rrep_destination :: "rreq_header \<Rightarrow> u32 \<Rightarrow> (node, unit) prog" where
  "send_rrep_destination message sender_ip =
     bnd (on_sequence_num read_safe) (\<lambda>seq0.
     let seq = seq0 + 1 in
     bnd (if \<not> rreq_flag message RREQ_UNKNOWN
          then bnd (seq_compare (rreq_dest_seq message) seq) (\<lambda>d.
               ret (if d < 0 then seq else rreq_dest_seq message))
          else ret seq) (\<lambda>seq.
     sq (on_sequence_num (write_safe seq))
     (bnd (gets ip_address) (\<lambda>own_ip.
      bnd (new_rrep 0 0 own_ip seq (rreq_src_ip message) MY_ROUTE_TIMEOUT) (\<lambda>rrep_buf.
      SendUnicast sender_ip (encode_rrep rrep_buf) sizeof_rrep)))))"

text \<open>
  Both replies of an intermediate node are sent with the size of a request, so four bytes
  behind the buffer go out with them. The test for a gratuitous reply is
  \<open>message->flags && RREQ_GRAT\<close>: true for any flag.
\<close>

definition send_rrep_intermediate :: "rreq_header \<Rightarrow> u32 \<Rightarrow> (node, unit) prog" where
  "send_rrep_intermediate message sender =
     bnd (lookup_route (rreq_dest_ip message)) (\<lambda>dest_entry.
     sq (mutex_lock dest_entry)
     (bnd clock_gettime (\<lambda>now.
      bnd (deref dest_entry) (\<lambda>e.
      let current_time = subtract_time now (time_out e) in
      sq (at_precursors dest_entry (add_entry_to_list sender))
      (sq (mutex_unlock dest_entry)
      (bnd (deref dest_entry) (\<lambda>e.
       bnd (new_rrep 0 0 (rreq_dest_ip message) (dest_seq e) (rreq_src_ip message)
              (convert_timespec_to_ms current_time)) (\<lambda>rrep_buf.
       let rrep_buf = rrep_buf\<lparr>rrep_hop_count := ucast (hop_count e)\<rparr> in
       sq (SendUnicast sender (encode_rrep rrep_buf) sizeof_rreq)
       (bnd (lookup_route (rreq_src_ip message)) (\<lambda>origin_entry.
        block
         [mutex_lock origin_entry,
          bnd (deref dest_entry) (\<lambda>e. at_precursors origin_entry (add_entry_to_list (next_hop e))),
          mutex_unlock origin_entry,
          when_p (rreq_flags message \<noteq> 0 \<and> RREQ_GRAT \<noteq> 0)
            (bnd (new_rrep 0 0 (rreq_src_ip message) (rreq_src_seq message) (rreq_dest_ip message)
                    ACTIVE_ROUTE_TIMEOUT) (\<lambda>rrep_buf.
             let rrep_buf = rrep_buf\<lparr>rrep_hop_count := rreq_hop_count message\<rparr> in
             bnd (deref dest_entry) (\<lambda>e.
             SendUnicast (next_hop e) (encode_rrep rrep_buf) sizeof_rreq)))]))))))))))"

section \<open>Searching for a route\<close>

text \<open>What a call to \<open>send_rreq\<close> comes to: a verdict, or waiting on an entry.\<close>

datatype call = Returned verdict | Waiting ptr

definition send_rreq_begin :: "u32 \<Rightarrow> (node, call) prog" where
  "send_rreq_begin dest_addr =
     bnd (create_or_get_routing_entry dest_addr 0 SEQ_INVALID 0 0 MY_ROUTE_TIMEOUT)
      (\<lambda>(dest_entry, is_new).
     bnd (deref dest_entry) (\<lambda>e.
     if rreq_search e = SEARCH_FAILED \<and> status e = ROUTE_INVALID then ret (Returned PACKET_DROP)
     else
       sq (when_p (is_new = 0 \<and> rreq_search e \<noteq> SEARCH_SEARCHING)
             (block [when_p (\<not> expiration_thread e = 0) (pthread_cancel (expiration_thread e)),
                     write_entry dest_entry (\<lambda>e. e\<lparr>expiration_thread := 0\<rparr>)]))
       (sq (when_p (rreq_search e \<noteq> SEARCH_SEARCHING)
             (block [mutex_lock dest_entry,
                     pthread_create (\<lambda>t e. e\<lparr>rreq_message_sender := t\<rparr>) dest_entry Rreq_sender,
                     write_entry dest_entry (\<lambda>e. e\<lparr>rreq_search := SEARCH_SEARCHING\<rparr>),
                     mutex_unlock dest_entry]))
       (ret (Waiting dest_entry)))))"

text \<open>The loop \<open>while(dest_entry->rreq_search == SEARCH_SEARCHING)\<close> is left when this holds.\<close>

definition search_over :: "ptr \<Rightarrow> (node, bool) prog" where
  "search_over dest_entry = bnd (deref dest_entry) (\<lambda>e. ret (rreq_search e \<noteq> SEARCH_SEARCHING))"

definition send_rreq_end :: "ptr \<Rightarrow> (node, verdict) prog" where
  "send_rreq_end dest_entry =
     sq (mutex_lock dest_entry)
     (bnd (deref dest_entry) (\<lambda>e.
      let outcome = rreq_search e in
      sq (mutex_unlock dest_entry)
      (sq (when_p (LOGGING = PACKET_ACCEPT)
             (bnd (gets (\<lambda>s. (ip_address s, timing_text (world s) outcome))) (\<lambda>(own_ip, timing_buff).
              SendUnicast own_ip timing_buff 80)))
      (if outcome = SEARCH_FAILED then
         sq (block [mutex_lock dest_entry, set_expiration_timer dest_entry 500,
                    mutex_unlock dest_entry])
         (ret PACKET_DROP)
       else
         sq (write_entry dest_entry (\<lambda>e. e\<lparr>rreq_search := SEARCH_NONE\<rparr>)) (ret PACKET_ACCEPT)))))"

section \<open>The searching thread\<close>

definition rreq_fail :: "tid \<Rightarrow> addr \<Rightarrow> (node, unit) prog" where
  "rreq_fail t dest_entry =
     block [mutex_lock (Some dest_entry),
            write_entry (Some dest_entry) (\<lambda>e. e\<lparr>rreq_message_sender := 0\<rparr>),
            write_entry (Some dest_entry) (\<lambda>e. e\<lparr>rreq_search := SEARCH_FAILED\<rparr>),
            set_expiration_timer (Some dest_entry) (2 * NET_TRAVERSAL_TIME),
            mutex_unlock (Some dest_entry),
            set_thread t None]"

text \<open>One round of the second loop, then asleep, or the end.\<close>

definition rreq_net :: "tid \<Rightarrow> addr \<Rightarrow> rreq_header \<Rightarrow> u32 \<Rightarrow> (node, unit) prog" where
  "rreq_net t dest_entry rreq_message i =
     (if i \<le> RREQ_RETRIES then
        bnd (on_rreq_ids increment_safe) (\<lambda>request_id.
        let m = rreq_message\<lparr>rreq_rreq_id := request_id, rreq_ttl := ucast NET_DIAMETER\<rparr>;
            wait_time = convert_ms_to_timespec (NET_TRAVERSAL_TIME * push_bit (unat i) 1)
        in block [SendBroadcast (encode_rreq m) sizeof_rreq,
                  set_thread t (Some (Rreq_net_sleep dest_entry m i wait_time))])
      else rreq_fail t dest_entry)"

text \<open>One round of the first loop, the expanding ring, then asleep, or on to the second.\<close>

definition rreq_ring :: "tid \<Rightarrow> addr \<Rightarrow> rreq_header \<Rightarrow> u32 \<Rightarrow> (node, unit) prog" where
  "rreq_ring t dest_entry rreq_message ttl =
     (if ttl \<le> TTL_THRESHOLD then
        bnd (on_rreq_ids increment_safe) (\<lambda>request_id.
        let m = rreq_message\<lparr>rreq_rreq_id := request_id, rreq_ttl := ucast ttl\<rparr>;
            wait_time = convert_ms_to_timespec (RING_TRAVERSAL_TIME ttl)
        in block [SendBroadcast (encode_rreq m) sizeof_rreq,
                  set_thread t (Some (Rreq_ring_sleep dest_entry m ttl wait_time))])
      else rreq_net t dest_entry rreq_message 0)"

definition send_rreq_thread :: "tid \<Rightarrow> addr \<Rightarrow> (node, unit) prog" where
  "send_rreq_thread t dest_entry =
     bnd (on_sequence_num increment_safe) (\<lambda>seq.
     sq (mutex_lock (Some dest_entry))
     (bnd (deref (Some dest_entry)) (\<lambda>e.
      let hops = hop_count e;
          (flags, dseq) = (if seq_valid e = SEQ_INVALID then (RREQ_GRAT OR RREQ_UNKNOWN, 0)
                           else (RREQ_GRAT, dest_seq e))
      in
      bnd (gets ip_address) (\<lambda>own_ip.
      let rreq_message = generate_rreq_message flags seq (dest_ip e) dseq own_ip seq;
          ttl = (if hops < TTL_START then TTL_START else hops + TTL_INCREMENT)
      in
      sq (mutex_unlock (Some dest_entry))
      (rreq_ring t dest_entry rreq_message ttl)))))"

end
