(* ===== verification/Recv_Messages.thy ===== *)
theory Recv_Messages
  imports Send_Messages
begin

unbundle bit_operations_syntax

text \<open>
  The handlers of the three control messages (\<open>Messages/recv_messages.c\<close>). A handler is given
  the header the payload starts with; what it writes into it is kept in the header it passes on.
\<close>

section \<open>Route requests\<close>

text \<open>Lines 13 to 33: the route to the previous hop.\<close>

definition recv_rreq_previous_hop :: "u32 \<Rightarrow> rreq_header \<Rightarrow> (node, unit) prog" where
  "recv_rreq_previous_hop sender_ip m =
     bnd (create_or_get_routing_entry sender_ip 0 SEQ_INVALID sender_ip 0 ACTIVE_ROUTE_TIMEOUT)
      (\<lambda>(previous_hop, is_new). block
       [mutex_lock previous_hop,
        write_entry previous_hop (\<lambda>e. e\<lparr>status := ROUTE_VALID\<rparr>),
        bnd (at_next_hop_for previous_hop (is_in_list (rreq_src_ip m))) (\<lambda>b.
          when_p (b = 0) (at_next_hop_for previous_hop (add_entry_to_list (rreq_src_ip m)))),
        AddUnicastRoutingEntry sender_ip sender_ip,
        when_p (is_new = 0)
          (bnd clock_gettime (\<lambda>now.
           write_entry previous_hop (\<lambda>e. e\<lparr>time_out := add_time_ms now ACTIVE_ROUTE_TIMEOUT\<rparr>))),
        set_expiration_timer previous_hop 0,
        mutex_unlock previous_hop])"

text \<open>Lines 43 to 55: whether the request is a repetition that is ignored.\<close>

definition recv_rreq_repeated :: "rreq_header \<Rightarrow> (node, bool) prog" where
  "recv_rreq_repeated m =
     bnd (lookup_route (rreq_src_ip m)) (\<lambda>originator.
     if originator \<noteq> None then
       bnd (deref originator) (\<lambda>e.
       bnd (gets ip_address) (\<lambda>own_ip.
       ret (if rreq_id e = rreq_rreq_id m \<and> own_ip \<noteq> rreq_dest_ip m then True
            else rreq_id e = rreq_rreq_id m \<and> own_ip = rreq_dest_ip m
                 \<and> hop_count e \<le> ucast (rreq_hop_count m))))
     else ret False)"

text \<open>
  Lines 61 to 121: the reverse route to the originator. Its entry stays locked. In the guard
  the sequence numbers are compared as unsigned numbers.
\<close>

definition recv_rreq_reverse_route :: "u32 \<Rightarrow> rreq_header \<Rightarrow> (node, ptr) prog" where
  "recv_rreq_reverse_route sender_ip m =
     bnd (create_or_get_routing_entry (rreq_src_ip m) (rreq_src_seq m) SEQ_VALID sender_ip
            (ucast (rreq_hop_count m)) 0) (\<lambda>(originator, is_new).
     sq (mutex_lock originator)
     (sq (write_entry originator (\<lambda>e. e\<lparr>rreq_id := rreq_rreq_id m\<rparr>))
     (sq (start_rreq_timer originator)
     (sq (if is_new = 0 then
            bnd (deref originator) (\<lambda>e.
            when_p (dest_seq e < rreq_src_seq m \<or> seq_valid e = SEQ_INVALID \<or>
                    (rreq_src_seq m = dest_seq e \<and> ucast (rreq_hop_count m) < hop_count e))
              (write_entry originator (\<lambda>e. e\<lparr>dest_seq := rreq_src_seq m, seq_valid := SEQ_VALID,
                 next_hop := sender_ip, hop_count := ucast (rreq_hop_count m)\<rparr>)))
          else
            write_entry originator (\<lambda>e. e\<lparr>dest_seq := rreq_src_seq m, seq_valid := SEQ_VALID,
              next_hop := sender_ip, hop_count := ucast (rreq_hop_count m)\<rparr>))
     (sq (write_entry originator (\<lambda>e. e\<lparr>status := ROUTE_VALID\<rparr>))
     (bnd (deref originator) (\<lambda>e.
      sq (AddUnicastRoutingEntry (dest_ip e) sender_ip)
      (bnd clock_gettime (\<lambda>now.
       let minimal_lifetime = convert_ms_to_timespec
             (2 * NET_TRAVERSAL_TIME - 2 * ucast (rreq_hop_count m) * NODE_TRAVERSAL_TIME);
           current_time = subtract_time now (time_out e)
       in
       sq (set_expiration_timer originator
             (convert_timespec_to_ms (max_timespec minimal_lifetime current_time)))
       (ret originator))))))))))"

text \<open>
  \<open>(flags & RREQ_UNKNOWN) != 0 || seq_compare(m->dest_seq, destination->dest_seq) < 0\<close>
\<close>

definition own_route_fresher :: "rreq_header \<Rightarrow> routing_entry \<Rightarrow> (node, bool) prog" where
  "own_route_fresher m e =
     (if rreq_flag m RREQ_UNKNOWN then ret True
      else bnd (seq_compare (rreq_dest_seq m) (dest_seq e)) (\<lambda>d. ret (d < 0)))"

text \<open>Lines 158 to 170: the request is passed on.\<close>

definition recv_rreq_forward :: "ptr \<Rightarrow> rreq_header \<Rightarrow> (node, verdict) prog" where
  "recv_rreq_forward destination m =
     (if rreq_ttl m \<le> 1 then ret LOGGING
      else
        let m = m\<lparr>rreq_ttl := rreq_ttl m - 1\<rparr> in
        bnd (if destination \<noteq> None then
               bnd (deref destination) (\<lambda>e.
               if seq_valid e = SEQ_VALID then
                 bnd (own_route_fresher m e) (\<lambda>fresher.
                 ret (if fresher then m\<lparr>rreq_dest_seq := dest_seq e\<rparr> else m))
               else ret m)
             else ret m) (\<lambda>m.
        sq (SendBroadcast (encode_rreq m) sizeof_rreq) (ret LOGGING)))"

text \<open>\<open>if(entry->active_route == 0) { entry->active_route = 1; active_routes++; }\<close>\<close>

definition mark_active :: "ptr \<Rightarrow> (node, unit) prog" where
  "mark_active p = bnd (deref p) (\<lambda>e.
     when_p (active_route e = 0)
       (block [write_entry p (\<lambda>e. e\<lparr>active_route := 1\<rparr>),
               modify (\<lambda>s. s\<lparr>active_routes := active_routes s + 1\<rparr>)]))"

definition recv_rreq :: "u32 \<Rightarrow> rreq_header \<Rightarrow> (node, verdict) prog" where
  "recv_rreq sender_ip m =
     sq (recv_rreq_previous_hop sender_ip m)
     (bnd (gets ip_address) (\<lambda>own_ip.
      if rreq_src_ip m = own_ip then ret LOGGING
      else
        bnd (recv_rreq_repeated m) (\<lambda>repeated.
        if repeated then ret LOGGING
        else
          let m = increment_hop_rreq m in
          bnd (recv_rreq_reverse_route sender_ip m) (\<lambda>originator.
          if own_ip = rreq_dest_ip m then
            sq (mark_active originator)
            (sq (mutex_unlock originator)
            (sq (send_rrep_destination m sender_ip)
            (ret LOGGING)))
          else
            sq (mutex_unlock originator)
            (bnd (lookup_route (rreq_dest_ip m)) (\<lambda>destination.
             bnd (if \<not> rreq_flag m RREQ_DEST_ONLY \<and> destination \<noteq> None then
                    bnd (deref destination) (\<lambda>e.
                    if status e = ROUTE_VALID \<and> seq_valid e = SEQ_VALID
                    then own_route_fresher m e else ret False)
                  else ret False) (\<lambda>answer.
             if answer then sq (send_rrep_intermediate m sender_ip) (ret LOGGING)
             else recv_rreq_forward destination m)))))))"

section \<open>Route replies\<close>

text \<open>Lines 176 to 189: the originator of a request stops its search.\<close>

definition recv_rrep_stop_search :: "rrep_header \<Rightarrow> (node, unit) prog" where
  "recv_rrep_stop_search m =
     bnd (lookup_route (rrep_dest_ip m)) (\<lambda>destination.
     bnd (gets ip_address) (\<lambda>own_ip.
     when_p (own_ip = rrep_src_ip m \<and> destination \<noteq> None) (block
       [mutex_lock destination,
        write_entry destination (\<lambda>e. e\<lparr>rreq_search := SEARCH_FOUND\<rparr>),
        bnd (deref destination) (\<lambda>e.
          when_p (rreq_message_sender e \<noteq> 0) (block
            [pthread_cancel (rreq_message_sender e),
             write_entry destination (\<lambda>e. e\<lparr>rreq_message_sender := 0\<rparr>)])),
        write_entry destination (\<lambda>e. e\<lparr>rreq_message_sender := 0\<rparr>),
        mutex_unlock destination])))"

text \<open>Lines 195 to 217: a hello message.\<close>

definition recv_rrep_hello :: "u32 \<Rightarrow> rrep_header \<Rightarrow> (node, unit) prog" where
  "recv_rrep_hello sender_ip m0 =
     (let m = increment_hop_rrep m0 in
      bnd (create_or_get_routing_entry (rrep_dest_ip m) (rrep_dest_seq m) SEQ_VALID sender_ip
             (ucast (rrep_hop_count m)) (rrep_lifetime m)) (\<lambda>(destination, is_new).
      sq (mutex_lock destination)
      (bnd (deref destination) (\<lambda>e.
       bnd (if is_new = 1 \<or> seq_valid e = SEQ_INVALID then ret True
            else bnd (seq_compare (rrep_dest_seq m) (dest_seq e)) (\<lambda>d. ret (0 \<le> d))) (\<lambda>update.
       block
        [when_p update (block
           [write_entry destination (\<lambda>e. e\<lparr>seq_valid := SEQ_VALID\<rparr>),
            set_expiration_timer destination (rrep_lifetime m),
            write_entry destination (\<lambda>e. e\<lparr>dest_seq := rrep_dest_seq m\<rparr>)]),
         mutex_unlock destination])))))"

text \<open>Lines 219 to 238: the route to the previous hop.\<close>

definition recv_rrep_previous_hop :: "u32 \<Rightarrow> rrep_header \<Rightarrow> (node, unit) prog" where
  "recv_rrep_previous_hop sender_ip m =
     bnd (create_or_get_routing_entry sender_ip 0 SEQ_INVALID sender_ip 0 ACTIVE_ROUTE_TIMEOUT)
      (\<lambda>(previous_hop, is_new). block
       [mutex_lock previous_hop,
        write_entry previous_hop (\<lambda>e. e\<lparr>status := ROUTE_VALID\<rparr>),
        AddUnicastRoutingEntry sender_ip sender_ip,
        bnd (at_next_hop_for previous_hop (is_in_list (rrep_dest_ip m))) (\<lambda>b.
          when_p (b = 0) (at_next_hop_for previous_hop (add_entry_to_list (rrep_dest_ip m)))),
        when_p (is_new = 0)
          (bnd clock_gettime (\<lambda>now.
           write_entry previous_hop (\<lambda>e. e\<lparr>time_out := add_time_ms now ACTIVE_ROUTE_TIMEOUT\<rparr>))),
        set_expiration_timer previous_hop 0,
        mutex_unlock previous_hop])"

text \<open>Lines 262 to 266: whether the entry takes over the route of the reply.\<close>

definition rrep_updates :: "u8 \<Rightarrow> rrep_header \<Rightarrow> routing_entry \<Rightarrow> (node, bool) prog" where
  "rrep_updates is_new m e =
     (if is_new = 1 \<or> seq_valid e = SEQ_INVALID then ret True
      else bnd (seq_compare (rrep_dest_seq m) (dest_seq e)) (\<lambda>d.
        ret (0 \<le> d \<or> (rrep_dest_seq m = dest_seq e \<and> status e = ROUTE_INVALID) \<or>
             (rrep_dest_seq m = dest_seq e \<and> ucast (rrep_hop_count m) < hop_count e))))"

text \<open>Lines 244 to 304: the forward route. Its entry stays locked.\<close>

definition recv_rrep_forward_route :: "u32 \<Rightarrow> rrep_header \<Rightarrow> (node, ptr) prog" where
  "recv_rrep_forward_route sender_ip m =
     bnd (create_or_get_routing_entry (rrep_dest_ip m) (rrep_dest_seq m) SEQ_VALID sender_ip
            (ucast (rrep_hop_count m)) (rrep_lifetime m)) (\<lambda>(destination, is_new).
     sq (mutex_lock destination)
     (bnd (deref destination) (\<lambda>e.
      bnd (rrep_updates is_new m e) (\<lambda>update.
      sq (if update then block
            [write_entry destination (\<lambda>e. e\<lparr>status := ROUTE_VALID, seq_valid := SEQ_VALID,
               next_hop := sender_ip, hop_count := ucast (rrep_hop_count m)\<rparr>),
             set_expiration_timer destination (rrep_lifetime m),
             write_entry destination (\<lambda>e. e\<lparr>dest_seq := rrep_dest_seq m\<rparr>),
             AddUnicastRoutingEntry (rrep_dest_ip m) sender_ip]
          else set_expiration_timer destination (rrep_lifetime m))
      (sq (block
            [write_entry destination (\<lambda>e. e\<lparr>status := ROUTE_VALID\<rparr>),
             AddUnicastRoutingEntry (rrep_dest_ip m) sender_ip,
             mark_active destination])
      (ret destination))))))"

text \<open>Lines 308 to 325: precursors, and the reply passed on towards the originator.\<close>

definition recv_rrep_forward :: "ptr \<Rightarrow> rrep_header \<Rightarrow> (node, unit) prog" where
  "recv_rrep_forward destination m =
     bnd (gets ip_address) (\<lambda>own_ip.
     when_p (own_ip \<noteq> rrep_src_ip m)
       (bnd (lookup_route (rrep_src_ip m)) (\<lambda>originator.
        when_p (originator \<noteq> None) (block
          [mutex_lock originator,
           mark_active originator,
           bnd (deref destination) (\<lambda>e. at_precursors originator (add_entry_to_list (next_hop e))),
           bnd (deref originator) (\<lambda>e. at_precursors destination (add_entry_to_list (next_hop e))),
           bnd (deref originator) (\<lambda>e. SendUnicast (next_hop e) (encode_rrep m) sizeof_rrep),
           mutex_unlock originator]))))"

definition recv_rrep :: "u32 \<Rightarrow> rrep_header \<Rightarrow> (node, verdict) prog" where
  "recv_rrep sender_ip m =
     sq (recv_rrep_stop_search m)
     (if rrep_src_ip m = 0 then sq (recv_rrep_hello sender_ip m) (ret LOGGING)
      else
        sq (recv_rrep_previous_hop sender_ip m)
        (let m = increment_hop_rrep m in
         bnd (recv_rrep_forward_route sender_ip m) (\<lambda>destination.
         sq (recv_rrep_forward destination m)
         (sq (mutex_unlock destination)
         (ret LOGGING)))))"

section \<open>Route errors\<close>

text \<open>The variables the loop over the unreachable destinations changes.\<close>

record rerr_loop =
  single_rerr :: u32
  broadcast_rerr :: u8
  num_dests :: u8
  dest_ip_seq_pairs :: "u32 list"

text \<open>
  The body of the loop: reading the \<open>i\<close>-th pair, and invalidating the entry of a destination
  that is routed through the sender. Writing a pair past the end of the array is a fault.
\<close>

definition put_word :: "u32 list \<Rightarrow> nat \<Rightarrow> u32 \<Rightarrow> fault + u32 list" where
  "put_word xs i x = (if i < length xs then Inr (xs[i := x]) else Inl Out_of_bounds)"

text \<open>\<open>list->first == list->last && single_rerr == 0\<close>, then the datum of the first node.\<close>

definition single_precursor :: "u32 \<Rightarrow> (linked_list option, u32 option) prog" where
  "single_precursor single = on_list (fail Null_deref)
     (bnd (gets (\<lambda>l. (first l, lst l))) (\<lambda>(f, l).
      if f = l \<and> single = 0 then bnd (node_at f) (\<lambda>n. ret (Some (data n))) else ret None))"

definition has_precursors :: "(linked_list option, bool) prog" where
  "has_precursors = on_list (fail Null_deref) (gets (\<lambda>l. first l \<noteq> None))"

definition note_precursors :: "ptr \<Rightarrow> u32 \<Rightarrow> u8 \<Rightarrow> (node, u32 \<times> u8) prog" where
  "note_precursors p single broadcast =
     bnd (at_precursors p (single_precursor single)) (\<lambda>r.
     ret (case r of Some d \<Rightarrow> (d, broadcast) | None \<Rightarrow> (single, 1)))"

definition recv_rerr_pair :: "u32 \<Rightarrow> u8 list \<Rightarrow> u8 \<Rightarrow> rerr_loop \<Rightarrow> (node, rerr_loop) prog" where
  "recv_rerr_pair sender_ip dest_pairs i v =
     bnd (lift_sum (read_word dest_pairs (unat i * 2))) (\<lambda>ip.
     bnd (lookup_route ip) (\<lambda>invalid_dest.
     if invalid_dest = None then ret v
     else
       bnd (deref invalid_dest) (\<lambda>e.
       if \<not> (next_hop e = sender_ip \<and> status e = ROUTE_VALID) then ret v
       else
         sq (mutex_lock invalid_dest)
         (bnd (at_precursors invalid_dest has_precursors) (\<lambda>b.
          bnd (if b then
                 bnd (note_precursors invalid_dest (single_rerr v) (broadcast_rerr v)) (\<lambda>(single, broadcast).
                 bnd (lift_sum (put_word (dest_ip_seq_pairs v) (unat (num_dests v)) (dest_ip e))) (\<lambda>pairs.
                 bnd (lift_sum (read_word dest_pairs (unat i * 2 + 1))) (\<lambda>seq.
                 bnd (lift_sum (put_word pairs (unat (num_dests v) + 1) seq)) (\<lambda>pairs.
                 ret \<lparr>single_rerr = single, broadcast_rerr = broadcast,
                      num_dests = num_dests v + 2, dest_ip_seq_pairs = pairs\<rparr>))))
               else ret v) (\<lambda>v.
          bnd (lift_sum (read_word dest_pairs (unat i * 2 + 1))) (\<lambda>seq.
          sq (block
               [write_entry invalid_dest (\<lambda>e. e\<lparr>dest_seq := seq\<rparr>),
                DeleteEntry (dest_ip e) (next_hop e),
                write_entry invalid_dest (\<lambda>e. e\<lparr>status := ROUTE_INVALID\<rparr>),
                set_expiration_timer invalid_dest DELETE_PERIOD,
                bnd (gets active_routes) (\<lambda>n.
                  when_p (0 < n)
                    (modify (\<lambda>s. s\<lparr>active_routes := active_routes s - active_route e\<rparr>))),
                mutex_unlock invalid_dest])
          (ret v))))))))"

text \<open>The loop; its counter is a \<open>uint8_t\<close> below the count, so it ends.\<close>

primrec recv_rerr_loop :: "nat \<Rightarrow> u32 \<Rightarrow> u8 list \<Rightarrow> u8 \<Rightarrow> u8 \<Rightarrow> rerr_loop \<Rightarrow> (node, rerr_loop) prog" where
  "recv_rerr_loop 0 sender_ip dest_pairs dest_count i v = fail Nonterminating"
| "recv_rerr_loop (Suc n) sender_ip dest_pairs dest_count i v =
     (if i < dest_count then
        bnd (recv_rerr_pair sender_ip dest_pairs i v) (\<lambda>v.
        recv_rerr_loop n sender_ip dest_pairs dest_count (i + 1) v)
      else ret v)"

text \<open>Lines 336 to 407. The array \<open>malloc\<close> returns (here zeros) is written before it is read.\<close>

definition recv_rerr :: "u32 \<Rightarrow> u8 list \<Rightarrow> (node, verdict) prog" where
  "recv_rerr sender_ip rerr_message =
     bnd (lift_sum (decode_rerr rerr_message)) (\<lambda>header.
     let dest_pairs = drop sizeof_rerr rerr_message in
     bnd (recv_rerr_loop 257 sender_ip dest_pairs (rerr_dest_count header) 0
            \<lparr>single_rerr = 0, broadcast_rerr = 0, num_dests = 0,
             dest_ip_seq_pairs = replicate (2 * unat (rerr_dest_count header)) 0\<rparr>) (\<lambda>v.
     if num_dests v = 0 then ret LOGGING
     else
       bnd (lift_sum (generate_rerr_message_buff 0 (num_dests v div 2) (dest_ip_seq_pairs v))) (\<lambda>r.
       case r of None \<Rightarrow> fail Null_deref
       | Some (rerr_buff, _) \<Rightarrow>
           sq (if single_rerr v \<noteq> 0 \<and> broadcast_rerr v = 0
               then SendUnicast (single_rerr v) rerr_buff (4 + 4 * unat (num_dests v))
               else SendBroadcast rerr_buff (4 + 4 * unat (num_dests v)))
           (ret LOGGING))))"

end
