(* ===== verification/AODV.thy ===== *)
theory AODV
  imports Recv_Messages
begin

text \<open>
  \<open>AODV.c\<close>: the callbacks the packet API calls for a packet, the hello thread and \<open>main\<close>. The
  arguments a callback does not use (\<open>raw_pack\<close>, the lengths, the payload of data) are left out.
\<close>

section \<open>Packets for this node\<close>

definition incoming_data_message :: "u32 \<Rightarrow> u32 \<Rightarrow> (node, verdict) prog" where
  "incoming_data_message src dest =
     bnd (lookup_route src) (\<lambda>originator.
     bnd (gets ip_address) (\<lambda>own_ip.
     sq (when_p (dest = own_ip)
           (when_p (originator \<noteq> None) (block
             [mutex_lock originator,
              set_expiration_timer originator ACTIVE_ROUTE_TIMEOUT,
              mutex_unlock originator])))
     (ret PACKET_ACCEPT)))"

text \<open>
  The payload is cast to the header of its type: reading one that is too short for the header
  is out of bounds (the length is not looked at).
\<close>

definition incoming_control_message :: "u32 \<Rightarrow> u8 list \<Rightarrow> (node, verdict) prog" where
  "incoming_control_message src payload =
     (if length payload \<le> 3 then fail Out_of_bounds
      else
        let ty = payload ! 3 in
        bnd (gets ip_address) (\<lambda>own_ip.
        if src = own_ip then ret LOGGING
        else if ty = RREQ_TYPE then bnd (lift_sum (decode_rreq payload)) (recv_rreq src)
        else if ty = RREP_TYPE then bnd (lift_sum (decode_rrep payload)) (recv_rrep src)
        else if ty = RERR_TYPE then recv_rerr src payload
        else ret Verdict_0))"

section \<open>Packets this node sends\<close>

text \<open>
  The condition of the first \<open>if\<close>: a valid route with a valid sequence number whose next hop is
  the destination or has a valid route itself.
\<close>

definition usable_route :: "ptr \<Rightarrow> (node, bool) prog" where
  "usable_route destination =
     (if destination = None then ret False
      else
        bnd (deref destination) (\<lambda>e.
        if \<not> (status e = ROUTE_VALID \<and> seq_valid e = SEQ_VALID) then ret False
        else if next_hop e = dest_ip e then ret True
        else
          bnd (lookup_route (next_hop e)) (\<lambda>hop.
          if hop = None then ret False
          else bnd (deref hop) (\<lambda>h. ret (status h = ROUTE_VALID)))))"

text \<open>Lines 148 to 163: the route is given up.\<close>

definition outgoing_give_up :: "ptr \<Rightarrow> (node, unit) prog" where
  "outgoing_give_up destination =
     (if destination = None then ret ()
      else
        bnd (deref destination) (\<lambda>e.
        when_p (status e = ROUTE_VALID \<and> seq_valid e = SEQ_VALID) (block
          [mutex_lock destination,
           write_entry destination (\<lambda>e. e\<lparr>status := ROUTE_INVALID\<rparr>),
           DeleteEntry (dest_ip e) (next_hop e),
           bnd (gets active_routes) (\<lambda>n.
             when_p (0 < n \<and> seq_valid e = SEQ_VALID)
               (modify (\<lambda>s. s\<lparr>active_routes := active_routes s - active_route e\<rparr>))),
           set_expiration_timer destination DELETE_PERIOD,
           mutex_unlock destination])))"

definition outgoing_message :: "u32 \<Rightarrow> (node, call) prog" where
  "outgoing_message dest =
     bnd (gets (\<lambda>s. (broadcast_ip s, ip_address s))) (\<lambda>(bcast, own_ip).
     if dest = bcast \<or> dest = own_ip then ret (Returned PACKET_ACCEPT)
     else
       bnd (lookup_route dest) (\<lambda>destination.
       bnd (usable_route destination) (\<lambda>usable.
       if usable then
         bnd (deref destination) (\<lambda>e.
         sq (when_p (next_hop e = dest_ip e) (block
              [mutex_lock destination,
               set_expiration_timer destination ACTIVE_ROUTE_TIMEOUT,
               mutex_unlock destination]))
         (ret (Returned PACKET_ACCEPT)))
       else sq (outgoing_give_up destination) (send_rreq_begin dest))))"

section \<open>Packets this node forwards\<close>

text \<open>The error message for a node without a route: the end of \<open>forwarded_messages\<close>.\<close>

definition forward_no_route :: "u32 \<Rightarrow> ptr \<Rightarrow> (node, verdict) prog" where
  "forward_no_route dest destination =
     bnd (if destination = None then lift_sum (generate_rerr_message 0 1 [dest, 0])
          else
            bnd (deref destination) (\<lambda>e.
            bnd (lift_sum (generate_rerr_message 0 1 [dest, dest_ip e])) (\<lambda>r.
            sq (mutex_unlock destination) (ret r)))) (\<lambda>r.
     case r of None \<Rightarrow> fail Null_deref
     | Some (rerr_buff, _) \<Rightarrow> sq (SendBroadcast rerr_buff 12) (ret PACKET_DROP))"

text \<open>The variables of the loop over the destinations behind a broken next hop.\<close>

record forward_loop =
  f_single_rerr :: u32
  f_broadcast_rerr :: u8
  f_num_dests :: u32
  f_dest_ip_seq_list :: "u32 list"

definition forward_unreachable :: "u32 \<Rightarrow> forward_loop \<Rightarrow> (node, forward_loop) prog" where
  "forward_unreachable ip v =
     bnd (lookup_route ip) (\<lambda>unreachable_dest.
     if unreachable_dest = None then ret v
     else
       sq (mutex_lock unreachable_dest)
       (bnd (deref unreachable_dest) (\<lambda>e.
        bnd (at_precursors unreachable_dest has_precursors) (\<lambda>b.
        bnd (if b then
               bnd (note_precursors unreachable_dest (f_single_rerr v) (f_broadcast_rerr v))
                 (\<lambda>(single, broadcast).
               let n = f_num_dests v + 1 in
               bnd (lift_sum (put_word (f_dest_ip_seq_list v) (unat (n * 2)) (dest_ip e))) (\<lambda>pairs.
               bnd (lift_sum (put_word pairs (unat (n * 2 + 1)) (dest_seq e + 1))) (\<lambda>pairs.
               sq (bnd (gets active_routes) (\<lambda>k.
                   when_p (0 < k)
                     (modify (\<lambda>s. s\<lparr>active_routes := active_routes s - active_route e\<rparr>))))
               (ret \<lparr>f_single_rerr = single, f_broadcast_rerr = broadcast, f_num_dests = n,
                     f_dest_ip_seq_list = pairs\<rparr>))))
             else ret v) (\<lambda>v.
        sq (block
             [write_entry unreachable_dest (\<lambda>e. e\<lparr>dest_seq := dest_seq e + 1\<rparr>),
              DeleteEntry (dest_ip e) (next_hop e),
              write_entry unreachable_dest (\<lambda>e. e\<lparr>status := ROUTE_INVALID\<rparr>),
              set_expiration_timer unreachable_dest DELETE_PERIOD,
              mutex_unlock unreachable_dest])
        (ret v))))))"

primrec forward_unreachables :: "u32 list \<Rightarrow> forward_loop \<Rightarrow> (node, forward_loop) prog" where
  "forward_unreachables [] v = ret v"
| "forward_unreachables (ip # ips) v =
     bnd (forward_unreachable ip v) (\<lambda>v. forward_unreachables ips v)"

text \<open>The branch for a valid destination whose next hop is not valid.\<close>

definition forward_rerr :: "ptr \<Rightarrow> ptr \<Rightarrow> (node, verdict) prog" where
  "forward_rerr destination dest_hop =
     sq (mutex_lock dest_hop)
     (bnd (at_next_hop_for dest_hop get_all_entries) (\<lambda>all_entries.
      let destination_list = (case all_entries of None \<Rightarrow> [] | Some xs \<Rightarrow> xs) in
      bnd (deref dest_hop) (\<lambda>h.
      bnd (lift_sum (put_word (replicate (2 * (length destination_list + 1)) 0) 0 (dest_ip h))) (\<lambda>pairs.
      bnd (lift_sum (put_word pairs 1 (dest_seq h))) (\<lambda>pairs.
      sq (set_expiration_timer dest_hop DELETE_PERIOD)
      (sq (mutex_unlock dest_hop)
      (bnd (forward_unreachables destination_list
              \<lparr>f_single_rerr = 0, f_broadcast_rerr = 0, f_num_dests = 1,
               f_dest_ip_seq_list = pairs\<rparr>) (\<lambda>v.
       bnd (lift_sum (generate_rerr_message_buff 0 (ucast (f_num_dests v)) (f_dest_ip_seq_list v))) (\<lambda>r.
       case r of None \<Rightarrow> fail Null_deref
       | Some (rerr_buff, _) \<Rightarrow>
           sq (if f_single_rerr v \<noteq> 0 \<and> f_broadcast_rerr v = 0
               then SendUnicast (f_single_rerr v) rerr_buff (4 + 8 * unat (f_num_dests v))
               else SendBroadcast rerr_buff (4 + 8 * unat (f_num_dests v)))
           (sq (mutex_unlock destination)
           (ret PACKET_DROP)))))))))))"

text \<open>The branch for a valid destination with a valid next hop: the timers are set again.\<close>

definition forward_accept :: "ptr \<Rightarrow> ptr \<Rightarrow> (node, verdict) prog" where
  "forward_accept destination src_entry =
     sq (set_expiration_timer destination ACTIVE_ROUTE_TIMEOUT)
     (sq (when_p (src_entry \<noteq> None) (block
           [mutex_lock src_entry,
            set_expiration_timer src_entry ACTIVE_ROUTE_TIMEOUT,
            mutex_unlock src_entry]))
     (sq (mutex_unlock destination)
     (ret PACKET_ACCEPT)))"

text \<open>The choice among the branches, for a destination (read as \<open>e\<close>) and its next hop.\<close>

definition forward_through :: "u32 \<Rightarrow> ptr \<Rightarrow> ptr \<Rightarrow> ptr \<Rightarrow> routing_entry \<Rightarrow> (node, verdict) prog" where
  "forward_through dest destination src_entry dest_hop e =
     bnd (deref dest_hop) (\<lambda>h.
     sq (when_p (dest_ip h \<noteq> dest_ip e) (mutex_lock dest_hop))
     (bnd (deref dest_hop) (\<lambda>h.
      if status e = ROUTE_VALID \<and> status h = ROUTE_VALID then
        sq (when_p (dest_ip h \<noteq> dest_ip e) (mutex_unlock dest_hop))
        (forward_accept destination src_entry)
      else if status e = ROUTE_VALID then forward_rerr destination dest_hop
      else forward_no_route dest destination)))"

definition forwarded_messages :: "u32 \<Rightarrow> u32 \<Rightarrow> (node, verdict) prog" where
  "forwarded_messages src dest =
     bnd (lookup_route dest) (\<lambda>destination.
     bnd (lookup_route src) (\<lambda>src_entry.
     if destination = None then forward_no_route dest destination
     else
       sq (mutex_lock destination)
       (bnd (deref destination) (\<lambda>e.
        bnd (lookup_route (next_hop e)) (\<lambda>dest_hop.
        if dest_hop = None then forward_no_route dest destination
        else forward_through dest destination src_entry dest_hop e)))))"

section \<open>Hello messages\<close>

definition hello_begin :: "tid \<Rightarrow> (node, unit) prog" where
  "hello_begin t =
     bnd (on_sequence_num read_safe) (\<lambda>seq.
     bnd (gets ip_address) (\<lambda>own_ip.
     bnd (new_rrep 0 0 own_ip seq 0 (ALLOWED_HELLO_LOSS * HELLO_INTERVAL)) (\<lambda>rrep_message.
     set_thread t (Some (Hello_wait rrep_message)))))"

text \<open>\<open>while(active_routes == 0);\<close>, then asleep.\<close>

definition hello_poll :: "tid \<Rightarrow> rrep_header \<Rightarrow> (node, unit) prog" where
  "hello_poll t rrep_message =
     bnd (gets active_routes) (\<lambda>n.
     when_p (n \<noteq> 0)
       (set_thread t (Some (Hello_sleep rrep_message (convert_ms_to_timespec HELLO_INTERVAL)))))"

definition hello_wake :: "tid \<Rightarrow> rrep_header \<Rightarrow> (node, unit) prog" where
  "hello_wake t rrep_message =
     bnd (on_sequence_num read_safe) (\<lambda>seq.
     let rrep_message = rrep_message\<lparr>rrep_dest_seq := seq\<rparr> in
     block [SendBroadcast (encode_rrep rrep_message) sizeof_rrep,
            set_thread t (Some (Hello_wait rrep_message))])"

section \<open>Starting\<close>

text \<open>
  The state \<open>main\<close> sets up before it spins: the two addresses are what the API reports for the
  interface, the first thread is the hello thread.
\<close>

definition main_init :: "u32 \<Rightarrow> u32 \<Rightarrow> world \<Rightarrow> node" where
  "main_init own_ip bcast w =
     \<lparr>ip_address = own_ip, broadcast_ip = bcast,
      rreq_ids = \<lparr>number = 0, mutex = False\<rparr>, sequence_num = \<lparr>number = 0, mutex = False\<rparr>,
      routes = create_routing_table, active_routes = 0, heap = Map.empty, next_addr = 0,
      threads = [1 \<mapsto> Hello], next_tid = 2, pending = [], ticks = 0, events = [], world = w\<rparr>"

section \<open>What can happen next\<close>

text \<open>
  A node acts on a packet, lets a waiting call go on, or lets a thread run to its next blocking
  point. A sleeping thread goes on when \<open>nanosleep\<close> returns 0; if it never does, it stays.
\<close>

datatype action =
    Data_in u32 u32
  | Control_in u32 "u8 list"
  | Data_out u32
  | Forward u32 u32
  | Resume addr
  | Run tid

definition asleep :: "timespec \<Rightarrow> (node, unit) prog \<Rightarrow> (node, unit) prog" where
  "asleep d m = when_p (nanosleep_ok d) m"

definition run_thread :: "tid \<Rightarrow> (node, unit) prog" where
  "run_thread t = bnd (gets (\<lambda>s. threads s t)) (\<lambda>th.
     case th of None \<Rightarrow> ret ()
     | Some (Expiration a) \<Rightarrow> expiration_begin t a
     | Some (Expiration_sleep a d) \<Rightarrow> asleep d (expiration_wake t a)
     | Some (Rreq_id_sleep a d) \<Rightarrow> asleep d (rreq_id_wake t a)
     | Some (Rreq_sender a) \<Rightarrow> send_rreq_thread t a
     | Some (Rreq_ring_sleep a m ttl d) \<Rightarrow> asleep d (rreq_ring t a m (ttl + TTL_INCREMENT))
     | Some (Rreq_net_sleep a m i d) \<Rightarrow> asleep d (rreq_net t a m (i + 1))
     | Some Hello \<Rightarrow> hello_begin t
     | Some (Hello_wait m) \<Rightarrow> hello_poll t m
     | Some (Hello_sleep m d) \<Rightarrow> asleep d (hello_wake t m))"

definition resume_call :: "addr \<Rightarrow> (node, unit) prog" where
  "resume_call a = bnd (gets pending) (\<lambda>as.
     when_p (a \<in> set as)
       (bnd (search_over (Some a)) (\<lambda>over.
        when_p over
          (bnd (send_rreq_end (Some a)) (\<lambda>_.
           modify (\<lambda>s. s\<lparr>pending := remove1 a (pending s)\<rparr>))))))"

definition start_call :: "u32 \<Rightarrow> (node, unit) prog" where
  "start_call dest = bnd (outgoing_message dest) (\<lambda>c.
     case c of Returned _ \<Rightarrow> ret ()
     | Waiting p \<Rightarrow> modify (\<lambda>s. s\<lparr>pending := the p # pending s\<rparr>))"

primrec exec :: "action \<Rightarrow> (node, unit) prog" where
  "exec (Data_in src dest) = sq (incoming_data_message src dest) (ret ())"
| "exec (Control_in src payload) = sq (incoming_control_message src payload) (ret ())"
| "exec (Data_out dest) = start_call dest"
| "exec (Forward src dest) = sq (forwarded_messages src dest) (ret ())"
| "exec (Resume a) = resume_call a"
| "exec (Run t) = run_thread t"

end
