(* ===== verification/Node_Inv.thy ===== *)
theory Node_Inv
  imports AODV
begin

text \<open>
  The invariant of a node and the rules for the primitives. \<open>node_inv\<close> ties the table, the
  entries and the threads together; \<open>ok H L\<close> adds which entries are locked (\<open>H\<close>) and which
  addresses are known to be entries of a slot (\<open>L\<close>), so that one triple for a handler says that
  it keeps the invariant, releases what it locks, and what it can fail with.
\<close>

section \<open>The invariant\<close>

definition list_ok :: "linked_list option \<Rightarrow> bool" where
  "list_ok lo \<longleftrightarrow> (\<exists>l xs. lo = Some l \<and> models l xs)"

definition entry_ok :: "routing_entry \<Rightarrow> bool" where
  "entry_ok e \<longleftrightarrow> list_ok (precursor_list e) \<and> list_ok (next_hop_for e) \<and> active_route e \<le> 1"

definition handles_below :: "tid \<Rightarrow> routing_entry \<Rightarrow> bool" where
  "handles_below n e \<longleftrightarrow>
     expiration_thread e < n \<and> rreq_id_thread e < n \<and> rreq_message_sender e < n"

text \<open>The entry a thread works on, and that the entry knows the thread.\<close>

definition thread_ok :: "(addr \<rightharpoonup> routing_entry) \<Rightarrow> tid \<Rightarrow> thread \<Rightarrow> bool" where
  "thread_ok h t th \<longleftrightarrow> (case th of
       Expiration a \<Rightarrow> \<exists>e. h a = Some e \<and> expiration_thread e = t
     | Expiration_sleep a d \<Rightarrow> \<exists>e. h a = Some e \<and> expiration_thread e = t
     | Rreq_id_sleep a d \<Rightarrow> \<exists>e. h a = Some e \<and> rreq_id_thread e = t
     | Rreq_sender a \<Rightarrow> \<exists>e. h a = Some e \<and> rreq_message_sender e = t \<and> rreq_search e = SEARCH_SEARCHING
     | Rreq_ring_sleep a m ttl d \<Rightarrow> \<exists>e. h a = Some e \<and> rreq_message_sender e = t \<and> rreq_search e = SEARCH_SEARCHING
     | Rreq_net_sleep a m i d \<Rightarrow> \<exists>e. h a = Some e \<and> rreq_message_sender e = t \<and> rreq_search e = SEARCH_SEARCHING
     | _ \<Rightarrow> True)"

text \<open>
  Every slot of the table holds an entry of that slot, every entry is in its slot, its lists
  are well-formed, every thread works on an entry that knows it, and the counters are free.
\<close>

definition table_inv :: "node \<Rightarrow> bool" where
  "table_inv s \<longleftrightarrow>
     (\<forall>i a. routes s i = Some a \<longrightarrow> (\<exists>e. heap s a = Some e \<and> slot_of (dest_ip e) = i)) \<and>
     (\<forall>a e. heap s a = Some e \<longrightarrow> routes s (slot_of (dest_ip e)) = Some a \<and> entry_ok e \<and>
        handles_below (next_tid s) e \<and> a < next_addr s)"

definition threads_inv :: "node \<Rightarrow> bool" where
  "threads_inv s \<longleftrightarrow> 0 < next_tid s \<and>
     (\<forall>t th. threads s t = Some th \<longrightarrow> 0 < t \<and> t < next_tid s \<and> thread_ok (heap s) t th)"

definition node_inv :: "node \<Rightarrow> bool" where
  "node_inv s \<longleftrightarrow> table_inv s \<and> threads_inv s \<and> \<not> mutex (sequence_num s) \<and> \<not> mutex (rreq_ids s)"

definition held :: "node \<Rightarrow> addr set" where
  "held s = {a. \<exists>e. heap s a = Some e \<and> entry_mutex e}"

definition known :: "(addr \<times> u8) set \<Rightarrow> node \<Rightarrow> bool" where
  "known L s \<longleftrightarrow> (\<forall>(a, i) \<in> L. \<exists>e. heap s a = Some e \<and> slot_of (dest_ip e) = i)"

definition ok :: "addr set \<Rightarrow> (addr \<times> u8) set \<Rightarrow> node \<Rightarrow> bool" where
  "ok H L s \<longleftrightarrow> node_inv s \<and> held s = H \<and> known L s"

lemma known_simps [simp]:
  "known {} s"
  "known (insert (a, i) L) s \<longleftrightarrow> (\<exists>e. heap s a = Some e \<and> slot_of (dest_ip e) = i) \<and> known L s"
  by (auto simp: known_def)

lemma known_mono: "known L s \<Longrightarrow> L' \<subseteq> L \<Longrightarrow> known L' s"
  by (auto simp: known_def)

lemma ok_mono: "ok H L s \<Longrightarrow> L' \<subseteq> L \<Longrightarrow> ok H L' s"
  by (auto simp: ok_def intro: known_mono)

lemma ok_empty: "ok H L s \<Longrightarrow> ok H {} s"
  by (rule ok_mono) auto

lemma ok_entry: "ok H L s \<Longrightarrow> a \<in> fst ` L \<Longrightarrow> \<exists>e. heap s a = Some e"
  by (auto simp: ok_def known_def)

lemma ok_entry_ok: "ok H L s \<Longrightarrow> heap s a = Some e \<Longrightarrow> entry_ok e"
  by (auto simp: ok_def node_inv_def table_inv_def)

lemma same_slot:
  "node_inv s \<Longrightarrow> heap s a = Some e \<Longrightarrow> heap s b = Some f \<Longrightarrow>
     slot_of (dest_ip e) = slot_of (dest_ip f) \<Longrightarrow> a = b"
  by (auto simp: node_inv_def table_inv_def) (metis option.inject)

section \<open>Triples over \<open>ok\<close>\<close>

named_theorems okt \<open>triples of primitives over ok\<close>

lemma triple_ret_same: "triple F P (ret x) (\<lambda>_. P)"
  by (rule triple_ret)

lemma triple_ret_ok: "L' \<subseteq> L \<Longrightarrow> triple F (ok H L) (ret x) (\<lambda>_. ok H L')"
  by (rule triple_ret) (rule ok_mono)

lemma triple_when_same: "(b \<Longrightarrow> triple F P m (\<lambda>_. P)) \<Longrightarrow> triple F P (when_p b m) (\<lambda>_. P)"
  by (rule triple_when)

lemma triple_if_same:
  "(b \<Longrightarrow> triple F P m (\<lambda>_. P)) \<Longrightarrow> (\<not> b \<Longrightarrow> triple F P n (\<lambda>_. P)) \<Longrightarrow>
     triple F P (if b then m else n) (\<lambda>_. P)"
  by simp

lemma triple_total:
  assumes "\<And>s. P s \<Longrightarrow> \<exists>x s'. m s = Inr (x, s') \<and> Q x s'"
  shows "triple F P m Q"
  using assms by (force simp: triple_def)

text \<open>Reading and changing parts of the state that the invariant does not mention.\<close>

lemma triple_gets_ok [okt]: "triple F (ok H L) (gets g) (\<lambda>_. ok H L)"
  by (rule triple_gets)

definition same_core :: "(node \<Rightarrow> node) \<Rightarrow> bool" where
  "same_core f \<longleftrightarrow> (\<forall>s. routes (f s) = routes s \<and> heap (f s) = heap s \<and> threads (f s) = threads s \<and>
     next_tid (f s) = next_tid s \<and> next_addr (f s) = next_addr s \<and>
     sequence_num (f s) = sequence_num s \<and> rreq_ids (f s) = rreq_ids s)"

lemma ok_same_core: "same_core f \<Longrightarrow> ok H L (f s) = ok H L s"
  by (simp add: same_core_def ok_def node_inv_def table_inv_def threads_inv_def held_def known_def)

lemma triple_modify_ok: "same_core f \<Longrightarrow> triple F (ok H L) (modify f) (\<lambda>_. ok H L)"
  by (rule triple_modify) (simp add: ok_same_core)

lemma triple_active_routes [okt]:
  "triple F (ok H L) (modify (\<lambda>s. s\<lparr>active_routes := g s\<rparr>)) (\<lambda>_. ok H L)"
  by (rule triple_modify_ok) (simp add: same_core_def)

lemma triple_pending [okt]:
  "triple F (ok H L) (modify (\<lambda>s. s\<lparr>pending := g s\<rparr>)) (\<lambda>_. ok H L)"
  by (rule triple_modify_ok) (simp add: same_core_def)

lemma triple_emit [okt]: "triple F (ok H L) (emit ev) (\<lambda>_. ok H L)"
  unfolding emit_def by (rule triple_modify_ok) (simp add: same_core_def)

lemma triple_clock [okt]: "triple F (ok H L) clock_gettime (\<lambda>_. ok H L)"
  using ok_same_core[of "\<lambda>s. s\<lparr>ticks := Suc (ticks s)\<rparr>" H L]
  by (simp add: triple_def clock_gettime_def same_core_def)

lemma triple_api [okt]:
  "triple F (ok H L) (AddUnicastRoutingEntry d h) (\<lambda>_. ok H L)"
  "triple F (ok H L) (DeleteEntry d h) (\<lambda>_. ok H L)"
  "triple F (ok H L) (SendUnicast ip buf n) (\<lambda>_. ok H L)"
  "triple F (ok H L) (SendBroadcast buf n) (\<lambda>_. ok H L)"
  "triple F (ok H L) (new_rrep flags prefix dest seq origin life) (\<lambda>_. ok H L)"
  unfolding AddUnicastRoutingEntry_def DeleteEntry_def SendUnicast_def SendBroadcast_def new_rrep_def
  by (rule triple_bnd okt triple_ret_same)+

lemma triple_seq_compare: "Signed_overflow \<in> F \<Longrightarrow> triple F P (seq_compare x y) (\<lambda>_. P)"
  by (auto simp: seq_compare_def Let_def intro: triple_ret_same triple_fail)

lemma triple_counters [okt]:
  "triple F (ok H L) (on_sequence_num read_safe) (\<lambda>_. ok H L)"
  "triple F (ok H L) (on_sequence_num increment_safe) (\<lambda>_. ok H L)"
  "triple F (ok H L) (on_sequence_num (write_safe n)) (\<lambda>_. ok H L)"
  "triple F (ok H L) (on_rreq_ids increment_safe) (\<lambda>_. ok H L)"
  by (auto simp: triple_def on_sequence_num_def on_rreq_ids_def zoom_def prog_simps ok_def
      node_inv_def table_inv_def threads_inv_def held_def known_def)

section \<open>Entries\<close>

lemma triple_deref [okt]: "a \<in> fst ` L \<Longrightarrow> triple F (ok H L) (deref (Some a)) (\<lambda>_. ok H L)"
  by (auto simp: triple_def deref_def dest: ok_entry split: option.splits)

lemma triple_deref_entry:
  "a \<in> fst ` L \<Longrightarrow> triple F (ok H L) (deref (Some a)) (\<lambda>e s. ok H L s \<and> heap s a = Some e)"
  by (auto simp: triple_def deref_def dest: ok_entry split: option.splits)

text \<open>Writes that change nothing the invariant is about.\<close>

definition benign :: "(routing_entry \<Rightarrow> routing_entry) \<Rightarrow> bool" where
  "benign f \<longleftrightarrow> (\<forall>e. dest_ip (f e) = dest_ip e \<and> entry_mutex (f e) = entry_mutex e \<and>
     expiration_thread (f e) = expiration_thread e \<and> rreq_id_thread (f e) = rreq_id_thread e \<and>
     rreq_message_sender (f e) = rreq_message_sender e \<and> rreq_search (f e) = rreq_search e \<and>
     (entry_ok e \<longrightarrow> entry_ok (f e)))"

text \<open>Replacing an entry by one that the table and the threads cannot tell from it.\<close>

definition alike :: "routing_entry \<Rightarrow> routing_entry \<Rightarrow> bool" where
  "alike e e' \<longleftrightarrow> dest_ip e' = dest_ip e \<and> expiration_thread e' = expiration_thread e \<and>
     rreq_id_thread e' = rreq_id_thread e \<and> rreq_message_sender e' = rreq_message_sender e \<and>
     rreq_search e' = rreq_search e \<and> entry_ok e'"

lemma thread_ok_alike:
  "h a = Some e \<Longrightarrow> alike e e' \<Longrightarrow> thread_ok (h(a \<mapsto> e')) t th = thread_ok h t th"
  by (auto simp: thread_ok_def alike_def split: thread.splits)

lemma node_inv_alike:
  assumes "node_inv s" and "heap s a = Some e" and "alike e e'"
  shows "node_inv (s\<lparr>heap := (heap s)(a \<mapsto> e')\<rparr>)"
  using assms thread_ok_alike[of "heap s", OF assms(2,3)]
  by (auto simp: node_inv_def table_inv_def threads_inv_def alike_def handles_below_def) force

lemma ok_alike:
  assumes "ok H L s" and "heap s a = Some e" and "alike e e'"
  shows "ok (if entry_mutex e' then insert a H else H - {a}) L (s\<lparr>heap := (heap s)(a \<mapsto> e')\<rparr>)"
proof -
  have "known L (s\<lparr>heap := (heap s)(a \<mapsto> e')\<rparr>)"
    using assms by (force simp: ok_def known_def alike_def)
  then show ?thesis
    using assms node_inv_alike[OF _ assms(2,3)] by (auto simp: ok_def held_def)
qed

lemma ok_write_same_mutex:
  assumes "ok H L s" and "heap s a = Some e" and "alike e e'" and "entry_mutex e' = entry_mutex e"
  shows "ok H L (s\<lparr>heap := (heap s)(a \<mapsto> e')\<rparr>)"
proof -
  have "(if entry_mutex e' then insert a H else H - {a}) = H"
    using assms by (auto simp: ok_def held_def)
  with ok_alike[OF assms(1-3)] show ?thesis by simp
qed

lemma triple_write [okt]:
  assumes "a \<in> fst ` L" and "benign f"
  shows "triple F (ok H L) (write_entry (Some a) f) (\<lambda>_. ok H L)"
proof -
  have "ok H L (s\<lparr>heap := (heap s)(a \<mapsto> f e)\<rparr>)" if "ok H L s" "heap s a = Some e" for s e
    using that assms(2) ok_entry_ok[OF that]
    by (intro ok_write_same_mutex) (auto simp: benign_def alike_def)
  then show ?thesis
    using assms by (auto simp: triple_def write_entry_def dest: ok_entry split: option.splits)
qed

lemma triple_lock:
  assumes "a \<in> fst ` L" and "\<And>s. ok H L s \<Longrightarrow> a \<in> H \<Longrightarrow> Deadlock \<in> F"
    and "a \<notin> H \<Longrightarrow> triple F (ok (insert a H) L) n Q"
  shows "triple F (ok H L) (sq (mutex_lock (Some a)) n) Q"
proof (rule tripleI)
  fix s
  assume s: "ok H L s"
  then obtain e where e: "heap s a = Some e" using ok_entry assms(1) by blast
  have held: "entry_mutex e \<longleftrightarrow> a \<in> H" using s e by (auto simp: ok_def held_def)
  let ?s = "s\<lparr>heap := (heap s)(a \<mapsto> e\<lparr>entry_mutex := True\<rparr>)\<rparr>"
  have new: "ok (insert a H) L ?s"
    using ok_alike[OF s e, of "e\<lparr>entry_mutex := True\<rparr>"] ok_entry_ok[OF s e]
    by (simp add: alike_def entry_ok_def)
  have run: "sq (mutex_lock (Some a)) n s = (if a \<in> H then Inl Deadlock else n ?s)"
    using e held by (auto simp: sq_def bnd_def mutex_lock_def deref_def write_entry_def fail_def)
  {
    fix f
    assume "sq (mutex_lock (Some a)) n s = Inl f"
    with run new assms(2)[OF s] show "f \<in> F"
      using triple_fault[OF assms(3), of ?s f] by (cases "a \<in> H") auto
  next
    fix x s'
    assume "sq (mutex_lock (Some a)) n s = Inr (x, s')"
    with run new show "Q x s'"
      using triple_result[OF assms(3), of ?s x s'] by (cases "a \<in> H") auto
  }
qed

lemma triple_unlock:
  assumes "a \<in> fst ` L" and "a \<in> H"
  shows "triple F (ok H L) (mutex_unlock (Some a)) (\<lambda>_. ok (H - {a}) L)"
proof (rule tripleI)
  fix s
  assume s: "ok H L s"
  then obtain e where e: "heap s a = Some e" using ok_entry assms(1) by blast
  have "entry_mutex e" using s e assms(2) by (auto simp: ok_def held_def)
  then have run: "mutex_unlock (Some a) s = Inr ((), s\<lparr>heap := (heap s)(a \<mapsto> e\<lparr>entry_mutex := False\<rparr>)\<rparr>)"
    using e by (auto simp: bnd_def mutex_unlock_def deref_def write_entry_def)
  have "ok (H - {a}) L (s\<lparr>heap := (heap s)(a \<mapsto> e\<lparr>entry_mutex := False\<rparr>)\<rparr>)"
    using ok_alike[OF s e, of "e\<lparr>entry_mutex := False\<rparr>"] ok_entry_ok[OF s e]
    by (simp add: alike_def entry_ok_def)
  with run show "\<And>f. mutex_unlock (Some a) s = Inl f \<Longrightarrow> f \<in> F"
    and "\<And>x s'. mutex_unlock (Some a) s = Inr (x, s') \<Longrightarrow> ok (H - {a}) L s'" by auto
qed

text \<open>List operations that keep a list well-formed.\<close>

definition list_prog :: "fault set \<Rightarrow> (linked_list option, 'a) prog \<Rightarrow> bool" where
  "list_prog F m \<longleftrightarrow> triple F list_ok m (\<lambda>_. list_ok)"

lemma list_prog_add: "list_prog F (add_entry_to_list d)"
proof -
  have "\<exists>l'. add_entry_to_list d lo = Inr ((), l') \<and> list_ok l'" if "list_ok lo" for lo
    using that ll.holds_add[of _ _ d] unfolding list_ok_def by blast
  then show ?thesis by (force simp: list_prog_def triple_def)
qed

lemma list_prog_is_in: "list_prog F (is_in_list d)"
  by (auto simp: list_prog_def triple_def list_ok_def ll.holds_is_in)

lemma list_prog_has: "list_prog F has_precursors"
  by (auto simp: list_prog_def triple_def list_ok_def has_precursors_def on_list_def gets_def)

lemma single_precursor_eq:
  assumes "models l (x # xs)"
  shows "single_precursor single (Some l) =
    Inr (if xs = [] \<and> single = 0 then Some x else None, Some l)"
proof -
  obtain n where "node_at (first l) l = Inr (n, l)" "data n = x" using models_head[OF assms] by blast
  moreover have "first l = lst l \<longleftrightarrow> xs = []" using models_single[OF assms] by simp
  ultimately show ?thesis
    by (auto simp: single_precursor_def on_list_def bnd_def gets_def ret_def)
qed

lemma list_prog_single: "list_prog {Null_deref} (single_precursor single)"
proof -
  have "case single_precursor single (Some l) of Inl f \<Rightarrow> f \<in> {Null_deref} | Inr (x, lo) \<Rightarrow> list_ok lo"
    if "models l xs" for l xs
  proof (cases xs)
    case Nil
    with that have "first l = None" by (simp add: models_first)
    with that show ?thesis
      by (auto simp: single_precursor_def on_list_def bnd_def gets_def ret_def node_at_def list_ok_def)
  next
    case (Cons y ys)
    with that show ?thesis by (auto simp: single_precursor_eq list_ok_def)
  qed
  then show ?thesis by (auto simp: list_prog_def triple_def list_ok_def)
qed

lemma triple_at_precursors [okt]:
  assumes a: "a \<in> fst ` L" and m: "list_prog F m"
  shows "triple F (ok H L) (at_precursors (Some a) m) (\<lambda>_. ok H L)"
proof (rule tripleI)
  fix s
  assume s: "ok H L s"
  then obtain e where e: "heap s a = Some e" using ok_entry a by blast
  then have l: "list_ok (precursor_list e)" using ok_entry_ok[OF s] by (simp add: entry_ok_def)
  show "f \<in> F" if "at_precursors (Some a) m s = Inl f" for f
    using that e triple_fault[OF m[unfolded list_prog_def] l]
    by (auto simp: at_precursors_def bnd_def deref_def sq_def write_entry_def ret_def fail_def
        split: sum.splits)
  show "ok H L s'" if r: "at_precursors (Some a) m s = Inr (x, s')" for x s'
  proof -
    obtain lo where lo: "m (precursor_list e) = Inr (x, lo)"
      and s': "s' = s\<lparr>heap := (heap s)(a \<mapsto> e\<lparr>precursor_list := lo\<rparr>)\<rparr>"
      using r e by (auto simp: at_precursors_def bnd_def deref_def sq_def write_entry_def ret_def
          fail_def split: sum.splits)
    have "list_ok lo" using triple_result[OF m[unfolded list_prog_def] l lo] .
    then show ?thesis
      unfolding s' using ok_entry_ok[OF s e]
      by (intro ok_write_same_mutex[OF s e]) (simp_all add: alike_def entry_ok_def)
  qed
qed

lemma triple_at_next_hop_for [okt]:
  assumes a: "a \<in> fst ` L" and m: "list_prog F m"
  shows "triple F (ok H L) (at_next_hop_for (Some a) m) (\<lambda>_. ok H L)"
proof (rule tripleI)
  fix s
  assume s: "ok H L s"
  then obtain e where e: "heap s a = Some e" using ok_entry a by blast
  then have l: "list_ok (next_hop_for e)" using ok_entry_ok[OF s] by (simp add: entry_ok_def)
  show "f \<in> F" if "at_next_hop_for (Some a) m s = Inl f" for f
    using that e triple_fault[OF m[unfolded list_prog_def] l]
    by (auto simp: at_next_hop_for_def bnd_def deref_def sq_def write_entry_def ret_def fail_def
        split: sum.splits)
  show "ok H L s'" if r: "at_next_hop_for (Some a) m s = Inr (x, s')" for x s'
  proof -
    obtain lo where lo: "m (next_hop_for e) = Inr (x, lo)"
      and s': "s' = s\<lparr>heap := (heap s)(a \<mapsto> e\<lparr>next_hop_for := lo\<rparr>)\<rparr>"
      using r e by (auto simp: at_next_hop_for_def bnd_def deref_def sq_def write_entry_def ret_def
          fail_def split: sum.splits)
    have "list_ok lo" using triple_result[OF m[unfolded list_prog_def] l lo] .
    then show ?thesis
      unfolding s' using ok_entry_ok[OF s e]
      by (intro ok_write_same_mutex[OF s e]) (simp_all add: alike_def entry_ok_def)
  qed
qed

section \<open>The table\<close>

lemma triple_lookup_keep:
  assumes "triple F (\<lambda>s. ok H L s \<and> P s) (k None) Q"
    and "\<And>a. triple F (\<lambda>s. ok H (insert (a, slot_of ip) L) s \<and> P s) (k (Some a)) Q"
  shows "triple F (\<lambda>s. ok H L s \<and> P s) (bnd (lookup_route ip) k) Q"
  unfolding triple_def
proof (intro allI impI, elim conjE)
  fix s
  assume s: "ok H L s" "P s"
  let ?p = "routes s (slot_of ip)"
  have run: "bnd (lookup_route ip) k s = k ?p s"
    by (simp add: bnd_def lookup_route_def get_routing_entry_def find_entry_slot gets_def)
  have some: "ok H (insert (a, slot_of ip) L) s" if "?p = Some a" for a
    using s(1) that by (auto simp: ok_def node_inv_def table_inv_def)
  show "case bnd (lookup_route ip) k s of Inl f \<Rightarrow> f \<in> F | Inr (x, s') \<Rightarrow> Q x s'"
  proof (cases ?p)
    case None
    then show ?thesis using assms(1) s unfolding triple_def run by simp
  next
    case (Some a)
    then show ?thesis using assms(2)[of a] some s(2) unfolding triple_def run by simp
  qed
qed

lemma triple_lookup:
  assumes "triple F (ok H L) (k None) Q"
    and "\<And>a. triple F (ok H (insert (a, slot_of ip) L)) (k (Some a)) Q"
  shows "triple F (ok H L) (bnd (lookup_route ip) k) Q"
  using triple_lookup_keep[of F H L "\<lambda>_. True" k Q ip] assms by simp

text \<open>A slot whose entry is known.\<close>

lemma triple_lookup_known:
  assumes "(a, slot_of ip) \<in> L" and "triple F (ok H L) (k (Some a)) Q"
  shows "triple F (ok H L) (bnd (lookup_route ip) k) Q"
proof -
  have "bnd (lookup_route ip) k s = k (Some a) s" if "ok H L s" for s
    using that assms(1)
    by (fastforce simp: bnd_def lookup_route_def get_routing_entry_def find_entry_slot gets_def
        ok_def known_def node_inv_def table_inv_def)
  then show ?thesis using assms(2) by (simp add: triple_def)
qed

text \<open>A new entry under an address that is not used, in an empty slot.\<close>

lemma ok_new_entry:
  assumes s: "ok H L s" and free: "routes s (slot_of (dest_ip e)) = None"
    and e: "entry_ok e" "\<not> entry_mutex e" "expiration_thread e = 0" "rreq_id_thread e = 0"
      "rreq_message_sender e = 0"
  shows "ok H (insert (next_addr s, slot_of (dest_ip e)) L)
    (s\<lparr>heap := (heap s)(next_addr s \<mapsto> e), next_addr := Suc (next_addr s),
       routes := (routes s)(slot_of (dest_ip e) := Some (next_addr s))\<rparr>)"
proof -
  have fresh: "heap s (next_addr s) = None"
    using s by (cases "heap s (next_addr s)") (auto simp: ok_def node_inv_def table_inv_def)
  have th: "thread_ok (heap s) t th \<Longrightarrow> thread_ok ((heap s)(next_addr s \<mapsto> e)) t th" for t th
    using fresh by (auto simp: thread_ok_def split: thread.splits)
  have "known L s" and inv: "node_inv s" using s by (auto simp: ok_def)
  then have "known L (s\<lparr>heap := (heap s)(next_addr s \<mapsto> e), next_addr := Suc (next_addr s),
       routes := (routes s)(slot_of (dest_ip e) := Some (next_addr s))\<rparr>)"
    using fresh by (force simp: known_def)
  moreover have "table_inv (s\<lparr>heap := (heap s)(next_addr s \<mapsto> e), next_addr := Suc (next_addr s),
       routes := (routes s)(slot_of (dest_ip e) := Some (next_addr s))\<rparr>)"
    using inv free fresh e
    by (auto simp: node_inv_def table_inv_def handles_below_def threads_inv_def less_Suc_eq) force
  ultimately show ?thesis
    using s fresh e th by (auto simp: ok_def node_inv_def threads_inv_def held_def)
qed

lemma triple_create:
  assumes "\<And>a n. triple F (ok H (insert (a, slot_of ip) L)) (k (Some a, n)) Q"
  shows "triple F (ok H L) (bnd (create_or_get_routing_entry ip seq v hop hops timeout) k) Q"
proof -
  have "\<exists>a n s'. create_or_get_routing_entry ip seq v hop hops timeout s = Inr ((Some a, n), s') \<and>
      ok H (insert (a, slot_of ip) L) s'" if s: "ok H L s" for s
  proof (cases "routes s (slot_of ip)")
    case (Some a)
    with s have "ok H (insert (a, slot_of ip) L) s"
      by (auto simp: ok_def node_inv_def table_inv_def)
    with Some show ?thesis
      by (auto simp: create_or_get_routing_entry_def lookup_route_def get_routing_entry_def
          find_entry_slot prog_simps)
  next
    case None
    let ?s = "s\<lparr>ticks := Suc (ticks s)\<rparr>"
    have s': "ok H L ?s" using s ok_same_core[of "\<lambda>s. s\<lparr>ticks := Suc (ticks s)\<rparr>"]
      by (simp add: same_core_def)
    let ?e = "\<lparr>entry_mutex = False, dest_ip = ip, dest_seq = seq, seq_valid = v,
               next_hop = hop, hop_count = hops, status = ROUTE_INVALID,
               time_out = add_time_ms (clock (world s) (ticks s)) timeout,
               precursor_list = Some empty_list, next_hop_for = Some empty_list,
               expiration_thread = 0, rreq_id = entry_junk (world s) (next_addr s),
               rreq_id_thread = 0, rreq_search = SEARCH_NONE, rreq_message_sender = 0,
               active_route = 0\<rparr>"
    have "entry_ok ?e" by (auto simp: entry_ok_def list_ok_def ll.holds_nil intro!: exI[of _ "[]"])
    then have "ok H (insert (next_addr ?s, slot_of (dest_ip ?e)) L)
      (?s\<lparr>heap := (heap ?s)(next_addr ?s \<mapsto> ?e), next_addr := Suc (next_addr ?s),
       routes := (routes ?s)(slot_of (dest_ip ?e) := Some (next_addr ?s))\<rparr>)"
      using None by (intro ok_new_entry[OF s']) simp_all
    with None show ?thesis
      by (simp add: create_or_get_routing_entry_def lookup_route_def get_routing_entry_def
          find_entry_slot prog_simps clock_gettime_def malloc_entry_def add_routing_entry_def
          deref_def bnd_def split_def)
  qed
  then show ?thesis
    using assms unfolding triple_def bnd_def by (force split: sum.splits prod.splits)
qed

section \<open>Threads\<close>

lemma ok_new_thread:
  assumes s: "ok H L s" and e: "heap s a = Some e"
    and e': "dest_ip e' = dest_ip e" "entry_mutex e' = entry_mutex e" "entry_ok e'"
      "handles_below (Suc (next_tid s)) e'"
    and old: "\<And>t th. ths t = Some th \<Longrightarrow>
      threads s t = Some th \<and> thread_ok ((heap s)(a \<mapsto> e')) t th"
    and new: "thread_ok ((heap s)(a \<mapsto> e')) (next_tid s) th'"
  shows "ok H L (s\<lparr>ticks := n, threads := ths(next_tid s \<mapsto> th'), next_tid := Suc (next_tid s),
           heap := (heap s)(a \<mapsto> e')\<rparr>)"
proof -
  let ?s = "s\<lparr>ticks := n, threads := ths(next_tid s \<mapsto> th'), next_tid := Suc (next_tid s),
           heap := (heap s)(a \<mapsto> e')\<rparr>"
  have inv: "table_inv s" "threads_inv s" using s by (auto simp: ok_def node_inv_def)
  have "table_inv ?s"
    using inv(1) e e' by (auto simp: table_inv_def handles_below_def less_Suc_eq) force+
  moreover have "threads_inv ?s"
    using inv(2) old new by (auto simp: threads_inv_def less_Suc_eq)
  moreover have "held ?s = held s" using e e'(2) by (auto simp: held_def)
  moreover have "known L ?s" using s e e'(1) by (force simp: ok_def known_def)
  ultimately show ?thesis using s by (simp add: ok_def node_inv_def)
qed

lemma set_expiration_timer_eq:
  assumes "heap s a = Some e"
  shows "set_expiration_timer (Some a) ms s = Inr ((),
    s\<lparr>ticks := (if ms = 0 then ticks s else Suc (ticks s)),
      threads := (if expiration_thread e = 0 then threads s
                  else (threads s)(expiration_thread e := None))(next_tid s \<mapsto> Expiration a),
      next_tid := Suc (next_tid s),
      heap := (heap s)(a \<mapsto> e\<lparr>time_out := (if ms = 0 then time_out e
                     else add_time_ms (clock (world s) (ticks s)) ms),
                   expiration_thread := next_tid s\<rparr>)\<rparr>)"
proof (cases "ms = 0")
  case True
  then show ?thesis using assms
    by (cases "expiration_thread e = 0")
      (simp_all add: set_expiration_timer_def deref_def prog_simps pthread_cancel_def
        write_entry_def clock_gettime_def pthread_create_def)
next
  case False
  then show ?thesis using assms
    by (cases "expiration_thread e = 0")
      (simp_all add: set_expiration_timer_def deref_def prog_simps pthread_cancel_def
        write_entry_def clock_gettime_def pthread_create_def)
qed

lemma start_rreq_timer_eq:
  assumes "heap s a = Some e"
  shows "start_rreq_timer (Some a) s = Inr ((),
    s\<lparr>threads := (if rreq_id_thread e = 0 then threads s
                  else (threads s)(rreq_id_thread e := None))
          (next_tid s \<mapsto> Rreq_id_sleep a (convert_ms_to_timespec PATH_DISCOVERY_TIME)),
      next_tid := Suc (next_tid s),
      heap := (heap s)(a \<mapsto> e\<lparr>rreq_id_thread := next_tid s\<rparr>)\<rparr>)"
  using assms
  by (simp add: start_rreq_timer_def deref_def prog_simps pthread_cancel_def write_entry_def
      pthread_create_def when_p_def)

lemma triple_set_expiration_timer [okt]:
  assumes "a \<in> fst ` L"
  shows "triple F (ok H L) (set_expiration_timer (Some a) ms) (\<lambda>_. ok H L)"
proof (rule triple_total)
  fix s
  assume s: "ok H L s"
  then obtain e where e: "heap s a = Some e" using ok_entry assms by blast
  have inv: "table_inv s" "threads_inv s" using s by (auto simp: ok_def node_inv_def)
  have "ok H L (s\<lparr>ticks := n,
      threads := (if expiration_thread e = 0 then threads s
                  else (threads s)(expiration_thread e := None))(next_tid s \<mapsto> Expiration a),
      next_tid := Suc (next_tid s),
      heap := (heap s)(a \<mapsto> e\<lparr>time_out := tm, expiration_thread := next_tid s\<rparr>)\<rparr>)" for tm n
  proof (rule ok_new_thread[OF s e])
    show "entry_ok (e\<lparr>time_out := tm, expiration_thread := next_tid s\<rparr>)"
      using ok_entry_ok[OF s e] by (simp add: entry_ok_def)
    show "handles_below (Suc (next_tid s)) (e\<lparr>time_out := tm, expiration_thread := next_tid s\<rparr>)"
      using inv(1) e by (auto simp: table_inv_def handles_below_def less_Suc_eq)
    fix t th
    assume "(if expiration_thread e = 0 then threads s
             else (threads s)(expiration_thread e := None)) t = Some th"
    then have t: "threads s t = Some th" "t \<noteq> expiration_thread e"
      using inv(2) by (auto simp: threads_inv_def split: if_splits)
    then have "thread_ok (heap s) t th" using inv(2) by (simp add: threads_inv_def)
    then show "threads s t = Some th \<and>
        thread_ok ((heap s)(a \<mapsto> e\<lparr>time_out := tm, expiration_thread := next_tid s\<rparr>)) t th"
      using t e by (auto simp: thread_ok_def split: thread.splits)
  qed (simp_all add: thread_ok_def)
  then show "\<exists>x s'. set_expiration_timer (Some a) ms s = Inr (x, s') \<and> ok H L s'"
    unfolding set_expiration_timer_eq[OF e] by blast
qed

lemma triple_start_rreq_timer [okt]:
  assumes "a \<in> fst ` L"
  shows "triple F (ok H L) (start_rreq_timer (Some a)) (\<lambda>_. ok H L)"
proof (rule triple_total)
  fix s
  assume s: "ok H L s"
  then obtain e where e: "heap s a = Some e" using ok_entry assms by blast
  have inv: "table_inv s" "threads_inv s" using s by (auto simp: ok_def node_inv_def)
  have "ok H L (s\<lparr>ticks := ticks s,
      threads := (if rreq_id_thread e = 0 then threads s
                  else (threads s)(rreq_id_thread e := None))(next_tid s \<mapsto> Rreq_id_sleep a d),
      next_tid := Suc (next_tid s),
      heap := (heap s)(a \<mapsto> e\<lparr>rreq_id_thread := next_tid s\<rparr>)\<rparr>)" for d
  proof (rule ok_new_thread[OF s e])
    show "entry_ok (e\<lparr>rreq_id_thread := next_tid s\<rparr>)"
      using ok_entry_ok[OF s e] by (simp add: entry_ok_def)
    show "handles_below (Suc (next_tid s)) (e\<lparr>rreq_id_thread := next_tid s\<rparr>)"
      using inv(1) e by (auto simp: table_inv_def handles_below_def less_Suc_eq)
    fix t th
    assume "(if rreq_id_thread e = 0 then threads s
             else (threads s)(rreq_id_thread e := None)) t = Some th"
    then have t: "threads s t = Some th" "t \<noteq> rreq_id_thread e"
      using inv(2) by (auto simp: threads_inv_def split: if_splits)
    then have "thread_ok (heap s) t th" using inv(2) by (simp add: threads_inv_def)
    then show "threads s t = Some th \<and>
        thread_ok ((heap s)(a \<mapsto> e\<lparr>rreq_id_thread := next_tid s\<rparr>)) t th"
      using t e by (auto simp: thread_ok_def split: thread.splits)
  qed (simp_all add: thread_ok_def)
  then show "\<exists>x s'. start_rreq_timer (Some a) s = Inr (x, s') \<and> ok H L s'"
    unfolding start_rreq_timer_eq[OF e] by fastforce
qed

text \<open>A thread that goes on under the same handle, or ends.\<close>

lemma triple_set_thread_None [okt]: "triple F (ok H L) (set_thread t None) (\<lambda>_. ok H L)"
  by (auto simp: triple_def set_thread_def modify_def ok_def node_inv_def table_inv_def threads_inv_def
      held_def known_def)

lemma triple_pthread_cancel [okt]: "triple F (ok H L) (pthread_cancel t) (\<lambda>_. ok H L)"
  by (auto simp: triple_def pthread_cancel_def modify_def ok_def node_inv_def table_inv_def
      threads_inv_def held_def known_def)

lemma triple_set_thread:
  assumes "\<And>s. ok H L s \<Longrightarrow> 0 < t \<and> t < next_tid s \<and> thread_ok (heap s) t th"
  shows "triple F (ok H L) (set_thread t (Some th)) (\<lambda>_. ok H L)"
  using assms
  by (auto simp: triple_def set_thread_def modify_def ok_def node_inv_def table_inv_def threads_inv_def
      held_def known_def)

end
