(* ===== verification/Thread_Inv.thy ===== *)
theory Thread_Inv
  imports Node_Inv
begin

text \<open>
  The threads keep the invariant: the expiration of a route, the forgetting of a request id, the
  search for a route, the hello messages. Their steps start in a state where the thread runs,
  which says what its entry knows of it.
\<close>

section \<open>One entry and the threads change together\<close>

lemma ok_update:
  assumes s: "ok H L s" and e: "heap s a = Some e"
    and same: "routes s' = routes s" "next_addr s' = next_addr s"
      "sequence_num s' = sequence_num s" "rreq_ids s' = rreq_ids s"
    and h: "heap s' = (heap s)(a \<mapsto> e')" "dest_ip e' = dest_ip e" "entry_mutex e' = entry_mutex e"
      "entry_ok e'" "handles_below (next_tid s') e'"
    and n: "next_tid s \<le> next_tid s'"
    and th: "\<And>t th. threads s' t = Some th \<Longrightarrow> 0 < t \<and> t < next_tid s' \<and> thread_ok (heap s') t th"
  shows "ok H L s'"
proof -
  have inv: "table_inv s" "threads_inv s" using s by (auto simp: ok_def node_inv_def)
  have "table_inv s'"
    unfolding table_inv_def
  proof (intro conjI allI impI)
    fix i b
    assume "routes s' i = Some b"
    then have "\<exists>f. heap s b = Some f \<and> slot_of (dest_ip f) = i"
      using inv(1) same by (simp add: table_inv_def)
    then show "\<exists>f. heap s' b = Some f \<and> slot_of (dest_ip f) = i" using h(1,2) e by auto
  next
    fix b f
    assume f: "heap s' b = Some f"
    then obtain g where g: "heap s b = Some g" "dest_ip f = dest_ip g"
      using h(1,2) e by (auto split: if_splits)
    then show "routes s' (slot_of (dest_ip f)) = Some b" "b < next_addr s'"
      using inv(1) same by (auto simp: table_inv_def)
    show "entry_ok f" "handles_below (next_tid s') f"
      using f h inv(1) n
      by (auto simp: table_inv_def handles_below_def split: if_splits; meson less_le_trans)+
  qed
  moreover have "threads_inv s'"
    using th n inv(2) by (auto simp: threads_inv_def)
  moreover have "held s' = held s" using e h(1,3) by (auto simp: held_def)
  moreover have "known L s'" using s e h(1,2) by (force simp: ok_def known_def)
  ultimately show ?thesis using s same by (simp add: ok_def node_inv_def)
qed

lemma ok_threadD:
  assumes "ok H L s" and "threads s t = Some th"
  shows "0 < t" and "t < next_tid s" and "thread_ok (heap s) t th"
  using assms by (auto simp: ok_def node_inv_def threads_inv_def)

lemma ok_handles: "ok H L s \<Longrightarrow> heap s a = Some e \<Longrightarrow> handles_below (next_tid s) e"
  by (simp add: ok_def node_inv_def table_inv_def)

lemma ok_mutex: "ok H L s \<Longrightarrow> heap s a = Some e \<Longrightarrow> entry_mutex e \<longleftrightarrow> a \<in> H"
  by (auto simp: ok_def held_def)

lemma ok_entryD:
  assumes "ok H L s" and "heap s a = Some e"
  shows "routes s (slot_of (dest_ip e)) = Some a"
  using assms by (auto simp: ok_def node_inv_def table_inv_def)

lemma ok_threads_only:
  assumes "ok H L s" "0 < t" "t < next_tid s" "\<forall>x. th = Some x \<longrightarrow> thread_ok (heap s) t x"
  shows "ok H L (s\<lparr>threads := (threads s)(t := th)\<rparr>)"
  using assms
  by (auto simp: ok_def node_inv_def table_inv_def threads_inv_def held_def known_def)

lemma ok_thread_step:
  assumes s: "ok H L s" and e: "heap s a = Some e" and a: "alike e e'" "entry_mutex e' = entry_mutex e"
    and t: "0 < t" "t < next_tid s" "\<forall>x. th = Some x \<longrightarrow> thread_ok ((heap s)(a \<mapsto> e')) t x"
  shows "ok H L (s\<lparr>heap := (heap s)(a \<mapsto> e'), threads := (threads s)(t := th)\<rparr>)"
  using ok_threads_only[OF ok_write_same_mutex[OF s e a], of t th] t by simp

section \<open>Expiration\<close>

lemma ok_ticks [simp]: "ok H L (s\<lparr>ticks := n\<rparr>) = ok H L s"
  using ok_same_core[of "\<lambda>s. s\<lparr>ticks := n\<rparr>"] by (simp add: same_core_def)

lemma ok_events [simp]: "ok H L (s\<lparr>events := ev\<rparr>) = ok H L s"
  using ok_same_core[of "\<lambda>s. s\<lparr>events := ev\<rparr>"] by (simp add: same_core_def)

lemma ok_active_routes [simp]: "ok H L (s\<lparr>active_routes := n\<rparr>) = ok H L s"
  using ok_same_core[of "\<lambda>s. s\<lparr>active_routes := n\<rparr>"] by (simp add: same_core_def)

lemma ok_pending [simp]: "ok H L (s\<lparr>pending := n\<rparr>) = ok H L s"
  using ok_same_core[of "\<lambda>s. s\<lparr>pending := n\<rparr>"] by (simp add: same_core_def)

lemma expiration_begin_eq:
  assumes "heap s a = Some e"
  shows "expiration_begin t a s = Inr ((), s\<lparr>ticks := Suc (ticks s),
    threads := (threads s)(t \<mapsto>
      Expiration_sleep a (subtract_time (clock (world s) (ticks s)) (time_out e)))\<rparr>)"
  using assms
  by (simp add: expiration_begin_def clock_gettime_def deref_def set_thread_def prog_simps)

lemma expiration_begin_ok:
  assumes s: "ok H L s" and t: "threads s t = Some (Expiration a)"
  shows "\<exists>s'. expiration_begin t a s = Inr ((), s') \<and> ok H L s'"
proof -
  obtain e where e: "heap s a = Some e" "expiration_thread e = t"
    using ok_threadD(3)[OF assms] by (auto simp: thread_ok_def)
  have "ok H L ((s\<lparr>ticks := Suc (ticks s)\<rparr>)\<lparr>threads := (threads (s\<lparr>ticks := Suc (ticks s)\<rparr>))
      (t \<mapsto> Expiration_sleep a d)\<rparr>)" for d
    using s ok_threadD(1,2)[OF assms] e by (intro ok_threads_only) (simp_all add: thread_ok_def)
  then show ?thesis unfolding expiration_begin_eq[OF e(1)] by simp
qed

text \<open>Freeing an entry: its two other threads are cancelled, its lists are freed.\<close>

lemma free_list_ok: "list_ok lo \<Longrightarrow> \<exists>lo'. free_linked_list lo = Inr ((), lo')"
  using free_linked_list_models by (auto simp: list_ok_def)

lemma free_entry_eq:
  assumes e: "heap s a = Some e" and m: "\<not> entry_mutex e" and l: "entry_ok e"
  shows "free_entry (Some a) s = Inr ((), s\<lparr>heap := (heap s)(a := None),
    threads := threads s |` (- ({rreq_id_thread e, rreq_message_sender e} - {0}))\<rparr>)"
proof -
  obtain l1 l2 where free: "free_linked_list (precursor_list e) = Inr ((), l1)"
    "free_linked_list (next_hop_for e) = Inr ((), l2)"
    using l free_list_ok by (metis entry_ok_def)
  let ?cancel = "\<lambda>n x. x(n := if n = 0 then x n else None)"
  let ?s = "s\<lparr>threads := ?cancel (rreq_message_sender e) (?cancel (rreq_id_thread e) (threads s))\<rparr>"
  have cancel: "when_p (0 < n) (pthread_cancel n) r = Inr ((), r\<lparr>threads := ?cancel n (threads r)\<rparr>)" for n r
    by (simp add: pthread_cancel_def prog_simps when_p_def)
  have hs: "heap ?s a = Some e" using e by simp
  have rest: "block [mutex_destroy (Some a), at_precursors (Some a) free_linked_list,
      at_next_hop_for (Some a) free_linked_list, free_ptr (Some a)] r =
    Inr ((), r\<lparr>heap := (heap r)(a := None)\<rparr>)" if "heap r a = Some e" for r
    using that m free
    by (simp add: mutex_destroy_def at_precursors_def at_next_hop_for_def free_ptr_def deref_def
        write_entry_def prog_simps)
  have "free_entry (Some a) s = Inr ((), ?s\<lparr>heap := (heap ?s)(a := None)\<rparr>)"
    using rest[OF hs] e
    by (simp add: free_entry_def deref_def prog_simps bnd_eqs(1)[OF cancel] del: when_p_simps
        cong: if_cong split del: if_split)
  moreover have "?cancel (rreq_message_sender e) (?cancel (rreq_id_thread e) (threads s)) =
      threads s |` (- ({rreq_id_thread e, rreq_message_sender e} - {0}))"
    by (auto simp: restrict_map_def)
  ultimately show ?thesis by simp
qed

text \<open>The entry leaves the table with everything that works on it.\<close>

lemma ok_free:
  assumes s: "ok H L s" and e: "heap s a = Some e" and m: "a \<notin> H"
    and th: "\<And>t th. ths t = Some th \<Longrightarrow> threads s t = Some th \<and>
      t \<notin> {expiration_thread e, rreq_id_thread e, rreq_message_sender e}"
  shows "ok H {} (s\<lparr>routes := (routes s)(slot_of (dest_ip e) := None), heap := (heap s)(a := None),
    threads := ths\<rparr>)"
proof -
  let ?s = "s\<lparr>routes := (routes s)(slot_of (dest_ip e) := None), heap := (heap s)(a := None),
    threads := ths\<rparr>"
  have inv: "table_inv s" "threads_inv s" using s by (auto simp: ok_def node_inv_def)
  have "b \<noteq> a \<longleftrightarrow> slot_of (dest_ip f) \<noteq> slot_of (dest_ip e)" if "heap s b = Some f" for b f
    using inv(1) e that unfolding table_inv_def by (metis option.inject)
  then have "table_inv ?s"
    using inv(1) e by (fastforce simp: table_inv_def)
  moreover have "thread_ok (heap ?s) t x" if "ths t = Some x" for t x
  proof -
    have "thread_ok (heap s) t x" using inv(2) th[OF that] by (auto simp: threads_inv_def)
    then show ?thesis using th[OF that] e by (auto simp: thread_ok_def split: thread.splits)
  qed
  then have "threads_inv ?s" using inv(2) th by (fastforce simp: threads_inv_def)
  moreover have "held ?s = held s"
    using ok_mutex[OF s e] m e by (auto simp: held_def)
  ultimately show ?thesis using s by (simp add: ok_def node_inv_def)
qed

lemma expiration_wake_invalid:
  assumes s: "ok H L s" and e: "heap s a = Some e" "status e = ROUTE_INVALID" and m: "a \<notin> H"
  shows "expiration_wake t a s = Inr ((), s\<lparr>routes := (routes s)(slot_of (dest_ip e) := None),
    heap := (heap s)(a := None),
    threads := (threads s |` (- ({rreq_id_thread e, rreq_message_sender e} - {0})))(t := None)\<rparr>)"
proof -
  have "\<not> entry_mutex e" using ok_mutex[OF s e(1)] m by simp
  moreover have "entry_ok (e\<lparr>entry_mutex := False\<rparr>)"
    using ok_entry_ok[OF s e(1)] by (simp add: entry_ok_def)
  ultimately show ?thesis
    using e ok_entryD[OF s e(1)]
    by (simp add: expiration_wake_def mutex_lock_def mutex_unlock_def deref_def write_entry_def
        remove_routing_entry_def remove_entry_from_data_structure_def Let_def prog_simps free_entry_eq
        set_thread_def)
qed

lemma expiration_wake_valid:
  assumes e: "heap s a = Some e" "status e = ROUTE_VALID" "\<not> entry_mutex e"
  shows "expiration_wake t a s = Inr ((), s\<lparr>events := events s @ [Deleted_route (dest_ip e) (next_hop e)],
    active_routes := (if active_routes s \<noteq> 0 \<and> seq_valid e = SEQ_VALID
                      then active_routes s - active_route e else active_routes s),
    ticks := Suc (ticks s),
    heap := (heap s)(a \<mapsto> e\<lparr>status := ROUTE_INVALID,
      time_out := add_time_ms (clock (world s) (ticks s)) DELETE_PERIOD,
      entry_mutex := False\<rparr>),
    threads := (threads s)(t \<mapsto> Expiration a)\<rparr>)"
proof (cases "active_routes s \<noteq> 0 \<and> seq_valid e = SEQ_VALID")
  case True
  then show ?thesis
    using e
    by (simp add: expiration_wake_def mutex_lock_def mutex_unlock_def deref_def write_entry_def
        DeleteEntry_def emit_def clock_gettime_def prog_simps set_thread_def word_gt_0)
next
  case False
  then have "when_p (0 < active_routes s \<and> seq_valid e = SEQ_VALID) m = ret ()" for m :: "(node, unit) prog"
    by (auto simp: word_gt_0 when_p_def)
  with False show ?thesis
    using e
    by (simp add: expiration_wake_def mutex_lock_def mutex_unlock_def deref_def write_entry_def
        DeleteEntry_def emit_def clock_gettime_def prog_simps set_thread_def del: de_Morgan_conj)
qed

lemma expiration_wake_ok:
  assumes s: "ok H L s" and t: "threads s t = Some (Expiration_sleep a d)"
    and "a \<in> H \<Longrightarrow> Deadlock \<in> F"
  shows "triple F (\<lambda>r. r = s) (expiration_wake t a) (\<lambda>_. ok H {})"
proof -
  obtain e where e: "heap s a = Some e" "expiration_thread e = t"
    using ok_threadD(3)[OF s t] by (auto simp: thread_ok_def)
  show ?thesis
  proof (cases "a \<in> H")
    case True
    then have "expiration_wake t a s = Inl Deadlock"
      using e ok_mutex[OF s e(1)]
      by (simp add: expiration_wake_def mutex_lock_def deref_def prog_simps)
    then show ?thesis using assms(3) True by (simp add: triple_def)
  next
    case False
    then have m: "\<not> entry_mutex e" using ok_mutex[OF s e(1)] by simp
    show ?thesis
    proof (cases "status e")
      case ROUTE_VALID
      let ?e = "e\<lparr>status := ROUTE_INVALID,
        time_out := add_time_ms (clock (world s) (ticks s)) DELETE_PERIOD, entry_mutex := False\<rparr>"
      have "ok H L (s\<lparr>events := ev, active_routes := n, ticks := k,
          heap := (heap s)(a \<mapsto> ?e), threads := (threads s)(t \<mapsto> Expiration a)\<rparr>)" for ev n k
        using ok_thread_step[of H L "s\<lparr>events := ev, active_routes := n, ticks := k\<rparr>" a e ?e t
            "Some (Expiration a)"] s e m ok_entry_ok[OF s e(1)] ok_threadD(1,2)[OF s t]
        by (simp add: alike_def entry_ok_def thread_ok_def)
      then show ?thesis
        unfolding triple_def
        by (auto simp: expiration_wake_valid[OF e(1) ROUTE_VALID m] split del: if_split intro: ok_empty)
    next
      case ROUTE_INVALID
      have "ok H {} (s\<lparr>routes := (routes s)(slot_of (dest_ip e) := None), heap := (heap s)(a := None),
          threads := (threads s |` (- ({rreq_id_thread e, rreq_message_sender e} - {0})))(t := None)\<rparr>)"
        by (rule ok_free[OF s e(1) False])
          (use e ok_threadD(1)[OF s] in \<open>auto simp: restrict_map_def split: if_splits\<close>)
      then show ?thesis
        using expiration_wake_invalid[OF s e(1) ROUTE_INVALID False] by (simp add: triple_def)
    qed
  qed
qed

section \<open>Forgetting a request id\<close>

lemma rreq_id_wake_eq:
  assumes "heap s a = Some e" and "\<not> entry_mutex e"
  shows "rreq_id_wake t a s = Inr ((), s\<lparr>heap := (heap s)(a \<mapsto> e\<lparr>rreq_id := 0, rreq_id_thread := 0,
      entry_mutex := False\<rparr>), threads := (threads s)(t := None)\<rparr>)"
  using assms
  by (simp add: rreq_id_wake_def mutex_lock_def mutex_unlock_def deref_def write_entry_def
      prog_simps set_thread_def)

lemma rreq_id_wake_ok:
  assumes s: "ok H L s" and t: "threads s t = Some (Rreq_id_sleep a d)"
    and "a \<in> H \<Longrightarrow> Deadlock \<in> F"
  shows "triple F (\<lambda>r. r = s) (rreq_id_wake t a) (\<lambda>_. ok H L)"
proof -
  obtain e where e: "heap s a = Some e" "rreq_id_thread e = t"
    using ok_threadD(3)[OF s t] by (auto simp: thread_ok_def)
  show ?thesis
  proof (cases "a \<in> H")
    case True
    then have "rreq_id_wake t a s = Inl Deadlock"
      using e ok_mutex[OF s e(1)]
      by (simp add: rreq_id_wake_def mutex_lock_def deref_def prog_simps)
    then show ?thesis using assms(3) True by (simp add: triple_def)
  next
    case False
    then have m: "\<not> entry_mutex e" using ok_mutex[OF s e(1)] by simp
    let ?e = "e\<lparr>rreq_id := 0, rreq_id_thread := 0, entry_mutex := False\<rparr>"
    have "ok H L (s\<lparr>heap := (heap s)(a \<mapsto> ?e), threads := (threads s)(t := None)\<rparr>)"
    proof (rule ok_update[OF s e(1), where e' = ?e])
      show "entry_ok ?e" using ok_entry_ok[OF s e(1)] by (simp add: entry_ok_def)
      show "handles_below (next_tid (s\<lparr>heap := (heap s)(a \<mapsto> ?e), threads := (threads s)(t := None)\<rparr>)) ?e"
        using ok_handles[OF s e(1)] ok_threadD(2)[OF s t] by (simp add: handles_below_def)
      fix i th
      assume "threads (s\<lparr>heap := (heap s)(a \<mapsto> ?e), threads := (threads s)(t := None)\<rparr>) i = Some th"
      then have "threads s i = Some th" "i \<noteq> t" by (auto split: if_splits)
      then show "0 < i \<and> i < next_tid (s\<lparr>heap := (heap s)(a \<mapsto> ?e), threads := (threads s)(t := None)\<rparr>)
          \<and> thread_ok (heap (s\<lparr>heap := (heap s)(a \<mapsto> ?e), threads := (threads s)(t := None)\<rparr>)) i th"
        using ok_threadD[OF s] e by (fastforce simp: thread_ok_def split: thread.splits)
    qed (use m in simp_all)
    then show ?thesis by (simp add: triple_def rreq_id_wake_eq[OF e(1) m])
  qed
qed

section \<open>The search\<close>

lemma rreq_fail_eq:
  assumes "heap s a = Some e" and "\<not> entry_mutex e"
  shows "rreq_fail t a s = Inr ((), s\<lparr>ticks := Suc (ticks s),
      next_tid := Suc (next_tid s),
      heap := (heap s)(a \<mapsto> e\<lparr>rreq_message_sender := 0, rreq_search := SEARCH_FAILED,
        time_out := add_time_ms (clock (world s) (ticks s)) (2 * NET_TRAVERSAL_TIME),
        expiration_thread := next_tid s, entry_mutex := False\<rparr>),
      threads := ((if expiration_thread e = 0 then threads s
                  else (threads s)(expiration_thread e := None))(next_tid s \<mapsto> Expiration a))(t := None)\<rparr>)"
proof -
  let ?e = "e\<lparr>entry_mutex := True, rreq_message_sender := 0, rreq_search := SEARCH_FAILED\<rparr>"
  have "heap (s\<lparr>heap := (heap s)(a \<mapsto> ?e)\<rparr>) a = Some ?e" by simp
  note timer = set_expiration_timer_eq[OF this, of "2 * NET_TRAVERSAL_TIME"]
  have "2 * NET_TRAVERSAL_TIME \<noteq> 0" by (simp add: config_defs)
  then show ?thesis
    using assms timer
    by (simp add: rreq_fail_def mutex_lock_def mutex_unlock_def deref_def write_entry_def
        prog_simps set_thread_def cong: if_cong split del: if_split)
qed

text \<open>\<open>searching t a\<close>: the thread \<open>t\<close> is the one that searches for the entry at \<open>a\<close>.\<close>

definition searching :: "tid \<Rightarrow> addr \<Rightarrow> node \<Rightarrow> bool" where
  "searching t a s \<longleftrightarrow> 0 < t \<and> t < next_tid s \<and>
     (\<exists>e. heap s a = Some e \<and> rreq_message_sender e = t \<and> rreq_search e = SEARCH_SEARCHING)"

lemma ok_searching:
  assumes "ok H L s" and "threads s t = Some th"
    and "th \<in> {Rreq_sender a, Rreq_ring_sleep a m ttl d, Rreq_net_sleep a m ttl d}"
  shows "searching t a s"
  using ok_threadD[OF assms(1,2)] assms(3) by (auto simp: searching_def thread_ok_def)

lemma rreq_fail_ok:
  assumes "a \<in> H \<Longrightarrow> Deadlock \<in> F"
  shows "triple F (\<lambda>s. ok H L s \<and> searching t a s) (rreq_fail t a) (\<lambda>_. ok H L)"
proof -
  have "case rreq_fail t a s of Inl f \<Rightarrow> f \<in> F | Inr (x, s') \<Rightarrow> ok H L s'"
    if s: "ok H L s" and "searching t a s" for s
  proof -
    obtain e where e: "heap s a = Some e" "rreq_message_sender e = t"
        "rreq_search e = SEARCH_SEARCHING" and tt: "0 < t" "t < next_tid s"
      using \<open>searching t a s\<close> by (auto simp: searching_def)
    show ?thesis
    proof (cases "a \<in> H")
      case True
      then have "rreq_fail t a s = Inl Deadlock"
        using e ok_mutex[OF s e(1)] by (simp add: rreq_fail_def mutex_lock_def deref_def prog_simps)
      then show ?thesis using assms True by simp
    next
      case False
      then have m: "\<not> entry_mutex e" using ok_mutex[OF s e(1)] by simp
      let ?e = "e\<lparr>rreq_message_sender := 0, rreq_search := SEARCH_FAILED,
        time_out := add_time_ms (clock (world s) (ticks s)) (2 * NET_TRAVERSAL_TIME),
        expiration_thread := next_tid s, entry_mutex := False\<rparr>"
      let ?ths = "((if expiration_thread e = 0 then threads s
                  else (threads s)(expiration_thread e := None))(next_tid s \<mapsto> Expiration a))(t := None)"
      let ?r = "s\<lparr>ticks := Suc (ticks s), next_tid := Suc (next_tid s),
        heap := (heap s)(a \<mapsto> ?e), threads := ?ths\<rparr>"
      have "ok H L ?r"
      proof (rule ok_update[OF s e(1), where e' = ?e])
        show "entry_ok ?e" using ok_entry_ok[OF s e(1)] by (simp add: entry_ok_def)
        show "handles_below (next_tid ?r) ?e"
          using ok_handles[OF s e(1)] by (simp add: handles_below_def)
        fix i th
        assume "threads ?r i = Some th"
        then have "?ths i = Some th" by simp
        then consider "i = next_tid s" "th = Expiration a" |
            "i \<noteq> t" "(if expiration_thread e = 0 then threads s
                  else (threads s)(expiration_thread e := None)) i = Some th"
          unfolding fun_upd_apply by (metis option.distinct(1) option.inject)
        then show "0 < i \<and> i < next_tid ?r \<and> thread_ok (heap ?r) i th"
        proof cases
          case 1
          then show ?thesis using tt by (simp add: thread_ok_def)
        next
          case 2
          then have "threads s i = Some th" by (auto split: if_splits)
          with 2 have "threads s i = Some th" "i \<noteq> expiration_thread e" "i \<noteq> rreq_message_sender e"
            using ok_threadD(1)[OF s] e by (auto split: if_splits)
          then show ?thesis
            using ok_threadD[OF s, of i th] e by (auto simp: thread_ok_def split: thread.splits)
        qed
      qed (use m in simp_all)
      then show ?thesis by (simp add: rreq_fail_eq[OF e(1) m] split del: if_split)
    qed
  qed
  then show ?thesis by (simp add: triple_def)
qed

lemma frame:
  assumes "triple F (ok H L) m (\<lambda>_. ok H' L')" and "triple UNIV P m (\<lambda>_. P)"
  shows "triple F (\<lambda>s. ok H L s \<and> P s) m (\<lambda>_ s. ok H' L' s \<and> P s)"
  using assms unfolding triple_def by (fastforce split: sum.splits)

lemma searching_basic:
  "triple UNIV (searching t a) (on_rreq_ids increment_safe) (\<lambda>_. searching t a)"
  "triple UNIV (searching t a) (on_sequence_num increment_safe) (\<lambda>_. searching t a)"
  "triple UNIV (searching t a) (SendBroadcast buf n) (\<lambda>_. searching t a)"
  "triple UNIV (searching t a) (gets g) (\<lambda>_. searching t a)"
  "triple UNIV (searching t a) (deref p) (\<lambda>_. searching t a)"
  "triple UNIV (searching t a) (mutex_lock p) (\<lambda>_. searching t a)"
  "triple UNIV (searching t a) (mutex_unlock p) (\<lambda>_. searching t a)"
  by (auto simp: triple_def searching_def on_rreq_ids_def on_sequence_num_def zoom_def SendBroadcast_def
      emit_def bnd_def modify_def gets_def deref_def mutex_lock_def mutex_unlock_def write_entry_def
      fail_def split: sum.splits option.splits)

lemma triple_searching_set_thread:
  assumes "th \<in> {Rreq_ring_sleep a m ttl d, Rreq_net_sleep a m ttl d}"
  shows "triple F (\<lambda>s. ok H L s \<and> searching t a s) (set_thread t (Some th)) (\<lambda>_. ok H L)"
proof (rule triple_total)
  fix s
  assume s: "ok H L s \<and> searching t a s"
  then have "thread_ok (heap s) t th"
    using assms by (auto simp: thread_ok_def searching_def)
  then show "\<exists>x s'. set_thread t (Some th) s = Inr (x, s') \<and> ok H L s'"
    using s by (auto simp: set_thread_def prog_simps searching_def intro!: ok_threads_only)
qed

lemmas searching_counters = frame[OF triple_counters(4) searching_basic(1)]
  frame[OF triple_counters(2) searching_basic(2)]

lemmas searching_broadcast = frame[OF triple_api(4) searching_basic(3)]

lemma searching_send:
  assumes "th \<in> {Rreq_ring_sleep a m ttl d, Rreq_net_sleep a m ttl d}"
  shows "triple F (\<lambda>s. ok H L s \<and> searching t a s)
    (block [SendBroadcast buf n, set_thread t (Some th)]) (\<lambda>_. ok H L)"
  by (simp, rule triple_sq[OF searching_broadcast],
    rule triple_sq[OF triple_searching_set_thread[OF assms] triple_ret_same])

lemma rreq_net_ok:
  assumes "a \<in> H \<Longrightarrow> Deadlock \<in> F"
  shows "triple F (\<lambda>s. ok H L s \<and> searching t a s) (rreq_net t a m i) (\<lambda>_. ok H L)"
  unfolding rreq_net_def Let_def
  by (rule triple_if, rule triple_bnd[OF searching_counters(1)], rule searching_send, simp,
    rule rreq_fail_ok, rule assms)

lemma rreq_ring_ok:
  assumes "a \<in> H \<Longrightarrow> Deadlock \<in> F"
  shows "triple F (\<lambda>s. ok H L s \<and> searching t a s) (rreq_ring t a m ttl) (\<lambda>_. ok H L)"
  unfolding rreq_ring_def Let_def
  by (rule triple_if, rule triple_bnd[OF searching_counters(1)], rule searching_send, simp,
    rule rreq_net_ok, rule assms)

lemma triple_lock_alone:
  assumes "a \<in> fst ` L" and "a \<in> H \<Longrightarrow> Deadlock \<in> F"
  shows "triple F (ok H L) (mutex_lock (Some a)) (\<lambda>_ s. ok (insert a H) L s \<and> a \<notin> H)"
proof -
  have "mutex_lock p = sq (mutex_lock p) (ret ())" for p
    by (rule ext) (simp add: sq_def bnd_def ret_def split: sum.splits)
  moreover have "triple F (ok H L) (sq (mutex_lock (Some a)) (ret ())) (\<lambda>_ s. ok (insert a H) L s \<and> a \<notin> H)"
    by (rule triple_lock[OF assms(1)]) (auto intro: assms(2) triple_ret)
  ultimately show ?thesis by metis
qed

lemma frame_lock:
  assumes a: "a \<in> fst ` L" "a \<in> H \<Longrightarrow> Deadlock \<in> F"
    and P: "triple UNIV P (mutex_lock (Some a)) (\<lambda>_. P)"
    and n: "a \<notin> H \<Longrightarrow> triple F (\<lambda>s. ok (insert a H) L s \<and> P s) n Q"
  shows "triple F (\<lambda>s. ok H L s \<and> P s) (sq (mutex_lock (Some a)) n) Q"
proof (rule triple_sq)
  show "triple F (\<lambda>s. ok H L s \<and> P s) (mutex_lock (Some a))
    (\<lambda>_ s. ok (insert a H) L s \<and> P s \<and> a \<notin> H)"
    using triple_lock_alone[OF a] P unfolding triple_def by (fastforce split: sum.splits)
  show "triple F (\<lambda>s. ok (insert a H) L s \<and> P s \<and> a \<notin> H) n Q"
    using n unfolding triple_def by blast
qed

lemmas searching_lock = frame_lock[OF _ _ searching_basic(6)]

lemma triple_searching_known:
  assumes "\<And>i. triple F (\<lambda>s. ok H (insert (a, i) L) s \<and> searching t a s) m (\<lambda>_. ok H (insert (a, i) L))"
  shows "triple F (\<lambda>s. ok H L s \<and> searching t a s) m (\<lambda>_. ok H L)"
  unfolding triple_def
proof (intro allI impI, elim conjE)
  fix s
  assume "ok H L s" "searching t a s"
  then obtain i where "ok H (insert (a, i) L) s" by (auto simp: ok_def searching_def)
  then show "case m s of Inl f \<Rightarrow> f \<in> F | Inr (x, s') \<Rightarrow> ok H L s'"
    using assms[of i] \<open>searching t a s\<close> ok_mono[of H "insert (a, i) L" _ L]
    unfolding triple_def by (fastforce split: sum.splits)
qed

lemma send_rreq_thread_ok:
  assumes "a \<in> H \<Longrightarrow> Deadlock \<in> F"
  shows "triple F (\<lambda>s. ok H L s \<and> searching t a s) (send_rreq_thread t a) (\<lambda>_. ok H L)"
proof (rule triple_searching_known)
  fix i
  let ?L = "insert (a, i) L"
  have a: "a \<in> fst ` ?L" by simp
  show "triple F (\<lambda>s. ok H ?L s \<and> searching t a s) (send_rreq_thread t a) (\<lambda>_. ok H ?L)"
    unfolding send_rreq_thread_def Let_def split_def
  proof (rule triple_bnd[OF searching_counters(2)], rule searching_lock[OF a], erule assms)
    fix x
    assume "a \<notin> H"
    then have un: "insert a H - {a} = H" by simp
    show "triple F (\<lambda>s. ok (insert a H) ?L s \<and> searching t a s)
      (bnd (deref (Some a)) (\<lambda>e. bnd (gets ip_address) (\<lambda>own_ip.
        sq (mutex_unlock (Some a)) (rreq_ring t a (g e own_ip) (w e)))))
      (\<lambda>_. ok H ?L)" for g w
      by (rule triple_bnd[OF frame, OF triple_deref[OF a] searching_basic(5)],
        rule triple_bnd[OF frame, OF triple_gets_ok searching_basic(4)],
        rule triple_sq[OF frame, OF triple_unlock[OF a insertI1] searching_basic(7)],
        unfold un, rule rreq_ring_ok, erule assms)
  qed
qed

section \<open>Hello messages\<close>

definition has_thread :: "tid \<Rightarrow> node \<Rightarrow> bool" where
  "has_thread t s \<longleftrightarrow> 0 < t \<and> t < next_tid s"

lemma has_thread_basic:
  "triple UNIV (has_thread t) (on_sequence_num read_safe) (\<lambda>_. has_thread t)"
  "triple UNIV (has_thread t) (SendBroadcast buf n) (\<lambda>_. has_thread t)"
  "triple UNIV (has_thread t) (gets g) (\<lambda>_. has_thread t)"
  "triple UNIV (has_thread t) (new_rrep flags prefix dest seq origin life) (\<lambda>_. has_thread t)"
  by (auto simp: triple_def has_thread_def on_sequence_num_def zoom_def SendBroadcast_def new_rrep_def
      emit_def bnd_def modify_def gets_def ret_def split: sum.splits)

lemma triple_set_hello:
  "triple F (\<lambda>s. ok H L s \<and> has_thread t s) (set_thread t (Some (Hello_wait m))) (\<lambda>_. ok H L)"
  "triple F (\<lambda>s. ok H L s \<and> has_thread t s) (set_thread t (Some (Hello_sleep m d))) (\<lambda>_. ok H L)"
  by (auto intro!: triple_total ok_threads_only simp: set_thread_def prog_simps thread_ok_def has_thread_def)

lemma hello_ok:
  "triple F (\<lambda>s. ok H L s \<and> has_thread t s) (hello_begin t) (\<lambda>_. ok H L)"
  "triple F (\<lambda>s. ok H L s \<and> has_thread t s) (hello_poll t m) (\<lambda>_. ok H L)"
  "triple F (\<lambda>s. ok H L s \<and> has_thread t s) (hello_wake t m) (\<lambda>_. ok H L)"
  unfolding hello_begin_def hello_poll_def hello_wake_def Let_def block.simps
  by (rule triple_bnd[OF frame[OF triple_counters(1) has_thread_basic(1)]]
      triple_bnd[OF frame[OF triple_gets_ok has_thread_basic(3)]]
      triple_bnd[OF frame[OF triple_api(5) has_thread_basic(4)]]
      triple_sq[OF frame[OF triple_api(4) has_thread_basic(2)]]
      triple_set_hello triple_when triple_sq[OF triple_set_hello(1)] triple_ret_same | erule conjunct1)+

section \<open>A step of a thread\<close>

lemma run_thread_ok:
  assumes "H \<noteq> {} \<Longrightarrow> Deadlock \<in> F"
  shows "triple F (ok H L) (run_thread t) (\<lambda>_. ok H {})"
  unfolding triple_def
proof (intro allI impI)
  fix s
  assume s: "ok H L s"
  define good :: "(node, unit) prog \<Rightarrow> bool" where
    "good m \<longleftrightarrow> (case m s of Inl f \<Rightarrow> f \<in> F | Inr (_, s') \<Rightarrow> ok H {} s')" for m
  have at: "good m" if "triple F P m (\<lambda>_. ok H L')" "P s" for P m L'
  proof (cases "m s")
    case (Inl f)
    then show ?thesis using triple_fault[OF that] by (simp add: good_def)
  next
    case (Inr r)
    then obtain s' where "m s = Inr ((), s')" by (cases r) simp
    then show ?thesis using ok_empty[OF triple_result[OF that]] by (simp add: good_def)
  qed
  have asleep: "good (asleep d m)" if "good m" for d m
  proof (cases "nanosleep_ok d")
    case True
    then show ?thesis using that by (simp add: good_def asleep_def)
  next
    case False
    then show ?thesis using ok_empty[OF s] by (simp add: good_def asleep_def ret_def)
  qed
  have dead: "a \<in> H \<Longrightarrow> Deadlock \<in> F" for a using assms by blast
  have "good (run_thread t)"
  proof (cases "threads s t")
    case None
    then show ?thesis using ok_empty[OF s] by (simp add: good_def run_thread_def prog_simps)
  next
    case (Some th)
    then have run: "good (run_thread t) = good (case th of Expiration a \<Rightarrow> expiration_begin t a
       | Expiration_sleep a d \<Rightarrow> asleep d (expiration_wake t a)
       | Rreq_id_sleep a d \<Rightarrow> asleep d (rreq_id_wake t a)
       | Rreq_sender a \<Rightarrow> send_rreq_thread t a
       | Rreq_ring_sleep a m ttl d \<Rightarrow> asleep d (rreq_ring t a m (ttl + TTL_INCREMENT))
       | Rreq_net_sleep a m i d \<Rightarrow> asleep d (rreq_net t a m (i + 1))
       | Hello \<Rightarrow> hello_begin t
       | Hello_wait m \<Rightarrow> hello_poll t m
       | Hello_sleep m d \<Rightarrow> asleep d (hello_wake t m))"
      by (simp add: good_def run_thread_def prog_simps)
    have t: "has_thread t s" using ok_threadD[OF s Some] by (simp add: has_thread_def)
    show ?thesis
    proof (cases th)
      case (Expiration a)
      with Some obtain s' where "expiration_begin t a s = Inr ((), s')" "ok H L s'"
        using expiration_begin_ok[OF s, of t a] by blast
      with Expiration ok_empty show ?thesis unfolding run by (auto simp: good_def)
    next
      case (Expiration_sleep a d)
      with Some have "triple F (\<lambda>r. r = s) (expiration_wake t a) (\<lambda>_. ok H {})"
        using expiration_wake_ok[OF s _ dead] by simp
      from asleep[OF at[OF this]] show ?thesis unfolding run Expiration_sleep by simp
    next
      case (Rreq_id_sleep a d)
      with Some have "triple F (\<lambda>r. r = s) (rreq_id_wake t a) (\<lambda>_. ok H L)"
        using rreq_id_wake_ok[OF s _ dead] by simp
      from asleep[OF at[OF this]] show ?thesis unfolding run Rreq_id_sleep by simp
    next
      case (Rreq_sender a)
      then have "ok H L s \<and> searching t a s" using ok_searching[OF s Some] s by simp
      from at[OF send_rreq_thread_ok this] dead show ?thesis unfolding run Rreq_sender by simp
    next
      case (Rreq_ring_sleep a m ttl d)
      then have "ok H L s \<and> searching t a s" using ok_searching[OF s Some] s by simp
      from asleep[OF at[OF rreq_ring_ok this]] dead show ?thesis unfolding run Rreq_ring_sleep by simp
    next
      case (Rreq_net_sleep a m i d)
      then have "ok H L s \<and> searching t a s" using ok_searching[OF s Some] s by simp
      from asleep[OF at[OF rreq_net_ok this]] dead show ?thesis unfolding run Rreq_net_sleep by simp
    next
      case Hello
      with at[OF hello_ok(1)] s t show ?thesis unfolding run by simp
    next
      case (Hello_wait m)
      with at[OF hello_ok(2)] s t show ?thesis unfolding run by simp
    next
      case (Hello_sleep m d)
      with asleep[OF at[OF hello_ok(3)]] s t show ?thesis unfolding run by simp
    qed
  qed
  then show "case run_thread t s of Inl f \<Rightarrow> f \<in> F | Inr (x, s') \<Rightarrow> ok H {} s'"
    by (simp add: good_def split: sum.splits prod.splits)
qed

end
