(* ===== verification/Handler_Inv.thy ===== *)
theory Handler_Inv
  imports Thread_Inv
begin

text \<open>
  The handlers keep the invariant. Each triple says what a handler can fail with: a deadlock when
  it starts with entries locked (or, for the two that lock two entries, when these are one), and
  the signed overflow of \<open>seq_compare\<close>. None of them reads a freed entry or a null pointer.
\<close>

lemma triple_pre: "(\<And>s. P s \<Longrightarrow> P' s) \<Longrightarrow> triple F P' m Q \<Longrightarrow> triple F P m Q"
  by (simp add: triple_def)

section \<open>Starting and ending a search\<close>

text \<open>\<open>idle a\<close>: nobody searches for the entry at \<open>a\<close>.\<close>

definition idle :: "addr \<Rightarrow> node \<Rightarrow> bool" where
  "idle a s \<longleftrightarrow> (\<exists>e. heap s a = Some e \<and> rreq_search e \<noteq> SEARCH_SEARCHING)"

lemma stop_expiration_eq:
  assumes "heap s a = Some e"
  shows "block [when_p (\<not> n = 0) (pthread_cancel n),
      write_entry (Some a) (\<lambda>e. e\<lparr>expiration_thread := 0\<rparr>)] s = Inr ((),
    s\<lparr>threads := (if n = 0 then threads s else (threads s)(n := None)),
      heap := (heap s)(a \<mapsto> e\<lparr>expiration_thread := 0\<rparr>)\<rparr>)"
proof (cases "n = 0")
  case True
  then show ?thesis using assms by (simp add: prog_simps write_entry_def)
next
  case False
  then show ?thesis using assms by (simp add: prog_simps write_entry_def pthread_cancel_def)
qed

lemma stop_expiration_ok:
  assumes "n = expiration_thread e"
  shows "triple F (\<lambda>s. ok H L s \<and> heap s a = Some e \<and> rreq_search e \<noteq> SEARCH_SEARCHING)
    (block [when_p (\<not> n = 0) (pthread_cancel n),
      write_entry (Some a) (\<lambda>e. e\<lparr>expiration_thread := 0\<rparr>)]) (\<lambda>_ s. ok H L s \<and> idle a s)"
proof (rule triple_total, elim conjE)
  fix s
  assume s: "ok H L s" and e: "heap s a = Some e" and idle: "rreq_search e \<noteq> SEARCH_SEARCHING"
  let ?e = "e\<lparr>expiration_thread := 0\<rparr>"
  let ?r = "s\<lparr>threads := (if n = 0 then threads s else (threads s)(n := None)),
      heap := (heap s)(a \<mapsto> ?e)\<rparr>"
  have "ok H L ?r"
  proof (rule ok_update[OF s e, where e' = ?e])
    show "entry_ok ?e" using ok_entry_ok[OF s e] by (simp add: entry_ok_def)
    show "handles_below (next_tid ?r) ?e"
      using ok_handles[OF s e] by (auto simp: handles_below_def)
    fix i th
    assume "threads ?r i = Some th"
    then have t: "threads s i = Some th" "i \<noteq> expiration_thread e"
      using assms ok_threadD(1)[OF s] by (auto split: if_splits)
    then have "thread_ok (heap s) i th" "0 < i" "i < next_tid s" using ok_threadD[OF s] by auto
    with t(2) e idle show "0 < i \<and> i < next_tid ?r \<and> thread_ok (heap ?r) i th"
      by (auto simp: thread_ok_def split: thread.splits)
  qed simp_all
  moreover have "idle a ?r" using idle by (simp add: idle_def)
  ultimately show "\<exists>x s'. block [when_p (\<not> n = 0) (pthread_cancel n),
      write_entry (Some a) (\<lambda>e. e\<lparr>expiration_thread := 0\<rparr>)] s = Inr (x, s') \<and> ok H L s' \<and> idle a s'"
    unfolding stop_expiration_eq[OF e] by blast
qed

abbreviation (input) start_search :: "addr \<Rightarrow> (node, unit) prog" where
  "start_search a \<equiv> block
     [mutex_lock (Some a),
      pthread_create (\<lambda>t e. e\<lparr>rreq_message_sender := t\<rparr>) (Some a) Rreq_sender,
      write_entry (Some a) (\<lambda>e. e\<lparr>rreq_search := SEARCH_SEARCHING\<rparr>),
      mutex_unlock (Some a)]"

lemma start_search_eq:
  assumes "heap s a = Some e" and "\<not> entry_mutex e"
  shows "start_search a s = Inr ((), s\<lparr>threads := (threads s)(next_tid s \<mapsto> Rreq_sender a),
      next_tid := Suc (next_tid s),
      heap := (heap s)(a \<mapsto> e\<lparr>rreq_message_sender := next_tid s, rreq_search := SEARCH_SEARCHING,
        entry_mutex := False\<rparr>)\<rparr>)"
  using assms
  by (simp add: prog_simps mutex_lock_def mutex_unlock_def deref_def write_entry_def pthread_create_def)

lemma start_search_ok:
  assumes "a \<in> H \<Longrightarrow> Deadlock \<in> F"
  shows "triple F (\<lambda>s. ok H L s \<and> idle a s) (start_search a) (\<lambda>_. ok H L)"
proof -
  have "case start_search a s of Inl f \<Rightarrow> f \<in> F | Inr (x, s') \<Rightarrow> ok H L s'"
    if s: "ok H L s" and "idle a s" for s
  proof -
    obtain e where e: "heap s a = Some e" and idle: "rreq_search e \<noteq> SEARCH_SEARCHING"
      using \<open>idle a s\<close> by (auto simp: idle_def)
    show ?thesis
    proof (cases "a \<in> H")
      case True
      then have "start_search a s = Inl Deadlock"
        using e ok_mutex[OF s e] by (simp add: mutex_lock_def deref_def prog_simps)
      then show ?thesis using assms True by simp
    next
      case False
      then have m: "\<not> entry_mutex e" using ok_mutex[OF s e] by simp
      let ?e = "e\<lparr>rreq_message_sender := next_tid s, rreq_search := SEARCH_SEARCHING,
        entry_mutex := False\<rparr>"
      let ?r = "s\<lparr>threads := (threads s)(next_tid s \<mapsto> Rreq_sender a),
        next_tid := Suc (next_tid s), heap := (heap s)(a \<mapsto> ?e)\<rparr>"
      have "ok H L ?r"
      proof (rule ok_update[OF s e, where e' = ?e])
        show "entry_ok ?e" using ok_entry_ok[OF s e] by (simp add: entry_ok_def)
        show "handles_below (next_tid ?r) ?e"
          using ok_handles[OF s e] by (simp add: handles_below_def)
        fix i th
        assume "threads ?r i = Some th"
        then consider "i = next_tid s" "th = Rreq_sender a" | "threads s i = Some th"
          by (cases "i = next_tid s") simp_all
        then show "0 < i \<and> i < next_tid ?r \<and> thread_ok (heap ?r) i th"
        proof cases
          case 1
          then show ?thesis using s by (simp add: thread_ok_def ok_def node_inv_def threads_inv_def)
        next
          case 2
          then show ?thesis
            using ok_threadD[OF s 2] e idle by (auto simp: thread_ok_def split: thread.splits)
        qed
      qed (use m in simp_all)
      then show ?thesis by (simp add: start_search_eq[OF e m] del: block.simps)
    qed
  qed
  then show ?thesis unfolding triple_def by blast
qed

lemma send_rreq_begin_ok:
  assumes "H \<noteq> {} \<Longrightarrow> Deadlock \<in> F"
  shows "triple F (ok H L) (send_rreq_begin dest) (\<lambda>_. ok H L)"
proof -
  have dead: "a \<in> H \<Longrightarrow> Deadlock \<in> F" for a using assms by blast
  have idle: "triple F (\<lambda>s. ok H L s \<and> heap s a = Some e)
      (sq (when_p (is_new = 0 \<and> rreq_search e \<noteq> SEARCH_SEARCHING)
             (block [when_p (\<not> expiration_thread e = 0) (pthread_cancel (expiration_thread e)),
                     write_entry (Some a) (\<lambda>e. e\<lparr>expiration_thread := 0\<rparr>)]))
       (sq (when_p (rreq_search e \<noteq> SEARCH_SEARCHING) (start_search a)) (ret x))) (\<lambda>_. ok H L)"
    for a e is_new x L
  proof (cases "rreq_search e = SEARCH_SEARCHING")
    case True
    then show ?thesis by (auto simp: triple_def prog_simps)
  next
    case False
    show ?thesis
    proof (rule triple_sq[OF triple_when])
      show "triple F (\<lambda>s. ok H L s \<and> heap s a = Some e)
        (block [when_p (\<not> expiration_thread e = 0) (pthread_cancel (expiration_thread e)),
          write_entry (Some a) (\<lambda>e. e\<lparr>expiration_thread := 0\<rparr>)]) (\<lambda>_ s. ok H L s \<and> idle a s)"
        by (rule triple_pre[OF _ stop_expiration_ok[where e = e]]) (use False in simp_all)
      show "triple F (\<lambda>s. ok H L s \<and> idle a s)
        (sq (when_p (rreq_search e \<noteq> SEARCH_SEARCHING) (start_search a)) (ret x)) (\<lambda>_. ok H L)"
        by (rule triple_sq[OF triple_when[OF start_search_ok] triple_ret_same])
          (use dead False in auto)
    qed (use False in \<open>auto simp: idle_def\<close>)
  qed
  show ?thesis
    unfolding send_rreq_begin_def
    apply (rule triple_create)
    apply (unfold prod.case)
    apply (rule triple_bnd[OF triple_deref_entry])
     apply simp
    apply (rule triple_if)
     apply (rule triple_ret, erule conjunct1[THEN ok_mono], blast)
    apply (rule triple_post[OF idle], erule ok_mono, blast)
    done
qed

lemma stop_search_eq:
  assumes "heap s a = Some e"
  shows "block [write_entry (Some a) (\<lambda>e. e\<lparr>rreq_search := SEARCH_FOUND\<rparr>),
      bnd (deref (Some a)) (\<lambda>e. when_p (rreq_message_sender e \<noteq> 0)
        (block [pthread_cancel (rreq_message_sender e),
          write_entry (Some a) (\<lambda>e. e\<lparr>rreq_message_sender := 0\<rparr>)])),
      write_entry (Some a) (\<lambda>e. e\<lparr>rreq_message_sender := 0\<rparr>)] s = Inr ((),
    s\<lparr>threads := (if rreq_message_sender e = 0 then threads s
                 else (threads s)(rreq_message_sender e := None)),
      heap := (heap s)(a \<mapsto> e\<lparr>rreq_search := SEARCH_FOUND, rreq_message_sender := 0\<rparr>)\<rparr>)"
proof (cases "rreq_message_sender e = 0")
  case True
  then show ?thesis using assms by (simp add: prog_simps write_entry_def deref_def)
next
  case False
  then show ?thesis using assms by (simp add: prog_simps write_entry_def deref_def pthread_cancel_def)
qed

lemma block_append: "block (ms @ ns) = sq (block ms) (block ns)"
proof (induction ms)
  case Nil
  show ?case by (rule ext) (simp add: prog_simps)
next
  case (Cons m ms)
  then show ?case by (auto simp: sq_def bnd_def intro!: ext split: sum.splits)
qed

lemma stop_search_ok:
  assumes "a \<in> fst ` L"
  shows "triple F (ok H L)
    (block [write_entry (Some a) (\<lambda>e. e\<lparr>rreq_search := SEARCH_FOUND\<rparr>),
      bnd (deref (Some a)) (\<lambda>e. when_p (rreq_message_sender e \<noteq> 0)
        (block [pthread_cancel (rreq_message_sender e),
          write_entry (Some a) (\<lambda>e. e\<lparr>rreq_message_sender := 0\<rparr>)])),
      write_entry (Some a) (\<lambda>e. e\<lparr>rreq_message_sender := 0\<rparr>)]) (\<lambda>_. ok H L)" (is "triple F _ ?m _")
proof (rule triple_total)
  fix s
  assume s: "ok H L s"
  then obtain e where e: "heap s a = Some e" using ok_entry assms by blast
  let ?e = "e\<lparr>rreq_search := SEARCH_FOUND, rreq_message_sender := 0\<rparr>"
  let ?ths = "if rreq_message_sender e = 0 then threads s else (threads s)(rreq_message_sender e := None)"
  let ?r = "s\<lparr>threads := ?ths, heap := (heap s)(a \<mapsto> ?e)\<rparr>"
  have "ok H L ?r"
  proof (rule ok_update[OF s e, where e' = ?e])
    show "entry_ok ?e" using ok_entry_ok[OF s e] by (simp add: entry_ok_def)
    show "handles_below (next_tid ?r) ?e"
      using ok_handles[OF s e] by (auto simp: handles_below_def)
    fix i th
    assume "threads ?r i = Some th"
    then have t: "threads s i = Some th" "i \<noteq> rreq_message_sender e"
      using ok_threadD(1)[OF s] by (auto split: if_splits)
    then have "thread_ok (heap s) i th" "0 < i" "i < next_tid s" using ok_threadD[OF s] by auto
    with t(2) e show "0 < i \<and> i < next_tid ?r \<and> thread_ok (heap ?r) i th"
      by (auto simp: thread_ok_def split: thread.splits)
  qed simp_all
  then show "\<exists>x s'. ?m s = Inr (x, s') \<and> ok H L s'"
    unfolding stop_search_eq[OF e] by blast
qed

lemma triple_unlock_last:
  assumes "a \<notin> H" and "a \<in> fst ` L"
  shows "triple F (ok (insert a H) L) (mutex_unlock (Some a)) (\<lambda>_. ok H L)"
  using triple_unlock[OF assms(2), of "insert a H" F] assms(1) by simp

lemma triple_benign:
  assumes "\<And>e. dest_ip (f e) = dest_ip e" "\<And>e. entry_mutex (f e) = entry_mutex e"
    "\<And>e. expiration_thread (f e) = expiration_thread e" "\<And>e. rreq_id_thread (f e) = rreq_id_thread e"
    "\<And>e. rreq_message_sender (f e) = rreq_message_sender e" "\<And>e. rreq_search (f e) = rreq_search e"
    "\<And>e. precursor_list (f e) = precursor_list e" "\<And>e. next_hop_for (f e) = next_hop_for e"
    "\<And>e. active_route e \<le> 1 \<Longrightarrow> active_route (f e) \<le> 1"
    "a \<in> fst ` L"
  shows "triple F (ok H L) (write_entry (Some a) f) (\<lambda>_. ok H L)"
  using assms by (intro triple_write) (simp_all add: benign_def entry_ok_def)

text \<open>A program that returns an entry it has locked.\<close>

definition locked :: "addr set \<Rightarrow> (addr \<times> u8) set \<Rightarrow> u8 \<Rightarrow> ptr \<Rightarrow> node \<Rightarrow> bool" where
  "locked H L i p s \<longleftrightarrow> (\<exists>a. p = Some a \<and> a \<notin> H \<and> ok (insert a H) (insert (a, i) L) s)"

lemma triple_locked:
  assumes "triple F P m (locked H L i)"
    and "\<And>a. a \<notin> H \<Longrightarrow> triple F (ok (insert a H) (insert (a, i) L)) (k (Some a)) Q"
  shows "triple F P (bnd m k) Q"
  by (rule triple_bnd[OF assms(1)]) (use assms(2) in \<open>auto simp: triple_def locked_def\<close>)

lemma triple_ret_locked:
  "a \<notin> H \<Longrightarrow> triple F (ok (insert a H) (insert (a, i) L)) (ret (Some a)) (locked H L i)"
  by (rule triple_ret) (auto simp: locked_def)

text \<open>The rules a proof about a handler is run with, in the order they are tried.\<close>

lemmas handler_rules =
  triple_create triple_lookup triple_lock triple_unlock_last triple_benign triple_gets_ok
  triple_active_routes triple_emit triple_clock triple_api triple_counters triple_deref
  triple_at_precursors triple_at_next_hop_for list_prog_add list_prog_is_in
  triple_set_expiration_timer triple_start_rreq_timer triple_seq_compare triple_ret_locked
  triple_if triple_when_same triple_sq triple_bnd triple_ret_same triple_ret_ok

section \<open>Requests\<close>

lemma recv_rreq_previous_hop_ok:
  assumes "H \<noteq> {} \<Longrightarrow> Deadlock \<in> F"
  shows "triple F (ok H L) (recv_rreq_previous_hop sender_ip m) (\<lambda>_. ok H L)"
  unfolding recv_rreq_previous_hop_def block.simps
  by (rule handler_rules | assumption | simp only: prod.case | (simp; fail) | (use assms in blast))+

lemma recv_rreq_repeated_ok: "triple F (ok H L) (recv_rreq_repeated m) (\<lambda>_. ok H L)"
  unfolding recv_rreq_repeated_def
  by (rule handler_rules | (simp; fail) | blast)+

lemma recv_rreq_reverse_route_ok:
  assumes "H \<noteq> {} \<Longrightarrow> Deadlock \<in> F"
  shows "triple F (ok H L) (recv_rreq_reverse_route sender_ip m) (locked H L (slot_of (rreq_src_ip m)))"
  unfolding recv_rreq_reverse_route_def Let_def
  by (rule handler_rules | assumption | simp only: prod.case | (simp; fail) | (use assms in blast))+

lemma send_rrep_destination_ok:
  assumes "\<not> rreq_flag m RREQ_UNKNOWN \<Longrightarrow> Signed_overflow \<in> F"
  shows "triple F (ok H L) (send_rrep_destination m sender_ip) (\<lambda>_. ok H L)"
  unfolding send_rrep_destination_def Let_def
  by (rule handler_rules | erule assms)+

lemma send_rrep_intermediate_ok:
  assumes "H \<noteq> {} \<Longrightarrow> Deadlock \<in> F" and L: "(a, slot_of (rreq_dest_ip m)) \<in> L" "(b, slot_of (rreq_src_ip m)) \<in> L"
  shows "triple F (ok H L) (send_rrep_intermediate m sender) (\<lambda>_. ok H L)"
proof -
  have "a \<in> fst ` L" "b \<in> fst ` L" using L by force+
  then show ?thesis
  unfolding send_rrep_intermediate_def Let_def block.simps
  apply -
  by (rule triple_lookup_known[OF L(1)] triple_lookup_known[OF L(2)] handler_rules | assumption | (use assms in blast))+
qed

lemma own_route_fresher_ok:
  assumes "\<not> rreq_flag m RREQ_UNKNOWN \<Longrightarrow> Signed_overflow \<in> F"
  shows "triple F (ok H L) (own_route_fresher m e) (\<lambda>_. ok H L)"
  unfolding own_route_fresher_def
  by (rule handler_rules | erule assms)+

lemma recv_rreq_forward_ok:
  assumes "\<not> rreq_flag m RREQ_UNKNOWN \<Longrightarrow> Signed_overflow \<in> F" and "p = None \<or> the p \<in> fst ` L"
  shows "triple F (ok H L) (recv_rreq_forward p m) (\<lambda>_. ok H L)"
proof (cases p)
  case None
  show ?thesis
    unfolding recv_rreq_forward_def Let_def None
    by (rule handler_rules | (simp; fail))+
next
  case (Some a)
  with assms(2) have "a \<in> fst ` L" by simp
  then show ?thesis
    unfolding recv_rreq_forward_def Let_def Some
    apply -
    by (rule own_route_fresher_ok handler_rules | (simp; fail) | (use assms(1) in \<open>simp add: rreq_flag_def; fail\<close>))+
qed

lemma mark_active_ok: "a \<in> fst ` L \<Longrightarrow> triple F (ok H L) (mark_active (Some a)) (\<lambda>_. ok H L)"
  unfolding mark_active_def block.simps
  by (rule handler_rules | (simp; fail) | blast)+

lemma bnd_ret [simp]: "bnd (ret x) k = k x"
  by (rule ext) (simp add: bnd_def ret_def)

lemma triple_forget:
  "triple F P m (\<lambda>_. ok H L') \<Longrightarrow> L \<subseteq> L' \<Longrightarrow> triple F P m (\<lambda>_. ok H L)"
  by (erule triple_post, erule ok_mono)

text \<open>A request that says that no number is known compares none.\<close>

lemma recv_rreq_ok:
  assumes "H \<noteq> {} \<Longrightarrow> Deadlock \<in> F" and "\<not> rreq_flag m RREQ_UNKNOWN \<Longrightarrow> Signed_overflow \<in> F"
  shows "triple F (ok H L) (recv_rreq sender_ip m) (\<lambda>_. ok H L)"
proof -
  have unknown: "\<not> rreq_flag (increment_hop_rreq m) RREQ_UNKNOWN \<Longrightarrow> Signed_overflow \<in> F"
    using assms(2) by (simp add: rreq_flag_def increment_hop_rreq_def)
  show ?thesis
    unfolding recv_rreq_def Let_def
    apply (rule triple_sq[OF recv_rreq_previous_hop_ok[OF assms(1)]], assumption)
    apply (rule triple_bnd[OF triple_gets_ok], rule triple_if, rule triple_ret_same)
    apply (rule triple_bnd[OF recv_rreq_repeated_ok], rule triple_if, rule triple_ret_same)
    apply (rule triple_locked[OF recv_rreq_reverse_route_ok[OF assms(1)]], assumption)
    apply (rule triple_if)
    subgoal
      by (rule mark_active_ok send_rrep_destination_ok handler_rules | assumption | (simp; fail)
          | (erule unknown; fail) | blast)+
    apply (rule triple_sq, rule triple_unlock_last, assumption, simp, rule triple_lookup)
    subgoal
      by (simp only: simp_thms if_False bnd_ret, rule triple_forget,
          rule recv_rreq_forward_ok, erule unknown, simp, blast)
    subgoal for x xa a aa
      apply (rule triple_forget[where L' = "insert (aa, slot_of (rreq_dest_ip (increment_hop_rreq m)))
          (insert (a, slot_of (rreq_src_ip (increment_hop_rreq m))) L)"])
      by (rule send_rrep_intermediate_ok own_route_fresher_ok recv_rreq_forward_ok handler_rules
        insertI1 | assumption | (rule assms(1); assumption) | (erule unknown; fail) | rule insertI2 | (simp; fail) | blast)+
    done
qed

section \<open>Replies\<close>

lemma recv_rrep_stop_search_ok:
  assumes "H \<noteq> {} \<Longrightarrow> Deadlock \<in> F"
  shows "triple F (ok H L) (recv_rrep_stop_search m) (\<lambda>_. ok H L)"
proof -
  have split: "block [l, x, y, z, u] = sq l (sq (block [x, y, z]) (sq u (ret ())))" for l x y z u :: "(node, unit) prog"
    using block_append[of "[x, y, z]" "[u]"] by (simp del: block.simps(2) add: block.simps(2)[of l] block.simps(2)[of u])
  show ?thesis
    unfolding recv_rrep_stop_search_def split
    by (rule triple_lookup triple_bnd[OF triple_gets_ok] triple_when triple_lock triple_unlock_last
       triple_sq[OF stop_search_ok] triple_sq triple_ret_ok | assumption | (simp; fail) | (use assms in blast) | (erule ok_mono, blast))+
qed

lemma recv_rrep_hello_ok:
  assumes "H \<noteq> {} \<Longrightarrow> Deadlock \<in> F" and "Signed_overflow \<in> F"
  shows "triple F (ok H L) (recv_rrep_hello sender_ip m) (\<lambda>_. ok H L)"
  unfolding recv_rrep_hello_def Let_def block.simps
  by (rule handler_rules | assumption | simp only: prod.case | (simp; fail) | (use assms in blast))+

lemma recv_rrep_previous_hop_ok:
  assumes "H \<noteq> {} \<Longrightarrow> Deadlock \<in> F"
  shows "triple F (ok H L) (recv_rrep_previous_hop sender_ip m) (\<lambda>_. ok H L)"
  unfolding recv_rrep_previous_hop_def block.simps
  by (rule handler_rules | assumption | simp only: prod.case | (simp; fail) | (use assms in blast))+

lemma rrep_updates_ok:
  assumes "Signed_overflow \<in> F"
  shows "triple F (ok H L) (rrep_updates new m e) (\<lambda>_. ok H L)"
  unfolding rrep_updates_def
  by (rule handler_rules | rule assms)+

lemma recv_rrep_forward_route_ok:
  assumes "H \<noteq> {} \<Longrightarrow> Deadlock \<in> F" and "Signed_overflow \<in> F"
  shows "triple F (ok H L) (recv_rrep_forward_route sender_ip m) (locked H L (slot_of (rrep_dest_ip m)))"
  unfolding recv_rrep_forward_route_def block.simps
  by (rule rrep_updates_ok mark_active_ok handler_rules | assumption | simp only: prod.case | (simp; fail) | (use assms in blast))+

text \<open>
  The one entry a reply can find locked is that of its destination, when its source is in the
  same slot.
\<close>

lemma recv_rrep_forward_ok:
  assumes "a \<notin> H" and "H \<noteq> {} \<Longrightarrow> Deadlock \<in> F"
    and "slot_of (rrep_src_ip m) = slot_of (rrep_dest_ip m) \<Longrightarrow> Deadlock \<in> F"
  shows "triple F (ok (insert a H) (insert (a, slot_of (rrep_dest_ip m)) L)) (recv_rrep_forward (Some a) m)
    (\<lambda>_. ok (insert a H) (insert (a, slot_of (rrep_dest_ip m)) L))"
proof -
  have dead: "Deadlock \<in> F"
    if "ok (insert a H) (insert (b, slot_of (rrep_src_ip m)) (insert (a, slot_of (rrep_dest_ip m)) L)) s"
      "b \<in> insert a H" for b s
    using that assms by (auto simp: ok_def)
  show ?thesis
    unfolding recv_rrep_forward_def block.simps
    by (rule mark_active_ok triple_when handler_rules | assumption | (simp; fail) | rule dead | (erule ok_mono, blast) | blast)+
qed

lemma recv_rrep_ok:
  assumes "H \<noteq> {} \<Longrightarrow> Deadlock \<in> F" and "Signed_overflow \<in> F"
    and "slot_of (rrep_src_ip m) = slot_of (rrep_dest_ip m) \<Longrightarrow> Deadlock \<in> F"
  shows "triple F (ok H L) (recv_rrep sender_ip m) (\<lambda>_. ok H L)"
  unfolding recv_rrep_def Let_def
  apply (rule triple_sq[OF recv_rrep_stop_search_ok[OF assms(1)]], assumption)
  apply (rule triple_if)
   apply (rule triple_sq[OF recv_rrep_hello_ok[OF assms(1,2)] triple_ret_same], assumption)
  apply (rule triple_sq[OF recv_rrep_previous_hop_ok[OF assms(1)]], assumption)
  apply (rule triple_locked[OF recv_rrep_forward_route_ok[OF assms(1,2)]], assumption)
  apply (rule triple_sq[OF recv_rrep_forward_ok])
     apply assumption
    apply (erule assms(1))
   apply (rule assms(3), simp add: increment_hop_rrep_def)
  by (rule handler_rules | assumption | (simp; fail) | blast)+

section \<open>Errors\<close>

lemma triple_lift:
  assumes "\<And>f. r = Inl f \<Longrightarrow> f \<in> F" and "\<And>x. r = Inr x \<Longrightarrow> triple F P (k x) Q"
  shows "triple F P (bnd (lift_sum r) k) Q"
  using assms by (cases r) (auto simp: lift_sum_def triple_def bnd_def fail_def ret_def)

lemma triple_pure: "(B \<Longrightarrow> triple F P m Q) \<Longrightarrow> triple F (\<lambda>s. P s \<and> B) m Q"
  by (auto simp: triple_def)

lemma triple_ret_conj: "B \<Longrightarrow> triple F P (ret x) (\<lambda>y s. P s \<and> (y = x) \<and> B)"
  by (rule triple_ret) simp

definition has_precursor :: "addr \<Rightarrow> node \<Rightarrow> bool" where
  "has_precursor a s \<longleftrightarrow> (\<exists>e l x xs. heap s a = Some e \<and> precursor_list e = Some l \<and> models l (x # xs))"

lemma triple_has_precursors:
  assumes "a \<in> fst ` L"
  shows "triple F (ok H L) (at_precursors (Some a) has_precursors)
    (\<lambda>b s. ok H L s \<and> (b \<longrightarrow> has_precursor a s))"
proof -
  have "triple UNIV (ok H L) (at_precursors (Some a) has_precursors) (\<lambda>b s. b \<longrightarrow> has_precursor a s)"
  proof (rule tripleI, simp)
    fix s b s'
    assume s: "ok H L s" and r: "at_precursors (Some a) has_precursors s = Inr (b, s')"
    obtain e where e: "heap s a = Some e" using ok_entry s assms by blast
    obtain l xs where l: "precursor_list e = Some l" "models l xs"
      using ok_entry_ok[OF s e] by (auto simp: entry_ok_def list_ok_def)
    have "heap s' a = Some e" "b = (first l \<noteq> None)"
      using r e l by (auto simp: at_precursors_def has_precursors_def on_list_def gets_def bnd_def
          deref_def sq_def write_entry_def ret_def)
    then show "b \<longrightarrow> has_precursor a s'"
      using l by (cases xs) (auto simp: has_precursor_def models_first)
  qed
  with triple_at_precursors[OF assms list_prog_has, of F H] show ?thesis
    by (auto simp: triple_def split: sum.splits)
qed

lemma note_precursors_ok:
  assumes "a \<in> fst ` L"
  shows "triple F (\<lambda>s. ok H L s \<and> has_precursor a s) (note_precursors (Some a) single broadcast) (\<lambda>_. ok H L)"
proof -
  have "triple {Null_deref} (ok H L) (note_precursors (Some a) single broadcast) (\<lambda>_. ok H L)"
    unfolding note_precursors_def
    by (rule triple_bnd[OF triple_at_precursors[OF assms list_prog_single] triple_ret_same])
  moreover have "note_precursors (Some a) single broadcast s \<noteq> Inl f" if "has_precursor a s" for s f
    using that
    by (auto simp: has_precursor_def note_precursors_def at_precursors_def bnd_def deref_def sq_def
        write_entry_def ret_def single_precursor_eq)
  ultimately show ?thesis by (auto simp: triple_def split: sum.splits)
qed

text \<open>
  The variables of the loop after \<open>i\<close> of \<open>n\<close> pairs: the number of words written is even and does
  not pass the pairs read, so that the next pair fits into the array.
\<close>

definition rerr_vars :: "nat \<Rightarrow> nat \<Rightarrow> rerr_loop \<Rightarrow> bool" where
  "rerr_vars n i v \<longleftrightarrow> even (unat (num_dests v)) \<and> unat (num_dests v) \<le> 2 * i \<and>
     length (dest_ip_seq_pairs v) = 2 * n"

lemma rerr_vars_mono: "rerr_vars n i v \<Longrightarrow> rerr_vars n (Suc i) v"
  by (simp add: rerr_vars_def)

lemma rerr_vars_add:
  assumes "rerr_vars n i v" and "length pairs = 2 * n"
  shows "rerr_vars n (Suc i) \<lparr>single_rerr = x, broadcast_rerr = b, num_dests = num_dests v + 2,
    dest_ip_seq_pairs = pairs\<rparr>"
  using assms by (auto simp: rerr_vars_def unat_word_ariths even_iff_mod_2_eq_zero mod_mod_cancel)

lemma rerr_vars_room:
  assumes "rerr_vars n i v" and "i < n"
  shows "put_word (dest_ip_seq_pairs v) (unat (num_dests v)) w =
      Inr ((dest_ip_seq_pairs v)[unat (num_dests v) := w])"
    and "length xs = 2 * n \<Longrightarrow> put_word xs (unat (num_dests v) + 1) w' =
      Inr (xs[unat (num_dests v) + 1 := w'])"
  using assms by (auto simp: rerr_vars_def put_word_def)

lemma read_word_fault: "read_word bs i = Inl f \<Longrightarrow> f = Out_of_bounds \<and> length bs < 4 * i + 4"
  by (auto simp: read_word_def split: if_splits)

lemma recv_rerr_pair_ok:
  assumes H: "H \<noteq> {} \<Longrightarrow> Deadlock \<in> F" and B: "length bs < 8 * n \<Longrightarrow> Out_of_bounds \<in> F"
    and v: "rerr_vars n (unat i) v" "unat i < n"
  shows "triple F (ok H L) (recv_rerr_pair sender_ip bs i v)
    (\<lambda>v' s. ok H L s \<and> rerr_vars n (Suc (unat i)) v')"
proof -
  have rd: "f \<in> F" if "read_word bs k = Inl f" "k \<le> 2 * unat i + 1" for k f
    using read_word_fault[OF that(1)] that(2) v(2) B by auto
  have skip: "triple F (ok H L') (ret v) (\<lambda>v' s. ok H L s \<and> rerr_vars n (Suc (unat i)) v')"
    if "L \<subseteq> L'" for L'
    by (rule triple_ret) (use that v rerr_vars_mono ok_mono in auto)
  have noted: "triple F (\<lambda>s. ok H' L' s \<and> (b \<longrightarrow> has_precursor a s))
      (if b then
         bnd (note_precursors (Some a) (single_rerr v) (broadcast_rerr v)) (\<lambda>(single, broadcast).
         bnd (lift_sum (put_word (dest_ip_seq_pairs v) (unat (num_dests v)) (dest_ip e))) (\<lambda>pairs.
         bnd (lift_sum (read_word bs (unat i * 2 + 1))) (\<lambda>seq.
         bnd (lift_sum (put_word pairs (unat (num_dests v) + 1) seq)) (\<lambda>pairs.
         ret \<lparr>single_rerr = single, broadcast_rerr = broadcast,
              num_dests = num_dests v + 2, dest_ip_seq_pairs = pairs\<rparr>))))
       else ret v) (\<lambda>v' s. ok H' L' s \<and> rerr_vars n (Suc (unat i)) v')"
    if "a \<in> fst ` L'" for H' L' a b e
  proof (cases b)
    case False
    then show ?thesis using v rerr_vars_mono by (auto simp: triple_def ret_def)
  next
    case True
    show ?thesis
      unfolding if_P[OF True] split_def
      apply (rule triple_bnd[OF triple_pre[OF _ note_precursors_ok[OF that, where H = H']]])
       apply (use True in simp)
      apply (rule triple_lift, simp add: rerr_vars_room[OF v])
      apply (rule triple_lift, erule rd, simp)
      apply (rule triple_lift)
       apply (use v in \<open>auto simp: put_word_def rerr_vars_def split: if_splits\<close>)[1]
      apply (rule triple_ret, rule conjI, assumption, rule rerr_vars_add[OF v(1)])
      using v by (auto simp: put_word_def rerr_vars_def split: if_splits)
  qed
  show ?thesis
    unfolding recv_rerr_pair_def block.simps
    apply (rule triple_lift, erule rd, simp)
    apply (rule triple_lookup)
     apply (simp add: skip)
    apply (simp only: option.distinct if_False)
    apply (rule triple_bnd[OF triple_deref], simp)
    apply (rule triple_if, rule skip, blast)
    apply (rule triple_lock, simp, use H in blast)
    apply (rule triple_bnd[OF triple_has_precursors], simp)
    apply (rule triple_bnd[OF noted], simp)
    apply (rule triple_pure)
    apply (rule triple_lift, erule rd, simp)
    apply (rule triple_sq[OF triple_forget[where L = L]])
    by (rule handler_rules triple_ret | assumption | (simp; fail) | blast)+
qed

text \<open>The loop has ended before the fuel, one more than the count, is used up.\<close>

lemma recv_rerr_loop_ok:
  assumes H: "H \<noteq> {} \<Longrightarrow> Deadlock \<in> F" and B: "length bs < 8 * unat count \<Longrightarrow> Out_of_bounds \<in> F"
  shows "unat count < fuel + unat i \<Longrightarrow> i \<le> count \<Longrightarrow> rerr_vars (unat count) (unat i) v \<Longrightarrow>
    triple F (ok H L) (recv_rerr_loop fuel sender_ip bs count i v)
      (\<lambda>v' s. ok H L s \<and> rerr_vars (unat count) (unat count) v')"
proof (induction fuel arbitrary: i v)
  case 0
  then show ?case by (simp add: word_le_nat_alt)
next
  case (Suc fuel)
  show ?case
  proof (cases "i < count")
    case False
    with Suc.prems have "i = count" by simp
    then show ?thesis using Suc.prems by (auto simp: triple_def ret_def)
  next
    case True
    then have i: "unat i < unat count" by (simp add: word_less_nat_alt)
    have "unat (i + 1) = Suc (unat i)"
      using i unsigned_less[of count, where ?'a = nat] by (simp add: unat_word_ariths)
    with True Suc.prems(1) Suc.IH[of "i + 1"] show ?thesis
      by (auto simp: inc_le intro!: triple_bnd[OF recv_rerr_pair_ok[OF H B Suc.prems(3) i]] triple_pure)
  qed
qed

text \<open>A message that is as long as its count says.\<close>

definition rerr_complete :: "u8 list \<Rightarrow> bool" where
  "rerr_complete bs \<longleftrightarrow> (case decode_rerr bs of Inl _ \<Rightarrow> False
     | Inr h \<Rightarrow> sizeof_rerr + 8 * unat (rerr_dest_count h) \<le> length bs)"

lemma rerr_vars_message:
  assumes "rerr_vars n n v" and "num_dests v \<noteq> 0"
  shows "\<exists>buf size. generate_rerr_message_buff 0 (num_dests v div 2) (dest_ip_seq_pairs v) = Inr (Some (buf, size))"
proof -
  have "2 \<le> unat (num_dests v)"
    using assms unsigned_eq_0_iff[of "num_dests v"] by (auto simp: rerr_vars_def elim!: evenE)
  then have "0 < unat (num_dests v div 2)" by (simp add: unat_div)
  then have "num_dests v div 2 \<noteq> 0" by (metis less_irrefl unsigned_0)
  moreover have "2 * unat (num_dests v div 2) \<le> length (dest_ip_seq_pairs v)"
    using assms(1) by (auto simp: rerr_vars_def unat_div)
  ultimately show ?thesis by (auto simp: generate_rerr_message_buff_def Let_def)
qed

lemma recv_rerr_ok:
  assumes H: "H \<noteq> {} \<Longrightarrow> Deadlock \<in> F" and B: "\<not> rerr_complete bs \<Longrightarrow> Out_of_bounds \<in> F"
  shows "triple F (ok H L) (recv_rerr sender_ip bs) (\<lambda>_. ok H L)"
  unfolding recv_rerr_def Let_def
proof (rule triple_lift)
  show "f \<in> F" if "decode_rerr bs = Inl f" for f
    using that B by (auto simp: decode_rerr_def rerr_complete_def split: if_splits)
  fix h
  assume h: "decode_rerr bs = Inr h"
  let ?n = "unat (rerr_dest_count h)"
  have "length (drop sizeof_rerr bs) < 8 * ?n \<Longrightarrow> Out_of_bounds \<in> F"
    using B h by (auto simp: rerr_complete_def)
  note loop = recv_rerr_loop_ok[OF H this, where fuel = 257 and i = 0]
  have "triple F (ok H L)
    (if num_dests v = 0 then ret LOGGING
     else bnd (lift_sum (generate_rerr_message_buff 0 (num_dests v div 2) (dest_ip_seq_pairs v))) (\<lambda>r.
       case r of None \<Rightarrow> fail Null_deref
       | Some (rerr_buff, _) \<Rightarrow>
           sq (if single_rerr v \<noteq> 0 \<and> broadcast_rerr v = 0
               then SendUnicast (single_rerr v) rerr_buff (4 + 4 * unat (num_dests v))
               else SendBroadcast rerr_buff (4 + 4 * unat (num_dests v)))
           (ret LOGGING))) (\<lambda>_. ok H L)"
    if "rerr_vars ?n ?n v" for v
    using rerr_vars_message[OF that]
    by (auto simp: lift_sum_def intro!: triple_ret_same triple_sq[OF triple_api(3)] triple_sq[OF triple_api(4)])
  then show "triple F (ok H L)
    (bnd (recv_rerr_loop 257 sender_ip (drop sizeof_rerr bs) (rerr_dest_count h) 0
            \<lparr>single_rerr = 0, broadcast_rerr = 0, num_dests = 0,
             dest_ip_seq_pairs = replicate (2 * ?n) 0\<rparr>) (\<lambda>v.
     if num_dests v = 0 then ret LOGGING
     else bnd (lift_sum (generate_rerr_message_buff 0 (num_dests v div 2) (dest_ip_seq_pairs v))) (\<lambda>r.
       case r of None \<Rightarrow> fail Null_deref
       | Some (rerr_buff, _) \<Rightarrow>
           sq (if single_rerr v \<noteq> 0 \<and> broadcast_rerr v = 0
               then SendUnicast (single_rerr v) rerr_buff (4 + 4 * unat (num_dests v))
               else SendBroadcast rerr_buff (4 + 4 * unat (num_dests v)))
           (ret LOGGING)))) (\<lambda>_. ok H L)"
    by (intro triple_bnd[OF loop triple_pure])
      (use unsigned_less[of "rerr_dest_count h", where ?'a = nat] in \<open>auto simp: rerr_vars_def\<close>)
qed

section \<open>The callbacks\<close>

lemma incoming_data_message_ok:
  assumes "H \<noteq> {} \<Longrightarrow> Deadlock \<in> F"
  shows "triple F (ok H L) (incoming_data_message src dest) (\<lambda>_. ok H L)"
  unfolding incoming_data_message_def block.simps
  by (rule handler_rules | assumption | (simp; fail) | (use assms in blast) | blast)+

text \<open>A payload that is at least as long as its type requires.\<close>

definition complete :: "u8 list \<Rightarrow> bool" where
  "complete payload \<longleftrightarrow> 3 < length payload \<and>
     (payload ! 3 = RREQ_TYPE \<longrightarrow> sizeof_rreq \<le> length payload) \<and>
     (payload ! 3 = RREP_TYPE \<longrightarrow> sizeof_rrep \<le> length payload) \<and>
     (payload ! 3 = RERR_TYPE \<longrightarrow> rerr_complete payload)"

text \<open>The two slots of a reply are different, so that the handler does not lock one entry twice.\<close>

definition reply_slots_differ :: "u8 list \<Rightarrow> bool" where
  "reply_slots_differ payload \<longleftrightarrow> (payload ! 3 = RREP_TYPE \<longrightarrow> (case decode_rrep payload of
       Inl _ \<Rightarrow> True | Inr m \<Rightarrow> slot_of (rrep_src_ip m) \<noteq> slot_of (rrep_dest_ip m)))"

text \<open>The handler may compare numbers with \<open>seq_compare\<close>: for a reply, and for a request that names a number.\<close>

definition compares :: "u8 list \<Rightarrow> bool" where
  "compares payload \<longleftrightarrow> payload ! 3 = RREP_TYPE \<or> payload ! 3 = RREQ_TYPE \<and>
     (case decode_rreq payload of Inl _ \<Rightarrow> False | Inr m \<Rightarrow> \<not> rreq_flag m RREQ_UNKNOWN)"

lemma incoming_control_message_ok:
  assumes H: "H \<noteq> {} \<Longrightarrow> Deadlock \<in> F" and B: "\<not> complete payload \<Longrightarrow> Out_of_bounds \<in> F"
    and D: "\<not> reply_slots_differ payload \<Longrightarrow> Deadlock \<in> F"
    and S: "compares payload \<Longrightarrow> Signed_overflow \<in> F"
  shows "triple F (ok H L) (incoming_control_message src payload) (\<lambda>_. ok H L)"
  unfolding incoming_control_message_def Let_def
proof (intro triple_if triple_bnd[OF triple_gets_ok] triple_ret_same triple_lift)
  show "length payload \<le> 3 \<Longrightarrow> triple F (ok H L) (fail Out_of_bounds) (\<lambda>_. ok H L)"
    using B by (intro triple_fail) (simp add: complete_def)
  show "payload ! 3 = RREQ_TYPE \<Longrightarrow> decode_rreq payload = Inl f \<Longrightarrow> f \<in> F" for f
    using B by (auto simp: decode_rreq_def complete_def split: if_splits)
  show "payload ! 3 = RREP_TYPE \<Longrightarrow> decode_rrep payload = Inl f \<Longrightarrow> f \<in> F" for f
    using B by (auto simp: decode_rrep_def complete_def split: if_splits)
  show "payload ! 3 = RREQ_TYPE \<Longrightarrow> decode_rreq payload = Inr x \<Longrightarrow>
      triple F (ok H L) (recv_rreq src x) (\<lambda>_. ok H L)" for x
    by (rule recv_rreq_ok[OF H S]) (auto simp: compares_def)
  show "payload ! 3 = RREP_TYPE \<Longrightarrow> decode_rrep payload = Inr x \<Longrightarrow>
      triple F (ok H L) (recv_rrep src x) (\<lambda>_. ok H L)" for x
    by (rule recv_rrep_ok[OF H S]) (use D in \<open>auto simp: reply_slots_differ_def compares_def\<close>)
  show "payload ! 3 = RERR_TYPE \<Longrightarrow> triple F (ok H L) (recv_rerr src payload) (\<lambda>_. ok H L)"
    by (rule recv_rerr_ok[OF H]) (use B in \<open>auto simp: complete_def\<close>)
qed

lemma usable_route_ok:
  assumes "p = None \<or> the p \<in> fst ` L"
  shows "triple F (ok H L) (usable_route p) (\<lambda>_. ok H L)"
proof (cases p)
  case None
  then show ?thesis by (simp add: usable_route_def triple_ret_same)
next
  case (Some a)
  with assms have "a \<in> fst ` L" by simp
  then show ?thesis
    unfolding usable_route_def Some
    apply -
    by (rule handler_rules | (simp; fail) | blast)+
qed

lemma outgoing_give_up_ok:
  assumes "H \<noteq> {} \<Longrightarrow> Deadlock \<in> F" and "p = None \<or> the p \<in> fst ` L"
  shows "triple F (ok H L) (outgoing_give_up p) (\<lambda>_. ok H L)"
proof (cases p)
  case None
  then show ?thesis by (simp add: outgoing_give_up_def triple_ret_same)
next
  case (Some a)
  with assms(2) have "a \<in> fst ` L" by simp
  then show ?thesis
    unfolding outgoing_give_up_def block.simps Some
    apply -
    by (rule handler_rules | (simp; fail) | (use assms in blast))+
qed

lemma outgoing_message_ok:
  assumes "H \<noteq> {} \<Longrightarrow> Deadlock \<in> F"
  shows "triple F (ok H L) (outgoing_message dest) (\<lambda>_. ok H {})"
  unfolding outgoing_message_def split_def block.simps
  apply (rule triple_bnd[OF triple_gets_ok], rule triple_if, rule triple_ret_ok, simp)
  apply (rule triple_lookup)
  subgoal
    by (simp add: usable_route_def outgoing_give_up_def)
      (rule triple_sq[OF triple_ret_same triple_post[OF send_rreq_begin_ok[OF assms] ok_empty]])
  subgoal for x a
    by (rule usable_route_ok outgoing_give_up_ok triple_post[OF send_rreq_begin_ok[OF assms] ok_empty]
      handler_rules | assumption | (simp; fail) | (use assms in blast))+
  done

lemma start_call_ok:
  assumes "H \<noteq> {} \<Longrightarrow> Deadlock \<in> F"
  shows "triple F (ok H L) (start_call dest) (\<lambda>_. ok H {})"
  unfolding start_call_def
  by (rule triple_bnd[OF outgoing_message_ok[OF assms]], assumption)
    (auto intro: triple_ret_same triple_pending split: call.split)

text \<open>A call that waits on an entry can find it freed.\<close>

lemma idle_basic:
  "triple UNIV (idle a) (SendUnicast ip buf n) (\<lambda>_. idle a)"
  "triple UNIV (idle a) (gets g) (\<lambda>_. idle a)"
  "triple UNIV (idle a) (deref p) (\<lambda>_. idle a)"
  "triple UNIV (idle a) (mutex_lock p) (\<lambda>_. idle a)"
  "triple UNIV (idle a) (mutex_unlock p) (\<lambda>_. idle a)"
  by (auto simp: triple_def idle_def SendUnicast_def emit_def bnd_def modify_def gets_def deref_def
      mutex_lock_def mutex_unlock_def write_entry_def fail_def split: sum.splits option.splits)

lemma triple_search_none:
  "triple F (\<lambda>s. ok H L s \<and> idle a s)
    (write_entry (Some a) (\<lambda>e. e\<lparr>rreq_search := SEARCH_NONE\<rparr>)) (\<lambda>_. ok H L)"
proof (rule triple_total, elim conjE)
  fix s
  assume s: "ok H L s" and "idle a s"
  then obtain e where e: "heap s a = Some e" "rreq_search e \<noteq> SEARCH_SEARCHING"
    by (auto simp: idle_def)
  let ?e = "e\<lparr>rreq_search := SEARCH_NONE\<rparr>"
  let ?r = "s\<lparr>heap := (heap s)(a \<mapsto> ?e)\<rparr>"
  have "ok H L ?r"
  proof (rule ok_update[OF s e(1), where e' = ?e])
    show "entry_ok ?e" using ok_entry_ok[OF s e(1)] by (simp add: entry_ok_def)
    show "handles_below (next_tid ?r) ?e"
      using ok_handles[OF s e(1)] by (simp add: handles_below_def)
    fix i th
    assume "threads ?r i = Some th"
    then have "thread_ok (heap s) i th" "0 < i" "i < next_tid s" using ok_threadD[OF s] by auto
    with e show "0 < i \<and> i < next_tid ?r \<and> thread_ok (heap ?r) i th"
      by (auto simp: thread_ok_def split: thread.splits)
  qed simp_all
  then show "\<exists>x s'. write_entry (Some a) (\<lambda>e. e\<lparr>rreq_search := SEARCH_NONE\<rparr>) s = Inr (x, s') \<and> ok H L s'"
    using e by (simp add: write_entry_def)
qed

lemma send_rreq_end_ok:
  assumes H: "H \<noteq> {} \<Longrightarrow> Deadlock \<in> F" and a: "a \<in> fst ` L"
  shows "triple F (\<lambda>s. ok H L s \<and> idle a s) (send_rreq_end (Some a)) (\<lambda>_. ok H L)"
proof -
  have dead: "a \<in> H \<Longrightarrow> Deadlock \<in> F" using H by blast
  have "triple F (\<lambda>s. ok H L s \<and> idle a s)
     (if outcome = SEARCH_FAILED then
         sq (block [mutex_lock (Some a), set_expiration_timer (Some a) 500, mutex_unlock (Some a)])
         (ret PACKET_DROP)
       else
         sq (write_entry (Some a) (\<lambda>e. e\<lparr>rreq_search := SEARCH_NONE\<rparr>)) (ret PACKET_ACCEPT)) (\<lambda>_. ok H L)"
    for outcome
    unfolding block.simps
    by (rule triple_if, rule triple_pre[where P' = "ok H L"], erule conjunct1)
      (rule triple_sq[OF triple_search_none] handler_rules | assumption | rule a dead | (simp; fail))+
  note last_part = this
  have un: "insert a H - {a} = H" if "a \<notin> H" using that by simp
  show ?thesis
    unfolding send_rreq_end_def Let_def split_def
    by (rule frame_lock[OF a dead idle_basic(4)], assumption,
      rule triple_bnd[OF frame[OF triple_deref[OF a] idle_basic(3)]],
      rule triple_sq[OF frame[OF triple_unlock_last[OF _ a] idle_basic(5)]], assumption,
      rule triple_sq[OF triple_when_same last_part],
      rule triple_bnd[OF frame[OF triple_gets_ok idle_basic(2)]],
      rule frame[OF triple_api(3) idle_basic(1)])
qed

lemma resume_call_ok:
  assumes H: "H \<noteq> {} \<Longrightarrow> Deadlock \<in> F" and U: "Use_after_free \<in> F"
  shows "triple F (ok H L) (resume_call a) (\<lambda>_. ok H {})"
proof -
  have over: "triple F (\<lambda>s. ok H L s \<and> heap s a = Some e)
     (bnd (search_over (Some a)) (\<lambda>over. when_p over
          (bnd (send_rreq_end (Some a)) (\<lambda>_. modify (\<lambda>s. s\<lparr>pending := remove1 a (pending s)\<rparr>)))))
     (\<lambda>_. ok H {})" for e
  proof (cases "rreq_search e = SEARCH_SEARCHING")
    case True
    then show ?thesis
      by (auto simp: triple_def search_over_def deref_def bnd_def ret_def intro: ok_empty)
  next
    case False
    let ?L = "insert (a, slot_of (dest_ip e)) L"
    have "triple F (\<lambda>s. ok H ?L s \<and> idle a s) (bnd (send_rreq_end (Some a))
        (\<lambda>_. modify (\<lambda>s. s\<lparr>pending := remove1 a (pending s)\<rparr>))) (\<lambda>_. ok H ?L)"
      by (rule triple_bnd[OF send_rreq_end_ok[OF H] triple_pending]) simp_all
    then have "triple F (\<lambda>s. ok H L s \<and> heap s a = Some e) (bnd (send_rreq_end (Some a))
        (\<lambda>_. modify (\<lambda>s. s\<lparr>pending := remove1 a (pending s)\<rparr>))) (\<lambda>_. ok H {})"
      by (rule triple_weaken) (use False ok_empty in \<open>auto simp: ok_def idle_def\<close>)
    with False show ?thesis
      by (auto simp: triple_def search_over_def deref_def bnd_def ret_def)
  qed
  have "triple F (ok H L) (bnd (search_over (Some a)) (\<lambda>over. when_p over
          (bnd (send_rreq_end (Some a)) (\<lambda>_. modify (\<lambda>s. s\<lparr>pending := remove1 a (pending s)\<rparr>)))))
     (\<lambda>_. ok H {})" (is "triple F _ ?m _")
    unfolding triple_def
  proof (intro allI impI)
    fix s
    assume s: "ok H L s"
    show "case ?m s of Inl f \<Rightarrow> f \<in> F | Inr (x, s') \<Rightarrow> ok H {} s'"
    proof (cases "heap s a")
      case None
      then show ?thesis using U by (simp add: search_over_def deref_def bnd_def)
    next
      case (Some e)
      then show ?thesis using over s unfolding triple_def by blast
    qed
  qed
  then show ?thesis
    unfolding resume_call_def
    by (intro triple_bnd[OF triple_gets_ok] triple_when) (auto intro: ok_empty)
qed

section \<open>Forwarding\<close>

lemma rerr_one: "\<exists>buf n. generate_rerr_message 0 1 [x, y] = Inr (Some (buf, n))"
  by (simp add: generate_rerr_message_def Let_def)

lemma forward_no_route_None: "triple F (ok H L) (forward_no_route dest None) (\<lambda>_. ok H L)"
  using rerr_one[of dest 0]
  by (auto simp: forward_no_route_def lift_sum_def intro!: triple_sq[OF triple_api(4)] triple_ret_same)

lemma forward_no_route_ok:
  assumes "a \<notin> H" and "a \<in> fst ` L"
  shows "triple F (ok (insert a H) L) (forward_no_route dest (Some a)) (\<lambda>_. ok H L)"
proof -
  have "triple F (ok (insert a H) L)
      (bnd (deref (Some a)) (\<lambda>e. bnd (lift_sum (generate_rerr_message 0 1 [dest, dest_ip e])) (\<lambda>r.
            sq (mutex_unlock (Some a)) (ret r)))) (\<lambda>r s. ok H L s \<and> (\<exists>buf n. r = Some (buf, n)))"
  proof (rule triple_bnd[OF triple_deref[OF assms(2)]])
    fix e :: routing_entry
    obtain buf n where "generate_rerr_message 0 1 [dest, dest_ip e] = Inr (Some (buf, n))"
      using rerr_one by blast
    then show "triple F (ok (insert a H) L) (bnd (lift_sum (generate_rerr_message 0 1 [dest, dest_ip e])) (\<lambda>r.
            sq (mutex_unlock (Some a)) (ret r))) (\<lambda>r s. ok H L s \<and> (\<exists>buf n. r = Some (buf, n)))"
      by (auto simp: lift_sum_def intro!: triple_sq[OF triple_unlock_last[OF assms]] triple_ret)
  qed
  then show "triple F (ok (insert a H) L) (forward_no_route dest (Some a)) (\<lambda>_. ok H L)"
    unfolding forward_no_route_def
    by (simp, elim triple_bnd)
      (auto intro!: triple_pure triple_sq[OF triple_api(4)] triple_ret_same)
qed

text \<open>The branch for a broken next hop starts by locking it a second time.\<close>

lemma forward_rerr_deadlocks:
  assumes "ok H L s" and "b \<in> H"
  shows "forward_rerr p (Some b) s = Inl Deadlock"
proof -
  obtain e where "heap s b = Some e" "entry_mutex e" using assms by (auto simp: ok_def held_def)
  then show ?thesis by (simp add: forward_rerr_def prog_simps mutex_lock_def deref_def)
qed

lemma forward_accept_ok:
  assumes "Deadlock \<in> F" and "a \<notin> H" and "a \<in> fst ` L" and "p = None \<or> the p \<in> fst ` L"
  shows "triple F (ok (insert a H) L) (forward_accept (Some a) p) (\<lambda>_. ok H L)"
proof (cases p)
  case None
  show ?thesis
    unfolding None forward_accept_def by (rule handler_rules assms | (simp; fail))+
next
  case (Some b)
  then have "b \<in> fst ` L" using assms(4) by simp
  then show ?thesis
    unfolding Some forward_accept_def block.simps
    apply -
    by (rule handler_rules assms | (simp; fail))+
qed

text \<open>
  What a forwarded packet can leave locked: nothing, or the next hop of a destination that has no
  valid route.
\<close>

definition leaves :: "addr set \<Rightarrow> node \<Rightarrow> bool" where
  "leaves H s \<longleftrightarrow> (\<exists>b. ok H {} s \<or> ok (insert b H) {} s)"

lemma triple_leaves:
  "triple F P m (\<lambda>_. ok H L) \<Longrightarrow> triple F P m (\<lambda>_. leaves H)"
  "triple F P m (\<lambda>_. ok (insert b H) L) \<Longrightarrow> triple F P m (\<lambda>_. leaves H)"
  by (erule triple_post; auto simp: leaves_def intro: ok_empty)+

definition dest_is :: "addr \<Rightarrow> u32 \<Rightarrow> node \<Rightarrow> bool" where
  "dest_is a ip s \<longleftrightarrow> (\<exists>e. heap s a = Some e \<and> dest_ip e = ip)"

lemma dest_is_lock: "triple UNIV (dest_is b ip) (mutex_lock (Some a)) (\<lambda>_. dest_is b ip)"
  by (auto simp: triple_def dest_is_def mutex_lock_def bnd_def deref_def write_entry_def fail_def
      split: sum.splits option.splits)

lemma triple_deref_dest:
  assumes "a \<in> fst ` L"
  shows "triple F (\<lambda>s. ok H L s \<and> dest_is a ip s) (deref (Some a)) (\<lambda>e s. ok H L s \<and> dest_ip e = ip)"
  by (auto simp: triple_def deref_def dest_is_def)

text \<open>The next hop is another entry: it is locked.\<close>

lemma forward_other_ok:
  assumes D: "Deadlock \<in> F" and a: "a \<notin> H" "a \<in> fst ` L" and b: "b \<in> fst ` L"
    and p: "p = None \<or> the p \<in> fst ` L" and ip: "ip \<noteq> dest_ip e"
  shows "triple F (\<lambda>s. ok (insert a H) L s \<and> dest_is b ip s)
    (sq (mutex_lock (Some b)) (bnd (deref (Some b)) (\<lambda>h.
      if status e = ROUTE_VALID \<and> status h = ROUTE_VALID then
        sq (when_p (dest_ip h \<noteq> dest_ip e) (mutex_unlock (Some b))) (forward_accept (Some a) p)
      else if status e = ROUTE_VALID then forward_rerr (Some a) (Some b)
      else forward_no_route dest (Some a)))) (\<lambda>_. leaves H)"
proof (rule frame_lock[OF b D dest_is_lock], rule triple_bnd[OF triple_deref_dest[OF b]],
    rule triple_pure, intro triple_if)
  fix h
  assume "b \<notin> insert a H" and h: "dest_ip h = ip"
  then have b': "a \<notin> insert b H" "b \<notin> insert a H" using a by auto
  show "triple F (ok (insert b (insert a H)) L)
      (sq (when_p (dest_ip h \<noteq> dest_ip e) (mutex_unlock (Some b))) (forward_accept (Some a) p))
      (\<lambda>_. leaves H)"
    using ip h
    by (simp add: triple_sq[OF triple_unlock_last[OF b'(2) b] triple_leaves(1)[OF forward_accept_ok[OF D a p]]])
  show "triple F (ok (insert b (insert a H)) L) (forward_rerr (Some a) (Some b)) (\<lambda>_. leaves H)"
    using D by (simp add: triple_def forward_rerr_deadlocks)
  show "triple F (ok (insert b (insert a H)) L) (forward_no_route dest (Some a)) (\<lambda>_. leaves H)"
    using triple_leaves(2)[OF forward_no_route_ok[OF b'(1) a(2)]] by (simp add: insert_commute)
qed

lemma forward_through_ok:
  assumes D: "Deadlock \<in> F" and a: "a \<notin> H" "a \<in> fst ` L" and b: "b \<in> fst ` L"
    and p: "p = None \<or> the p \<in> fst ` L"
  shows "triple F (\<lambda>s. ok (insert a H) L s \<and> heap s a = Some e)
    (forward_through dest (Some a) p (Some b) e) (\<lambda>_. leaves H)"
  unfolding triple_def
proof (intro allI impI, elim conjE)
  fix s
  assume s: "ok (insert a H) L s" and e: "heap s a = Some e"
  obtain h where h: "heap s b = Some h" using ok_entry[OF s b] by blast
  let ?good = "\<lambda>r. case r of Inl f \<Rightarrow> f \<in> F | Inr (x, s') \<Rightarrow> leaves H s'"
  show "?good (forward_through dest (Some a) p (Some b) e s)"
  proof (cases "dest_ip h = dest_ip e")
    case True
    then have "a = b" using same_slot[OF _ e h] s by (simp add: ok_def)
    with e h have "forward_through dest (Some a) p (Some b) e s =
        (if status e = ROUTE_VALID then forward_accept (Some a) p
         else forward_no_route dest (Some a)) s"
      by (cases "status e") (simp_all add: forward_through_def deref_def prog_simps)
    moreover have "triple F (ok (insert a H) L) (if status e = ROUTE_VALID then forward_accept (Some a) p
         else forward_no_route dest (Some a)) (\<lambda>_. leaves H)"
      by (intro triple_if triple_leaves(1)[OF forward_accept_ok[OF D a p]]
          triple_leaves(1)[OF forward_no_route_ok[OF a]])
    ultimately show ?thesis using s unfolding triple_def by simp
  next
    case False
    have "dest_is b (dest_ip h) s" using h by (simp add: dest_is_def)
    moreover have "forward_through dest (Some a) p (Some b) e s =
      sq (mutex_lock (Some b)) (bnd (deref (Some b)) (\<lambda>h.
        if status e = ROUTE_VALID \<and> status h = ROUTE_VALID then
          sq (when_p (dest_ip h \<noteq> dest_ip e) (mutex_unlock (Some b))) (forward_accept (Some a) p)
        else if status e = ROUTE_VALID then forward_rerr (Some a) (Some b)
        else forward_no_route dest (Some a))) s"
      using h False by (simp add: forward_through_def deref_def bnd_eqs)
    ultimately show ?thesis
      using forward_other_ok[OF D a b p False] s unfolding triple_def by simp
  qed
qed

lemma forwarded_messages_ok:
  assumes D: "Deadlock \<in> F"
  shows "triple F (ok H L) (forwarded_messages src dest) (\<lambda>_. leaves H)"
proof -
  have known: "triple F (ok H L) (sq (mutex_lock (Some a)) (bnd (deref (Some a)) (\<lambda>e.
        bnd (lookup_route (next_hop e)) (\<lambda>dest_hop.
        if dest_hop = None then forward_no_route dest (Some a)
        else forward_through dest (Some a) p dest_hop e)))) (\<lambda>_. leaves H)"
    if a: "a \<in> fst ` L" and p: "p = None \<or> the p \<in> fst ` L" for a p L
  proof (rule triple_lock[OF a D], rule triple_bnd[OF triple_deref_entry[OF a]],
      rule triple_lookup_keep; simp only: option.distinct if_False refl if_True)
    fix e b
    assume a': "a \<notin> H"
    show "triple F (\<lambda>s. ok (insert a H) L s \<and> heap s a = Some e) (forward_no_route dest (Some a))
        (\<lambda>_. leaves H)"
      by (rule triple_pre[OF _ triple_leaves(1)[OF forward_no_route_ok[OF a' a]]]) simp
    show "triple F (\<lambda>s. ok (insert a H) (insert (b, slot_of (next_hop e)) L) s \<and> heap s a = Some e)
        (forward_through dest (Some a) p (Some b) e) (\<lambda>_. leaves H)"
      by (rule forward_through_ok[OF D a']) (use a p in auto)
  qed
  show ?thesis
    unfolding forwarded_messages_def
    by (rule triple_lookup; rule triple_lookup)
      (simp_all only: option.distinct if_False refl if_True triple_leaves(1)[OF forward_no_route_None],
        (rule known; simp)+)
qed

section \<open>Everything a node does\<close>

text \<open>
  From a state in which nothing is locked, each action keeps the invariant, and what it can fail
  with depends on it alone.
\<close>

primrec action_faults :: "action \<Rightarrow> fault set" where
  "action_faults (Data_in src dest) = {}"
| "action_faults (Control_in src payload) =
     (if compares payload then {Signed_overflow} else {})
     \<union> (if complete payload then {} else {Out_of_bounds})
     \<union> (if reply_slots_differ payload then {} else {Deadlock})"
| "action_faults (Data_out dest) = {}"
| "action_faults (Forward src dest) = {Deadlock}"
| "action_faults (Resume a) = {Use_after_free}"
| "action_faults (Run t) = {}"

lemma triple_exec:
  assumes "H \<noteq> {} \<Longrightarrow> Deadlock \<in> F" and "action_faults act \<subseteq> F"
  shows "triple F (ok H {}) (exec act) (\<lambda>_. leaves H)"
proof -
  have keep: "triple F (ok H {}) m (\<lambda>_. leaves H)" if "triple F (ok H {}) m (\<lambda>_. ok H {})" for m :: "(node, unit) prog"
    by (rule triple_post[OF that]) (auto simp: leaves_def)
  show ?thesis
  proof (cases act)
    case (Data_in src dest)
    then show ?thesis
      by (auto intro!: keep triple_sq[OF incoming_data_message_ok] triple_ret_same assms)
  next
    case (Control_in src payload)
    then show ?thesis
      using assms by (auto intro!: keep triple_sq[OF incoming_control_message_ok] triple_ret_same)
  next
    case (Data_out dest)
    then show ?thesis by (auto intro!: keep start_call_ok assms)
  next
    case (Forward src dest)
    then show ?thesis
      using assms by (auto intro!: triple_sq[OF forwarded_messages_ok] triple_ret_same)
  next
    case (Resume a)
    then show ?thesis using assms by (auto intro!: keep resume_call_ok)
  next
    case (Run t)
    then show ?thesis by (auto intro!: keep run_thread_ok assms)
  qed
qed

end
