(* ===== verification/System.thy ===== *)
theory System
  imports Handler_Inv
begin

text \<open>
  A node over time: the states it reaches from \<open>main_init\<close> by any interleaving of packets,
  resumed calls and thread steps, and what holds in all of them. The locale
  \<open>transition_system\<close> is the interface of a system with an invariant; the node is its
  interpretation \<open>node_sys\<close>.
\<close>

section \<open>Transition systems\<close>

inductive reach :: "('s \<Rightarrow> bool) \<Rightarrow> ('s \<Rightarrow> 'a \<Rightarrow> 's \<Rightarrow> bool) \<Rightarrow> 's \<Rightarrow> bool"
  for init :: "'s \<Rightarrow> bool" and step :: "'s \<Rightarrow> 'a \<Rightarrow> 's \<Rightarrow> bool"
where
  reach_init: "init s \<Longrightarrow> reach init step s"
| reach_step: "reach init step s \<Longrightarrow> step s a s' \<Longrightarrow> reach init step s'"

locale transition_system =
  fixes init :: "'s \<Rightarrow> bool" and step :: "'s \<Rightarrow> 'a \<Rightarrow> 's \<Rightarrow> bool" and inv :: "'s \<Rightarrow> bool"
  assumes init_inv: "init s \<Longrightarrow> inv s"
    and step_inv: "inv s \<Longrightarrow> step s a s' \<Longrightarrow> inv s'"
begin

lemma reach_inv: "reach init step s \<Longrightarrow> inv s"
  by (induction rule: reach.induct) (auto intro: init_inv step_inv)

lemma reach_consequence: "reach init step s \<Longrightarrow> (\<And>s. inv s \<Longrightarrow> P s) \<Longrightarrow> P s"
  using reach_inv by blast

lemma reach_step_property:
  assumes "reach init step s" and "step s a s'" and "\<And>s s'. inv s \<Longrightarrow> inv s' \<Longrightarrow> step s a s' \<Longrightarrow> P s s'"
  shows "P s s'"
  using assms reach_inv step_inv by blast

end

section \<open>The node\<close>

inductive node_step :: "node \<Rightarrow> action \<Rightarrow> node \<Rightarrow> bool" where
  node_stepI: "exec act s = Inr ((), s') \<Longrightarrow> node_step s act s'"

inductive_simps node_step_iff: "node_step s act s'"

inductive node_init :: "node \<Rightarrow> bool" where
  node_initI: "node_init (main_init own_ip bcast w)"

inductive_cases node_initE: "node_init s"

definition reachable :: "node \<Rightarrow> bool" where
  "reachable = reach node_init node_step"

lemma node_inv_init: "node_inv (main_init own_ip bcast w)"
  by (auto simp: node_inv_def table_inv_def threads_inv_def main_init_def create_routing_table_def
      create_data_header_def thread_ok_def)

lemma ok_iff: "ok H {} s \<longleftrightarrow> node_inv s \<and> held s = H"
  by (simp add: ok_def)

lemma held_init: "held (main_init own_ip bcast w) = {}"
  by (simp add: held_def main_init_def)

lemma node_step_inv:
  assumes "node_inv s" and "node_step s act s'"
  shows "node_inv s'"
proof -
  have "triple UNIV (ok (held s) {}) (exec act) (\<lambda>_. leaves (held s))"
    by (rule triple_exec) simp_all
  moreover have "ok (held s) {} s" "exec act s = Inr ((), s')"
    using assms by (auto simp: node_step_iff ok_iff)
  ultimately have "leaves (held s) s'" by (rule triple_result)
  then show ?thesis by (auto simp: leaves_def ok_iff)
qed

interpretation node_sys: transition_system node_init node_step node_inv
  by unfold_locales (auto elim!: node_initE intro: node_inv_init node_step_inv)

lemma reachableI: "node_init s \<Longrightarrow> reachable s" "reachable s \<Longrightarrow> node_step s act s' \<Longrightarrow> reachable s'"
  unfolding reachable_def by (fact reach_init) (fact reach_step)

lemma reachable_ok: "reachable s \<Longrightarrow> ok (held s) {} s"
  unfolding reachable_def by (drule node_sys.reach_inv) (simp add: ok_iff)

text \<open>A sequence of actions, and the state after it, from a sample node 10.0.0.1.\<close>

primrec run :: "action list \<Rightarrow> (node, unit) prog" where
  "run [] = ret ()"
| "run (a # as) = sq (exec a) (run as)"

definition sample_world :: world where
  "sample_world = \<lparr>clock = (\<lambda>n. \<lparr>tv_sec = int n, tv_nsec = 0\<rparr>), entry_junk = (\<lambda>_. 0),
     prefix_junk = (\<lambda>_. 0), heap_junk = (\<lambda>_. 0), timing_text = (\<lambda>_. [])\<rparr>"

definition sample_node :: node where
  "sample_node = main_init 0x0A000001 0x0AFFFFFF sample_world"

text \<open>A request of 12.0.0.1 for 13.0.0.1, two hops on its way.\<close>

definition sample_request :: rreq_header where
  "sample_request = \<lparr>rreq_hop_count = 2, rreq_ttl = 5, rreq_flags = 0, rreq_type = RREQ_TYPE,
     rreq_rreq_id = 7, rreq_dest_ip = 0x0D000001, rreq_dest_seq = 3, rreq_src_ip = 0x0C000001,
     rreq_src_seq = 9\<rparr>"

definition after :: "action list \<Rightarrow> node" where
  "after as = (case run as sample_node of Inl _ \<Rightarrow> sample_node | Inr (_, s) \<Rightarrow> s)"

lemma run_reach:
  assumes "\<And>s a s'. a \<in> set as \<Longrightarrow> exec a s = Inr ((), s') \<Longrightarrow> step s a s'"
  shows "reach init step s \<Longrightarrow> run as s = Inr ((), s') \<Longrightarrow> reach init step s'"
  using assms
proof (induction as arbitrary: s)
  case Nil
  then show ?case by (simp add: ret_def)
next
  case (Cons a as)
  then obtain t where "exec a s = Inr ((), t)" "run as t = Inr ((), s')"
    by (auto simp: sq_def bnd_Inr_iff)
  moreover from this Cons.prems have "step s a t" by simp
  ultimately show ?case using Cons.IH[of t] Cons.prems by (auto intro: reach_step[of init step s a t])
qed

lemma after_reach:
  assumes "\<And>s a s'. a \<in> set as \<Longrightarrow> exec a s = Inr ((), s') \<Longrightarrow> step s a s'"
  shows "reach node_init step (after as)"
proof -
  have init: "reach node_init step sample_node"
    unfolding sample_node_def by (intro reach_init node_initI)
  then show ?thesis
    using run_reach[OF assms init] by (auto simp: after_def split: sum.split)
qed

lemma reachable_after: "reachable (after as)"
  unfolding reachable_def by (rule after_reach) (rule node_stepI)

text \<open>
  C1: Every state a node reaches, whatever the packets it gets and however its threads
  interleave, satisfies the invariant: the table and the entries agree, the lists of every
  entry are well-formed, and every thread works on an entry that is allocated and knows it.
\<close>

theorem reachable_inv: "reachable s \<Longrightarrow> node_inv s"
  unfolding reachable_def by (rule node_sys.reach_inv)

theorem reachable_inv_witness:
  "node_inv (after [Data_out 0x0B000001, Run 2]) \<and>
   routes (after [Data_out 0x0B000001, Run 2]) 0x0B = Some 0 \<and>
   (\<exists>m d. threads (after [Data_out 0x0B000001, Run 2]) 2 = Some (Rreq_ring_sleep 0 m 1 d))"
proof (intro conjI reachable_inv[OF reachable_after])
  show "routes (after [Data_out 0x0B000001, Run 2]) 0x0B = Some 0" by code_simp
  have "(case threads (after [Data_out 0x0B000001, Run 2]) 2 of
      Some (Rreq_ring_sleep a m ttl d) \<Rightarrow> a = 0 \<and> ttl = 1 | _ \<Rightarrow> False)" by code_simp
  then show "\<exists>m d. threads (after [Data_out 0x0B000001, Run 2]) 2 = Some (Rreq_ring_sleep 0 m 1 d)"
    by (auto split: option.splits thread.splits)
qed

definition expires :: "node \<Rightarrow> tid \<Rightarrow> addr \<Rightarrow> bool" where
  "expires s t a \<longleftrightarrow> (case threads s t of Some (Expiration b) \<Rightarrow> b = a
     | Some (Expiration_sleep b d) \<Rightarrow> b = a | _ \<Rightarrow> False)"

lemma expires_handle:
  assumes "ok H L s" and "expires s t a"
  shows "\<exists>e. heap s a = Some e \<and> expiration_thread e = t"
proof -
  obtain th where th: "threads s t = Some th" using assms(2) by (auto simp: expires_def split: option.splits)
  with ok_threadD(3)[OF assms(1) th] assms(2) show ?thesis
    by (auto simp: expires_def thread_ok_def split: thread.splits)
qed

text \<open>
  C23: Two timers never run for one route: the expiration threads of one entry in a reachable
  state are one thread. (\<open>set_expiration_timer\<close> cancels the thread it replaces.)
\<close>

theorem one_timer_per_entry: "reachable s \<Longrightarrow> expires s t a \<Longrightarrow> expires s t' a \<Longrightarrow> t = t'"
  using expires_handle[OF reachable_ok, of s t a] expires_handle[OF reachable_ok, of s t' a] by auto

text \<open>Steps of a node that forwards nothing.\<close>

inductive quiet_step :: "node \<Rightarrow> action \<Rightarrow> node \<Rightarrow> bool" where
  quiet_stepI: "exec act s = Inr ((), s') \<Longrightarrow> (\<nexists>src dest. act = Forward src dest) \<Longrightarrow> quiet_step s act s'"

inductive_simps quiet_step_iff: "quiet_step s act s'"

lemma quiet_exec:
  assumes "action_faults act \<subseteq> F" and "\<nexists>src dest. act = Forward src dest"
  shows "triple F (ok {} {}) (exec act) (\<lambda>_. ok {} {})"
  using assms
  by (cases act)
    (auto intro!: triple_sq[OF incoming_data_message_ok] triple_sq[OF incoming_control_message_ok]
      triple_ret_same start_call_ok resume_call_ok run_thread_ok)

lemma quiet_step_inv:
  assumes "ok {} {} s" and "quiet_step s act s'"
  shows "ok {} {} s'"
  using assms triple_result[OF quiet_exec[of act UNIV] assms(1)] by (auto simp: quiet_step_iff)

interpretation quiet_sys: transition_system node_init quiet_step "ok {} {}"
proof unfold_locales
  show "ok {} {} s" if "node_init s" for s
    using that by (auto elim!: node_initE simp: ok_iff node_inv_init held_init)
qed (rule quiet_step_inv)

theorem one_timer_per_entry_witness:
  "{t. expires (after [Control_in 0x0B000001 (encode_rreq sample_request)]) t 0} = {2}"
proof -
  have "expires (after [Control_in 0x0B000001 (encode_rreq sample_request)]) 2 0" by code_simp
  then show ?thesis using one_timer_per_entry[OF reachable_after] by blast
qed

text \<open>
  C2: A node that has forwarded no packet has no mutex held between two actions, so every
  handler and thread releases what it locks, and what an action can fail with is bounded by the
  action alone: reading past a payload that is too short, the overflow of \<open>seq_compare\<close> on a
  reply or on a request that names a number, a reply whose source and destination fall into one slot
  (a deadlock), forwarding (a deadlock), and a call that waits on an entry that was freed. No action follows a null pointer, unlocks a mutex it
  does not hold, destroys a locked one, or loops for ever.
\<close>

theorem quiet_node_safe:
  assumes "reach node_init quiet_step s"
  shows "held s = {} \<and> (case exec act s of Inl f \<Rightarrow> f \<in> action_faults act | Inr _ \<Rightarrow> True)"
proof -
  have s: "ok {} {} s" using assms by (rule quiet_sys.reach_inv)
  moreover have "triple (action_faults act) (ok {} {}) (exec act) (\<lambda>_. leaves {})"
    by (rule triple_exec) simp_all
  ultimately have "case exec act s of Inl f \<Rightarrow> f \<in> action_faults act | Inr (x, s') \<Rightarrow> leaves {} s'"
    unfolding triple_def by blast
  then show ?thesis using s by (auto simp: ok_iff split: sum.splits)
qed

lemma after_quiet:
  assumes "list_all (\<lambda>a. case a of Forward src dest \<Rightarrow> False | _ \<Rightarrow> True) as"
  shows "reach node_init quiet_step (after as)"
proof (rule after_reach, rule quiet_stepI)
  show "exec a s = Inr ((), s') \<Longrightarrow> exec a s = Inr ((), s')" for a s s' .
  show "a \<in> set as \<Longrightarrow> \<nexists>src dest. a = Forward src dest" for a
    using assms by (auto simp: list_all_iff)
qed

theorem quiet_node_safe_witness:
  "held (after [Data_out 0x0B000001, Run 2]) = {} \<and>
   (case exec (Control_in 0x0B000001 [1, 2, 3]) (after [Data_out 0x0B000001, Run 2]) of
      Inl f \<Rightarrow> f \<in> action_faults (Control_in 0x0B000001 [1, 2, 3]) | Inr _ \<Rightarrow> True) \<and>
   (case exec (Control_in 0x0B000001 [1, 2, 3]) (after [Data_out 0x0B000001, Run 2]) of
      Inl f \<Rightarrow> f = Out_of_bounds | Inr _ \<Rightarrow> False)"
proof -
  have "reach node_init quiet_step (after [Data_out 0x0B000001, Run 2])"
    by (rule after_quiet) simp
  from quiet_node_safe[OF this, of "Control_in 0x0B000001 [1, 2, 3]"]
  have "held (after [Data_out 0x0B000001, Run 2]) = {} \<and>
   (case exec (Control_in 0x0B000001 [1, 2, 3]) (after [Data_out 0x0B000001, Run 2]) of
      Inl f \<Rightarrow> f \<in> action_faults (Control_in 0x0B000001 [1, 2, 3]) | Inr _ \<Rightarrow> True)" .
  moreover have "case exec (Control_in 0x0B000001 [1, 2, 3]) (after [Data_out 0x0B000001, Run 2]) of
      Inl f \<Rightarrow> f = Out_of_bounds | Inr _ \<Rightarrow> False" by code_simp
  ultimately show ?thesis by blast
qed

text \<open>
  The actions of the node itself never fail on a node that has forwarded nothing: sending a
  packet, getting one for itself, and a step of any thread all return, with no mutex held.
\<close>

theorem own_actions_return:
  assumes "reach node_init quiet_step s"
    and "act \<in> {Data_in src dest, Data_out dest, Run t}"
  shows "\<exists>s'. exec act s = Inr ((), s') \<and> node_inv s' \<and> held s' = {}"
proof -
  have "triple {} (ok {} {}) (exec act) (\<lambda>_. ok {} {})"
    using assms(2) by (intro quiet_exec) auto
  from triple_returns[OF this quiet_sys.reach_inv[OF assms(1)]] show ?thesis by (auto simp: ok_iff)
qed

theorem own_actions_return_witness:
  "\<exists>s'. exec (Run 2) (after [Data_out 0x0B000001]) = Inr ((), s') \<and> node_inv s' \<and> held s' = {}"
  by (rule own_actions_return[where act = "Run 2" and t = 2 and src = 0 and dest = 0])
    (rule after_quiet, simp_all)

text \<open>The sample node after the sample request, for examples: two entries, of 11.0.0.1 and 12.0.0.1.\<close>

definition heard :: node where
  "heard = after [Control_in 0x0B000001 (encode_rreq sample_request)]"

lemma heard_reachable: "reachable heard"
  unfolding heard_def by (rule reachable_after)

lemma heard_ok: "ok {} {} heard"
  unfolding heard_def by (rule quiet_sys.reach_inv, rule after_quiet) simp

lemma heard_routes:
  "routes heard 0x0B = Some 0 \<and> routes heard 0x0C = Some 1 \<and>
   (case heap heard 1 of Some e \<Rightarrow> dest_ip e = 0x0C000001 | None \<Rightarrow> False)"
  by code_simp

text \<open>
  C27: A call of \<open>send_rreq\<close> can read memory that was freed. A request that arrives from the
  destination of a running search makes the route to it valid for three seconds; when that and
  the delete period have passed, the entry is freed and the searching thread cancelled, while the
  call still polls \<open>rreq_search\<close>. The search would last 21.5 seconds.
\<close>

theorem waiting_call_reads_freed_entry:
  "run [Data_out 0x0B000001, Run 2, Control_in 0x0B000001 (encode_rreq sample_request), Run 3,
        Run 2, Run 2, Run 3, Run 3, Run 2, Run 3, Resume 0] sample_node = Inl Use_after_free"
proof -
  have "case run [Data_out 0x0B000001, Run 2, Control_in 0x0B000001 (encode_rreq sample_request), Run 3,
        Run 2, Run 2, Run 3, Run 3, Run 2, Run 3, Resume 0] sample_node of
      Inl f \<Rightarrow> f = Use_after_free | Inr _ \<Rightarrow> False" by code_simp
  then show ?thesis by (auto split: sum.splits)
qed

end
