(* ===== verification/Data_Properties.thy ===== *)
theory Data_Properties
  imports System
begin

text \<open>
  Properties of the data structures: the linked list against sequences of operations, the
  messages and their bytes, sequence numbers, and the routing table.
\<close>

section \<open>The linked list\<close>

text \<open>
  The operations on a list, with their results, and what they come to on the list of its data:
  the abstract list removes from the front and knows no pointers.
\<close>

datatype list_op = Add u32 | Remove u32 | Is_in u32 | Get_all

datatype list_result = Done | Found u8 | Entries "u32 list option"

primrec do_op :: "list_op \<Rightarrow> (linked_list option, list_result) prog" where
  "do_op (Add d) = sq (add_entry_to_list d) (ret Done)"
| "do_op (Remove d) = sq (remove_entry_from_list d) (ret Done)"
| "do_op (Is_in d) = bnd (is_in_list d) (\<lambda>b. ret (Found b))"
| "do_op Get_all = bnd get_all_entries (\<lambda>xs. ret (Entries xs))"

primrec spec_op :: "list_op \<Rightarrow> (u32 list, list_result) prog" where
  "spec_op (Add d) xs = Inr (Done, xs @ [d])"
| "spec_op (Remove d) xs = (if xs = [] then Inl Null_deref else Inr (Done, remove1 d xs))"
| "spec_op (Is_in d) xs = Inr (Found (if d \<in> set xs then 1 else 0), xs)"
| "spec_op Get_all xs = Inr (Entries (Some xs), xs)"

primrec do_ops :: "list_op list \<Rightarrow> (linked_list option, list_result list) prog" where
  "do_ops [] = ret []"
| "do_ops (p # ps) = bnd (do_op p) (\<lambda>r. bnd (do_ops ps) (\<lambda>rs. ret (r # rs)))"

primrec spec_ops :: "list_op list \<Rightarrow> (u32 list, list_result list) prog" where
  "spec_ops [] = ret []"
| "spec_ops (p # ps) = bnd (spec_op p) (\<lambda>r. bnd (spec_ops ps) (\<lambda>rs. ret (r # rs)))"

definition list_agrees ::
  "fault + 'r \<times> linked_list option \<Rightarrow> fault + 'r \<times> u32 list \<Rightarrow> bool" where
  "list_agrees c a \<longleftrightarrow> (case a of Inl f \<Rightarrow> c = Inl f
     | Inr (r, xs) \<Rightarrow> (\<exists>l. c = Inr (r, Some l) \<and> models l xs))"

lemma do_op_agrees:
  assumes "models l xs" and "length xs < 2 ^ 32"
  shows "list_agrees (do_op p (Some l)) (spec_op p xs)"
proof (cases p)
  case (Add d)
  with add_entry_models[OF assms(1), of d] show ?thesis
    by (auto simp: list_agrees_def prog_simps)
next
  case (Remove d)
  show ?thesis
  proof (cases "xs = []")
    case True
    with assms(1) Remove show ?thesis
      by (simp add: list_agrees_def prog_simps remove_entry_empty)
  next
    case False
    with remove_entry_models[OF assms(1), of d] Remove show ?thesis
      by (auto simp: list_agrees_def prog_simps)
  qed
next
  case (Is_in d)
  with is_in_list_models[OF assms(1), of d] assms(1) show ?thesis
    by (simp add: list_agrees_def prog_simps)
next
  case Get_all
  with get_all_entries_models[OF assms] assms(1) show ?thesis
    by (simp add: list_agrees_def prog_simps)
qed

lemma spec_op_length: "spec_op p xs = Inr (r, ys) \<Longrightarrow> length ys \<le> Suc (length xs)"
  by (cases p) (auto split: if_splits simp: length_remove1)

text \<open>
  C19: Any sequence of list operations, run on the pointers, gives the results it has on the
  list of data, and leaves a list that holds the same data; the one fault is the null pointer
  that \<open>remove_entry_from_list\<close> follows in an empty list. The bound keeps the \<open>uint32_t\<close> counter
  of \<open>get_all_entries\<close> from wrapping.
\<close>

theorem list_refines:
  assumes "models l xs" and "length xs + length ps < 2 ^ 32"
  shows "list_agrees (do_ops ps (Some l)) (spec_ops ps xs)"
  using assms
proof (induction ps arbitrary: l xs)
  case Nil
  then show ?case by (simp add: list_agrees_def prog_simps)
next
  case (Cons p ps)
  have step: "list_agrees (do_op p (Some l)) (spec_op p xs)"
    by (rule do_op_agrees) (use Cons.prems in simp_all)
  show ?case
  proof (cases "spec_op p xs")
    case (Inl f)
    with step show ?thesis by (simp add: list_agrees_def prog_simps)
  next
    case (Inr res)
    obtain r ys where ys: "spec_op p xs = Inr (r, ys)" using Inr by (cases res) simp
    with step obtain l' where l': "do_op p (Some l) = Inr (r, Some l')" "models l' ys"
      by (auto simp: list_agrees_def)
    have "length ys + length ps < 2 ^ 32" using spec_op_length[OF ys] Cons.prems(2) by simp
    from Cons.IH[OF l'(2) this] ys l'(1) show ?thesis
      by (cases "spec_ops ps ys") (auto simp: list_agrees_def prog_simps)
  qed
qed

theorem list_refines_witness:
  "list_agrees (do_ops [Add 7, Add 9, Is_in 9, Remove 7, Get_all] (Some empty_list))
     (Inr ([Done, Done, Found 1, Done, Entries (Some [9])], [9]))"
proof -
  have "spec_ops [Add 7, Add 9, Is_in 9, Remove 7, Get_all] [] =
      Inr ([Done, Done, Found 1, Done, Entries (Some [9])], [9])"
    by (simp add: prog_simps bnd_def)
  with list_refines[of empty_list "[]" "[Add 7, Add 9, Is_in 9, Remove 7, Get_all]"] show ?thesis
    by simp
qed

text \<open>
  \<open>free_linked_list\<close> frees every node and the header of a list that is not empty, and
  leaves the header of an empty list allocated.
\<close>

theorem free_list_leaks_header:
  assumes "models l xs"
  shows "free_linked_list (Some l) = Inr ((), if xs = [] then Some l else None)"
  using free_linked_list_models[OF assms] by simp

theorem free_list_leaks_header_witness: "free_linked_list (Some empty_list) = Inr ((), Some empty_list)"
  using free_list_leaks_header[OF models_empty] by simp

section \<open>Messages\<close>

text \<open>
  C39: A request and a reply written into a packet are read back as they were, whatever follows; the
  type is in byte 3 of the packet, where the dispatcher looks for it.
\<close>

theorem header_round_trips:
  "decode_rreq (encode_rreq m @ rest) = Inr m \<and> length (encode_rreq m) = 24 \<and>
     encode_rreq m ! 3 = rreq_type m \<and>
   decode_rrep (encode_rrep r @ rest) = Inr r \<and> length (encode_rrep r) = 20 \<and>
     encode_rrep r ! 3 = rrep_type r"
proof (intro conjI)
  show "length (encode_rreq m) = 24" "length (encode_rrep r) = 20"
    by (simp_all add: rreq_fmt.length_encode rrep_fmt.length_encode sizeof_rreq_def sizeof_rrep_def)
  show "encode_rreq m ! 3 = rreq_type m" "encode_rrep r ! 3 = rrep_type r"
    by (simp_all add: encode_rreq_def rreq_words_def encode_rrep_def rrep_words_def le32_def)
qed (rule rreq_fmt.decode_encode rrep_fmt.decode_encode)+

lemma read_word_take:
  "i < 2 * n \<Longrightarrow> 2 * n \<le> length ws \<Longrightarrow> read_word (bytes_of_words (take (2 * n) ws)) i = Inr (ws ! i)"
  using read_word_bytes[of i "take (2 * n) ws" "[]"] by simp

lemma rerr_length_word: "unat (4 + 8 * ucast (n :: u8) :: u32) = 4 + 8 * unat n"
proof -
  have "unat n < 256" using unsigned_less[of n, where ?'a = nat] by simp
  then show ?thesis by (simp add: unat_word_ariths unsigned_ucast_eq take_bit_nat_eq_self)
qed

text \<open>
  C38: An error message for \<open>n\<close> destinations, as \<open>generate_rerr_message_buff\<close> makes it: the
  receiver reads the number of destinations and all their pairs back, the packet length is that
  of the packet, and no message is made for no destination.
\<close>

theorem rerr_message_round_trip:
  assumes "2 * unat n \<le> length pairs"
  shows "case generate_rerr_message_buff flag n pairs of
      Inl f \<Rightarrow> False
    | Inr None \<Rightarrow> n = 0
    | Inr (Some (packet, packet_length)) \<Rightarrow>
        length packet = unat packet_length \<and> packet ! 3 = RERR_TYPE \<and>
        decode_rerr packet = Inr \<lparr>rerr_dest_count = n, rerr_reserved = 0, rerr_n = ucast flag,
          rerr_type = RERR_TYPE\<rparr> \<and>
        (\<forall>i \<in> {..<2 * unat n}. read_word (drop sizeof_rerr packet) i = Inr (pairs ! i))"
proof (cases "n = 0")
  case True
  then show ?thesis by (simp add: generate_rerr_message_buff_def)
next
  case False
  let ?h = "\<lparr>rerr_dest_count = n, rerr_reserved = 0, rerr_n = ucast flag, rerr_type = RERR_TYPE\<rparr>"
  let ?ws = "take (2 * unat n) pairs"
  have "\<not> n \<le> 0" using False by simp
  then have gen: "generate_rerr_message_buff flag n pairs =
      Inr (Some (encode_rerr ?h @ bytes_of_words ?ws, 4 + 4 * ucast n * 2))"
    using assms by (simp add: generate_rerr_message_buff_def)
  have len: "length (encode_rerr ?h) = 4" by (simp add: rerr_fmt.length_encode sizeof_rerr_def)
  moreover have "encode_rerr ?h ! 3 = RERR_TYPE"
    by (simp add: encode_rerr_def rerr_words_def le32_def)
  ultimately show ?thesis
    using assms
    by (simp add: gen rerr_fmt.decode_encode sizeof_rerr_def read_word_take nth_append rerr_length_word)
qed

theorem rerr_message_round_trip_witness:
  "case generate_rerr_message_buff 0 1 [7, 8] of
      Inr (Some (packet, packet_length)) \<Rightarrow> packet_length = 12 \<and> read_word (drop 4 packet) 1 = Inr 8
    | _ \<Rightarrow> False"
proof -
  obtain p where p: "generate_rerr_message_buff 0 1 [7, 8] = Inr (Some (p, 12))"
    by (simp add: generate_rerr_message_buff_def)
  have "\<forall>i \<in> {..<2}. read_word (drop 4 p) i = Inr ([7, 8] ! i)"
    using rerr_message_round_trip[of 1 "[7, 8]" 0] by (simp add: p sizeof_rerr_def)
  then have "read_word (drop 4 p) 1 = Inr ([7, 8] ! 1)" by (rule bspec) simp
  then show ?thesis by (simp add: p)
qed

section \<open>Sequence numbers\<close>

text \<open>
  \<open>seq_compare\<close> gives the difference of two sequence numbers as signed numbers when it
  fits into 32 bits, and overflows when it does not: so it does at the point where numbers roll
  over, for 0x7FFFFFFF and its successor.
\<close>

theorem seq_compare_spec:
  "seq_compare x y s =
     (if \<bar>sint x - sint y\<bar> < 2 ^ 31 \<or> sint x - sint y = - (2 ^ 31)
      then Inr (sint x - sint y, s) else Inl Signed_overflow)
   \<and> seq_compare (0x7FFFFFFF + 1) 0x7FFFFFFF s = Inl Signed_overflow"
proof
  show "seq_compare (0x7FFFFFFF + 1) 0x7FFFFFFF s = Inl Signed_overflow"
    by (simp add: seq_compare_def Let_def in_int32_def fail_def)
qed (auto simp: seq_compare_def Let_def in_int32_def ret_def fail_def)

text \<open>Drawing \<open>k\<close> numbers from a counter.\<close>

primrec draw :: "nat \<Rightarrow> (safe_32, u32 list) prog" where
  "draw 0 = ret []"
| "draw (Suc k) = bnd increment_safe (\<lambda>n. bnd (draw k) (\<lambda>ns. ret (n # ns)))"

lemma draw_eq:
  "\<not> mutex t \<Longrightarrow> draw k t = Inr (map (\<lambda>i. number t + of_nat (Suc i)) [0..<k], t\<lparr>number := number t + of_nat k\<rparr>)"
proof (induction k arbitrary: t)
  case (Suc k)
  have "map (\<lambda>i. number t + of_nat (Suc i)) [0..<Suc k] =
      (number t + 1) # map (\<lambda>i. number t + 1 + of_nat (Suc i)) [0..<k]"
    by (simp add: upt_conv_Cons map_Suc_upt[symmetric] algebra_simps del: upt_Suc map_Suc_upt)
  then show ?case using Suc by (simp add: prog_simps algebra_simps del: upt_Suc)
qed (simp add: prog_simps)

text \<open>
  Each number the node draws from a counter is new: \<open>increment_safe\<close> returns the successor of
  the number before, leaves the mutex free, and \<open>k\<close> calls return \<open>k\<close> different numbers, up to
  \<open>2 ^ 32\<close> calls.
\<close>

theorem drawn_numbers_differ:
  assumes "\<not> mutex t" and "k \<le> 2 ^ 32"
  shows "\<exists>ns t'. draw k t = Inr (ns, t') \<and> length ns = k \<and> distinct ns \<and> \<not> mutex t'"
proof -
  have "inj_on (\<lambda>i. number t + of_nat (Suc i)) {0..<k}"
  proof (rule inj_onI)
    fix i j assume ij: "i \<in> {0..<k}" "j \<in> {0..<k}" "number t + of_nat (Suc i) = number t + of_nat (Suc j)"
    then have "(of_nat i :: u32) = of_nat j" by simp
    then show "i = j" using ij assms(2) by (simp add: word_of_nat_eq_iff take_bit_nat_eq_self)
  qed
  then show ?thesis
    using assms(1) by (simp add: draw_eq distinct_map)
qed

theorem drawn_numbers_differ_witness:
  "\<exists>ns t'. draw 3 \<lparr>number = 4294967295, mutex = False\<rparr> = Inr (ns, t') \<and> length ns = 3 \<and> distinct ns \<and> \<not> mutex t'"
  by (rule drawn_numbers_differ) simp_all

section \<open>The routing table\<close>

text \<open>
  C36: \<open>create_or_get_routing_entry\<close> always returns an entry that the table has for the address
  from then on. An entry that was there is returned as it is, with nothing else changed; a
  new one carries the arguments and is not valid. No other slot and no other entry changes.
\<close>

theorem create_or_get_spec:
  "\<exists>a s'. create_or_get_routing_entry ip seq v hop hops timeout s =
       Inr ((Some a, if get_routing_entry (routes s) ip = None then 1 else 0), s') \<and>
     get_routing_entry (routes s') ip = Some a \<and>
     (\<forall>i \<in> - {slot_of ip}. routes s' i = routes s i) \<and> (\<forall>b \<in> - {a}. heap s' b = heap s b) \<and>
     (case get_routing_entry (routes s) ip of
        Some b \<Rightarrow> a = b \<and> s' = s
      | None \<Rightarrow> a = next_addr s \<and> (\<exists>e. heap s' a = Some e \<and> dest_ip e = ip \<and> dest_seq e = seq \<and>
          seq_valid e = v \<and> next_hop e = hop \<and> hop_count e = hops \<and> status e = ROUTE_INVALID \<and>
          rreq_search e = SEARCH_NONE \<and> \<not> entry_mutex e))"
proof (cases "get_routing_entry (routes s) ip")
  case None
  then show ?thesis
    by (auto simp: create_or_get_routing_entry_def lookup_route_def get_routing_entry_def
        find_entry_slot prog_simps clock_gettime_def malloc_entry_def add_routing_entry_def
        deref_def bnd_def split_def)
next
  case (Some b)
  then show ?thesis
    by (auto simp: create_or_get_routing_entry_def lookup_route_def prog_simps)
qed

theorem create_or_get_spec_witness:
  "\<exists>a s'. create_or_get_routing_entry 0x0B000001 5 SEQ_VALID 1 2 3000 sample_node = Inr ((Some a, 1), s') \<and>
     get_routing_entry (routes s') 0x0B000001 = Some a \<and> routes s' 3 = routes sample_node 3"
proof -
  have none: "get_routing_entry (routes sample_node) 0x0B000001 = None"
    by (simp add: get_routing_entry_def find_entry_slot sample_node_def main_init_def
        create_routing_table_def create_data_header_def)
  have "(3 :: u8) \<in> - {slot_of 0x0B000001}" by (simp add: slot_of_def)
  then show ?thesis
    using create_or_get_spec[of "0x0B000001" 5 SEQ_VALID 1 2 3000 sample_node] none by auto
qed



text \<open>
  \<open>move_routing_entry\<close> moves what the first table has for the address into the second. It
  never returns -1: what was there is freed, with its timers, and the result is 1; else it is 0
  and nothing but the tables changes.
\<close>

theorem move_routing_entry_spec:
  assumes "\<And>a. destination (slot_of ip) = Some a \<Longrightarrow>
    \<exists>e. heap s a = Some e \<and> \<not> entry_mutex e \<and> entry_ok e"
  shows "\<exists>s'. move_routing_entry initial destination ip s =
      Inr ((if destination (slot_of ip) = None then 0 else 1, initial(slot_of ip := None),
            destination(slot_of ip := initial (slot_of ip))), s') \<and>
    (case destination (slot_of ip) of None \<Rightarrow> s' = s
     | Some a \<Rightarrow> heap s' = (heap s)(a := None) \<and> routes s' = routes s \<and> events s' = events s)"
proof (cases "destination (slot_of ip)")
  case None
  then show ?thesis
    by (simp add: move_routing_entry_def Let_def split_def prog_simps)
next
  case (Some a)
  obtain e where e: "heap s a = Some e" "\<not> entry_mutex e" "entry_ok e" using assms[OF Some] by blast
  then show ?thesis
    using Some
    by (simp add: move_routing_entry_def Let_def split_def prog_simps deref_def pthread_cancel_def
        free_entry_eq)
qed

theorem move_routing_entry_spec_witness:
  "\<exists>s'. move_routing_entry (\<lambda>_. Some 0) (routes heard) 0x0C000001 heard =
      Inr ((1, (\<lambda>_. Some 0)(0x0C := None), (routes heard)(0x0C := Some 0)), s') \<and> heap s' 1 = None"
proof -
  have slot: "slot_of 0x0C000001 = 0x0C" by (simp add: slot_of_def)
  have "\<exists>e. heap heard 1 = Some e \<and> \<not> entry_mutex e \<and> entry_ok e"
    using heard_ok heard_routes by (auto simp: ok_iff held_def dest: ok_entry_ok[OF heard_ok] split: option.splits)
  then show ?thesis
    using move_routing_entry_spec[of "routes heard" "0x0C000001" heard "\<lambda>_. Some 0"] heard_routes
    by (auto simp: slot)
qed

end
