(* ===== verification/Route_Calculus.thy ===== *)
theory Route_Calculus
  imports Handler_Inv
begin

text \<open>
  What the handlers do to the route in one entry of the table: a route is the part of an entry
  that says where packets go, and \<open>within i a R\<close> that slot \<open>i\<close> holds the entry at \<open>a\<close>, whose route
  satisfies \<open>R\<close>. The triples here have \<open>UNIV\<close> for the faults: they say what holds if the handler
  returns; what it can fail with is in \<open>Handler_Inv\<close>.
\<close>

section \<open>Routes\<close>

record route =
  r_dest_ip :: u32
  r_dest_seq :: u32
  r_seq_valid :: seq_validity
  r_next_hop :: u32
  r_hop_count :: u32
  r_status :: route_status

definition route_of :: "routing_entry \<Rightarrow> route" where
  "route_of e = \<lparr>r_dest_ip = dest_ip e, r_dest_seq = dest_seq e, r_seq_valid = seq_valid e,
     r_next_hop = next_hop e, r_hop_count = hop_count e, r_status = status e\<rparr>"

lemma route_of_simps [simp]:
  "r_dest_ip (route_of e) = dest_ip e" "r_dest_seq (route_of e) = dest_seq e"
  "r_seq_valid (route_of e) = seq_valid e" "r_next_hop (route_of e) = next_hop e"
  "r_hop_count (route_of e) = hop_count e" "r_status (route_of e) = status e"
  by (simp_all add: route_of_def)

definition only_slot :: "addr data_header \<Rightarrow> u8 \<Rightarrow> addr \<Rightarrow> bool" where
  "only_slot table i a \<longleftrightarrow> table i = Some a \<and> (\<forall>j. j \<noteq> i \<longrightarrow> table j \<noteq> Some a)"

lemma only_slotD: "only_slot table i a \<Longrightarrow> table j = Some b \<Longrightarrow> b = a \<longleftrightarrow> j = i"
  by (cases "j = i") (auto simp: only_slot_def)

lemma only_slot_new: "only_slot table i a \<Longrightarrow> table j = None \<Longrightarrow> b \<noteq> a \<Longrightarrow> only_slot (table(j := Some b)) i a"
  by (auto simp: only_slot_def)

definition within :: "u8 \<Rightarrow> addr \<Rightarrow> (route \<Rightarrow> bool) \<Rightarrow> node \<Rightarrow> bool" where
  "within i a R s \<longleftrightarrow> only_slot (routes s) i a \<and> a < next_addr s \<and> (\<exists>e. heap s a = Some e \<and> R (route_of e))"

definition preserves :: "(node, 'a) prog \<Rightarrow> bool" where
  "preserves m \<longleftrightarrow> (\<forall>i a R. triple UNIV (within i a R) m (\<lambda>_. within i a R))"

lemma preservesD: "preserves m \<Longrightarrow> triple UNIV (within i a R) m (\<lambda>_. within i a R)"
  by (simp add: preserves_def)

section \<open>Programs that change no route\<close>

lemma preserves_basic:
  "preserves (ret x)" "preserves (gets g)" "preserves (fail f)"
  "preserves (lookup_route ip)" "preserves (deref p)" "preserves clock_gettime"
  "preserves (emit ev)" "preserves (pthread_cancel t)" "preserves (set_thread t th)"
  "preserves (on_sequence_num m)" "preserves (on_rreq_ids m')"
  "preserves (modify (\<lambda>s. s\<lparr>active_routes := h s\<rparr>))"
  "preserves (seq_compare n n')"
  by (auto simp: preserves_def triple_def within_def ret_def gets_def fail_def lookup_route_def
      deref_def clock_gettime_def emit_def modify_def pthread_cancel_def set_thread_def
      on_sequence_num_def on_rreq_ids_def zoom_def seq_compare_def Let_def split: sum.splits option.splits)

lemma preserves_bnd: "preserves m \<Longrightarrow> (\<And>x. preserves (k x)) \<Longrightarrow> preserves (bnd m k)"
  unfolding preserves_def by (blast intro: triple_bnd)

lemma preserves_sq: "preserves m \<Longrightarrow> preserves n \<Longrightarrow> preserves (sq m n)"
  unfolding sq_def by (rule preserves_bnd)

lemma preserves_if: "(b \<Longrightarrow> preserves m) \<Longrightarrow> (\<not> b \<Longrightarrow> preserves n) \<Longrightarrow> preserves (if b then m else n)"
  by simp

lemma preserves_when: "preserves m \<Longrightarrow> preserves (when_p b m)"
  by (simp add: when_p_def preserves_basic(1))

lemma triple_write_route:
  assumes "\<And>e. R (route_of e) \<Longrightarrow> R' (route_of (f e))"
  shows "triple UNIV (within i a R) (write_entry (Some a) f) (\<lambda>_. within i a R')"
  using assms by (auto simp: triple_def within_def write_entry_def)

lemma triple_write_other:
  assumes "b \<noteq> a"
  shows "triple UNIV (within i a R) (write_entry (Some b) f) (\<lambda>_. within i a R)"
  using assms by (auto simp: triple_def within_def write_entry_def split: option.splits)

lemma preserves_write:
  assumes "\<And>e. route_of (f e) = route_of e"
  shows "preserves (write_entry p f)"
  using assms by (auto simp: preserves_def triple_def within_def write_entry_def split: option.splits)

lemma preserves_lock: "preserves (mutex_lock p)" "preserves (mutex_unlock p)"
  unfolding mutex_lock_def mutex_unlock_def
  by (intro preserves_bnd preserves_if preserves_basic preserves_write; simp add: route_of_def)+

lemma preserves_lists: "preserves (at_precursors p m)" "preserves (at_next_hop_for p m)"
  unfolding at_precursors_def at_next_hop_for_def
  by (auto intro!: preserves_bnd preserves_sq preserves_basic preserves_write simp: route_of_def
      split: sum.splits)

lemma preserves_api:
  "preserves (AddUnicastRoutingEntry d h)" "preserves (DeleteEntry d h)"
  "preserves (SendUnicast ip buf n)" "preserves (SendBroadcast buf n)"
  "preserves (new_rrep flags prefix dest seq origin life)"
  unfolding AddUnicastRoutingEntry_def DeleteEntry_def SendUnicast_def SendBroadcast_def new_rrep_def
  by (intro preserves_bnd preserves_basic)+

lemma preserves_create_thread:
  assumes "\<And>t e. route_of (store t e) = route_of e"
  shows "preserves (pthread_create store p th)"
proof -
  have "preserves (modify (\<lambda>s. s\<lparr>threads := (threads s)(t \<mapsto> th a), next_tid := Suc t\<rparr>))" for t a
    by (simp add: preserves_def triple_def within_def modify_def)
  then show ?thesis
    unfolding pthread_create_def block.simps
    by (intro preserves_bnd preserves_sq preserves_basic preserves_write assms)
qed

lemma preserves_timers: "preserves (set_expiration_timer p ms)" "preserves (start_rreq_timer p)"
  unfolding set_expiration_timer_def start_rreq_timer_def block.simps
  by (intro preserves_bnd preserves_sq preserves_basic preserves_write preserves_when
      preserves_create_thread; simp add: route_of_def)+

lemmas preserves_rules = preserves_basic preserves_lock preserves_lists preserves_api preserves_timers
  preserves_bnd preserves_sq preserves_if preserves_when

text \<open>
  The entry for an address, found or new: it is the entry at \<open>a\<close> exactly when the address falls
  into slot \<open>i\<close>, and then it is not new.
\<close>

lemma triple_create_route:
  assumes "\<And>b n. (b = a \<longleftrightarrow> slot_of ip = i) \<Longrightarrow> (b = a \<Longrightarrow> n = 0) \<Longrightarrow>
    triple UNIV (within i a R) (k (Some b, n)) Q"
  shows "triple UNIV (within i a R) (bnd (create_or_get_routing_entry ip seq v hop hops timeout) k) Q"
proof -
  have "\<exists>b n s'. create_or_get_routing_entry ip seq v hop hops timeout s = Inr ((Some b, n), s') \<and>
      within i a R s' \<and> (b = a \<longleftrightarrow> slot_of ip = i) \<and> (b = a \<longrightarrow> n = 0)" if s: "within i a R s" for s
  proof (cases "routes s (slot_of ip)")
    case (Some b)
    with s have "b = a \<longleftrightarrow> slot_of ip = i" by (auto simp: within_def dest: only_slotD)
    with Some s show ?thesis
      by (auto simp: create_or_get_routing_entry_def lookup_route_def get_routing_entry_def
          find_entry_slot prog_simps)
  next
    case None
    with s have "slot_of ip \<noteq> i" "next_addr s \<noteq> a" by (auto simp: within_def only_slot_def)
    moreover from this None s have "only_slot ((routes s)(slot_of ip \<mapsto> next_addr s)) i a"
      by (simp add: within_def only_slot_new)
    ultimately show ?thesis using None s
      by (auto simp add: create_or_get_routing_entry_def lookup_route_def get_routing_entry_def
          find_entry_slot prog_simps clock_gettime_def malloc_entry_def add_routing_entry_def
          deref_def bnd_def split_def within_def)
  qed
  then show ?thesis
    using assms unfolding triple_def bnd_def by (force split: sum.splits prod.splits)
qed

lemma triple_create_here:
  assumes "slot_of ip = i" and "triple UNIV (within i a R) (k (Some a, 0)) Q"
  shows "triple UNIV (within i a R) (bnd (create_or_get_routing_entry ip seq v hop hops timeout) k) Q"
  by (rule triple_create_route) (use assms in simp)

text \<open>A condition on an entry that was just read, and a write under it.\<close>

lemma triple_test_write:
  assumes "\<And>e. R (route_of e) \<Longrightarrow> c e \<Longrightarrow> R' (route_of (f e))"
    and "\<And>e. R (route_of e) \<Longrightarrow> \<not> c e \<Longrightarrow> R' (route_of e)"
  shows "triple UNIV (within i a R) (bnd (deref (Some a)) (\<lambda>e. when_p (c e) (write_entry (Some a) f)))
    (\<lambda>_. within i a R')"
  using assms by (auto simp: triple_def within_def bnd_def deref_def when_p_def write_entry_def ret_def
      split: option.splits)

lemma triple_test_other:
  assumes "b \<noteq> a"
  shows "triple UNIV (within i a R) (bnd (deref (Some b)) (\<lambda>e. when_p (c e) (write_entry (Some b) f)))
    (\<lambda>_. within i a R)"
  by (intro triple_bnd[OF preservesD[OF preserves_basic(5)]] triple_when triple_write_other assms)

lemma triple_deref_route:
  "triple UNIV (within i a R) (deref (Some b)) (\<lambda>e s. within i a R s \<and> (b = a \<longrightarrow> R (route_of e)))"
  by (auto simp: triple_def within_def deref_def split: option.splits)

section \<open>Requests\<close>

text \<open>
  The parts of a request's handler but the reverse route: the previous hop's route becomes
  valid, nothing else changes.
\<close>

definition keeps_validated :: "(route \<Rightarrow> bool) \<Rightarrow> bool" where
  "keeps_validated R \<longleftrightarrow> (\<forall>r. R r \<longrightarrow> R (r\<lparr>r_status := ROUTE_VALID\<rparr>))"

lemma triple_validate:
  assumes "b = a \<Longrightarrow> keeps_validated R"
  shows "triple UNIV (within i a R) (write_entry (Some b) (\<lambda>e. e\<lparr>status := ROUTE_VALID\<rparr>)) (\<lambda>_. within i a R)"
proof (cases "b = a")
  case True
  have "route_of (e\<lparr>status := ROUTE_VALID\<rparr>) = (route_of e)\<lparr>r_status := ROUTE_VALID\<rparr>" for e
    by (simp add: route_of_def)
  with assms True triple_write_route[of R R "\<lambda>e. e\<lparr>status := ROUTE_VALID\<rparr>" i a] show ?thesis
    by (simp add: keeps_validated_def)
qed (rule triple_write_other)

lemma recv_rreq_previous_hop_route:
  assumes "i = slot_of sender_ip \<Longrightarrow> keeps_validated R"
  shows "triple UNIV (within i a R) (recv_rreq_previous_hop sender_ip m) (\<lambda>_. within i a R)"
  unfolding recv_rreq_previous_hop_def block.simps
  apply (rule triple_create_route)
  apply (simp only: prod.case)
  apply (rule triple_sq[OF preservesD[OF preserves_lock(1)]])
  apply (rule triple_sq[OF triple_validate], use assms in simp)
  apply (rule preservesD)
  by (intro preserves_rules preserves_write; simp add: route_of_def)

lemma send_rrep_destination_route: "preserves (send_rrep_destination m sender_ip)"
  unfolding send_rrep_destination_def Let_def
  by (intro preserves_rules)

lemma send_rrep_intermediate_route: "preserves (send_rrep_intermediate m sender_ip)"
  unfolding send_rrep_intermediate_def Let_def block.simps
  by (intro preserves_rules)

lemma mark_active_route: "preserves (mark_active p)"
  unfolding mark_active_def block.simps
  by (intro preserves_rules preserves_write; simp add: route_of_def)

lemma recv_rreq_forward_route: "preserves (recv_rreq_forward p m)"
  unfolding recv_rreq_forward_def Let_def own_route_fresher_def
  by (intro preserves_rules)

lemma recv_rreq_repeated_route: "preserves (recv_rreq_repeated m)"
  unfolding recv_rreq_repeated_def by (intro preserves_rules)

text \<open>The reverse route: the update is the one place where a route changes.\<close>

definition rreq_route :: "u32 \<Rightarrow> rreq_header \<Rightarrow> route \<Rightarrow> route" where
  "rreq_route sender_ip m r =
     (if r_dest_seq r < rreq_src_seq m \<or> r_seq_valid r = SEQ_INVALID \<or>
         (rreq_src_seq m = r_dest_seq r \<and> ucast (rreq_hop_count m) < r_hop_count r)
      then r\<lparr>r_dest_seq := rreq_src_seq m, r_seq_valid := SEQ_VALID, r_next_hop := sender_ip,
             r_hop_count := ucast (rreq_hop_count m), r_status := ROUTE_VALID\<rparr>
      else r\<lparr>r_status := ROUTE_VALID\<rparr>)"

lemma route_of_update [simp]:
  "route_of (e\<lparr>status := v\<rparr>) = (route_of e)\<lparr>r_status := v\<rparr>"
  "route_of (e\<lparr>dest_seq := x\<rparr>) = (route_of e)\<lparr>r_dest_seq := x\<rparr>"
  "route_of (e\<lparr>seq_valid := w\<rparr>) = (route_of e)\<lparr>r_seq_valid := w\<rparr>"
  "route_of (e\<lparr>next_hop := x\<rparr>) = (route_of e)\<lparr>r_next_hop := x\<rparr>"
  "route_of (e\<lparr>hop_count := x\<rparr>) = (route_of e)\<lparr>r_hop_count := x\<rparr>"
  by (simp_all add: route_of_def)

lemma recv_rreq_reverse_route_other:
  assumes "i \<noteq> slot_of (rreq_src_ip m)"
  shows "triple UNIV (within i a R) (recv_rreq_reverse_route sender_ip m) (\<lambda>_. within i a R)"
  unfolding recv_rreq_reverse_route_def Let_def
  apply (rule triple_create_route)
  apply (simp only: prod.case)
  apply (rule triple_sq[OF preservesD[OF preserves_lock(1)]])
  apply (rule triple_sq[OF preservesD[OF preserves_write]], simp add: route_of_def)
  apply (rule triple_sq[OF preservesD[OF preserves_timers(2)]])
  apply (rule triple_sq[OF triple_if[OF triple_test_other triple_write_other]])
    apply (use assms in simp)
   apply (use assms in simp)
  apply (rule triple_sq[OF triple_write_other], use assms in simp)
  apply (rule preservesD)
  by (intro preserves_rules)

lemma rreq_update_test:
  assumes "\<And>r. R r \<Longrightarrow> R' (rreq_route sender_ip m r)"
  shows "triple UNIV (within i a R) (bnd (deref (Some a)) (\<lambda>e.
      when_p (dest_seq e < rreq_src_seq m \<or> seq_valid e = SEQ_INVALID \<or>
              (rreq_src_seq m = dest_seq e \<and> ucast (rreq_hop_count m) < hop_count e))
        (write_entry (Some a) (\<lambda>e. e\<lparr>dest_seq := rreq_src_seq m, seq_valid := SEQ_VALID,
           next_hop := sender_ip, hop_count := ucast (rreq_hop_count m)\<rparr>))))
    (\<lambda>_. within i a (\<lambda>r. R' (r\<lparr>r_status := ROUTE_VALID\<rparr>)))"
  by (rule triple_test_write; drule assms; simp add: rreq_route_def split: if_splits)

lemma recv_rreq_reverse_route_same:
  assumes i: "i = slot_of (rreq_src_ip m)" and R: "\<And>r. R r \<Longrightarrow> R' (rreq_route sender_ip m r)"
  shows "triple UNIV (within i a R) (recv_rreq_reverse_route sender_ip m)
    (\<lambda>p s. within i a R' s \<and> p = Some a)"
  unfolding recv_rreq_reverse_route_def Let_def
  apply (rule triple_create_here[OF i[symmetric]])
  apply (simp only: prod.case simp_thms if_True)
  by (rule triple_sq[OF preservesD[OF preserves_lock(1)]],
      rule triple_sq[OF preservesD[OF preserves_write]], simp add: route_of_def,
      rule triple_sq[OF preservesD[OF preserves_timers(2)]],
      rule triple_sq[OF rreq_update_test[where R' = R']], erule R,
      rule triple_sq[OF triple_write_route[where R' = R']], simp,
      rule triple_bnd[OF preservesD[OF preserves_basic(5)]],
      rule triple_sq[OF preservesD[OF preserves_api(1)]],
      rule triple_bnd[OF preservesD[OF preserves_basic(6)]],
      rule triple_sq[OF preservesD[OF preserves_timers(1)]], rule triple_ret, simp)

lemma own_route_fresher_route: "preserves (own_route_fresher m e)"
  unfolding own_route_fresher_def by (intro preserves_rules)

text \<open>The whole handler.\<close>

lemma recv_rreq_route:
  assumes R: "i = slot_of sender_ip \<Longrightarrow> keeps_validated R"
    and S: "i = slot_of (rreq_src_ip m) \<Longrightarrow> (\<And>r. R r \<Longrightarrow> R (rreq_route sender_ip (increment_hop_rreq m) r))"
  shows "triple UNIV (within i a R) (recv_rreq sender_ip m) (\<lambda>_. within i a R)"
proof -
  have rev: "triple UNIV (within i a R) (recv_rreq_reverse_route sender_ip (increment_hop_rreq m)) (\<lambda>_. within i a R)"
  proof (cases "i = slot_of (rreq_src_ip m)")
    case True
    then show ?thesis
      by (intro triple_post[OF recv_rreq_reverse_route_same[where R = R and R' = R]])
        (simp_all add: S increment_hop_rreq_def[symmetric], simp add: increment_hop_rreq_def)
  next
    case False
    then show ?thesis by (intro recv_rreq_reverse_route_other) (simp add: increment_hop_rreq_def)
  qed
  show ?thesis
    unfolding recv_rreq_def Let_def
    by (rule triple_sq[OF recv_rreq_previous_hop_route]
        triple_bnd[OF preservesD[OF preserves_basic(2)]] triple_if
        triple_bnd[OF preservesD[OF recv_rreq_repeated_route]] triple_bnd[OF rev] preservesD
        preserves_rules mark_active_route send_rrep_destination_route own_route_fresher_route
        recv_rreq_forward_route send_rrep_intermediate_route | erule R)+
qed

section \<open>Replies\<close>

lemma triple_each_route:
  assumes "\<And>r. R r \<Longrightarrow> triple UNIV (within i a ((=) r)) m Q"
  shows "triple UNIV (within i a R) m Q"
proof (rule tripleI)
  fix s x s'
  assume "within i a R s" and m: "m s = Inr (x, s')"
  then obtain r where r: "R r" "within i a ((=) r) s" by (auto simp: within_def)
  from triple_result[OF assms[OF r(1)] r(2) m] show "Q x s'" .
qed simp

text \<open>What a reply makes of the route it is about; any number that is not smaller replaces it.\<close>

definition rrep_route :: "u32 \<Rightarrow> rrep_header \<Rightarrow> route \<Rightarrow> route" where
  "rrep_route sender_ip m r =
     (if r_seq_valid r = SEQ_INVALID \<or> sint (r_dest_seq r) \<le> sint (rrep_dest_seq m)
      then r\<lparr>r_dest_seq := rrep_dest_seq m, r_seq_valid := SEQ_VALID, r_next_hop := sender_ip,
             r_hop_count := ucast (rrep_hop_count m), r_status := ROUTE_VALID\<rparr>
      else r\<lparr>r_status := ROUTE_VALID\<rparr>)"

lemma rrep_updates_route:
  "triple UNIV (within i a R) (rrep_updates 0 m e) (\<lambda>u s. within i a R s \<and>
     u = (seq_valid e = SEQ_INVALID \<or> sint (dest_seq e) \<le> sint (rrep_dest_seq m)))"
  by (auto simp: triple_def rrep_updates_def seq_compare_def Let_def bnd_def ret_def fail_def
      split: sum.splits)

lemma recv_rrep_stop_search_route: "preserves (recv_rrep_stop_search m)"
  unfolding recv_rrep_stop_search_def block.simps
  by (intro preserves_rules preserves_write; simp add: route_of_def)

lemma recv_rrep_previous_hop_route:
  assumes "i = slot_of sender_ip \<Longrightarrow> keeps_validated R"
  shows "triple UNIV (within i a R) (recv_rrep_previous_hop sender_ip m) (\<lambda>_. within i a R)"
  unfolding recv_rrep_previous_hop_def block.simps
  apply (rule triple_create_route)
  apply (simp only: prod.case)
  apply (rule triple_sq[OF preservesD[OF preserves_lock(1)]])
  apply (rule triple_sq[OF triple_validate], use assms in simp)
  apply (rule preservesD)
  by (intro preserves_rules preserves_write; simp add: route_of_def)

lemma recv_rrep_forward_to_origin: "preserves (recv_rrep_forward p m)"
  unfolding recv_rrep_forward_def block.simps
  by (intro preserves_rules mark_active_route)

lemma recv_rrep_forward_route_other:
  assumes "i \<noteq> slot_of (rrep_dest_ip m)"
  shows "triple UNIV (within i a R) (recv_rrep_forward_route sender_ip m) (\<lambda>_. within i a R)"
  unfolding recv_rrep_forward_route_def block.simps rrep_updates_def
  apply (rule triple_create_route)
  apply (simp only: prod.case)
  apply (rule triple_sq[OF preservesD[OF preserves_lock(1)]])
  apply (rule triple_bnd[OF preservesD[OF preserves_basic(5)]])
  apply (rule triple_bnd[OF preservesD], intro preserves_rules)
  apply (rule triple_sq, rule triple_if)
    apply (rule triple_sq[OF triple_write_other], use assms in simp)
    apply (rule triple_sq[OF preservesD[OF preserves_timers(1)]])
    apply (rule triple_sq[OF triple_write_other], use assms in simp)
    apply (rule preservesD, intro preserves_rules)
   apply (rule preservesD[OF preserves_timers(1)])
  apply (rule triple_sq)
   apply (rule triple_sq[OF triple_write_other], use assms in simp)
   apply (rule preservesD, intro preserves_rules mark_active_route)
  apply (rule preservesD[OF preserves_basic(1)])
  done

lemma rrep_write:
  assumes "R (r\<lparr>r_dest_seq := n, r_seq_valid := SEQ_VALID, r_next_hop := h, r_hop_count := c,
    r_status := ROUTE_VALID\<rparr>)"
  shows "triple UNIV (within i a ((=) r))
    (sq (write_entry (Some a) (\<lambda>e. e\<lparr>status := ROUTE_VALID, seq_valid := SEQ_VALID, next_hop := h, hop_count := c\<rparr>))
    (sq (set_expiration_timer (Some a) ms)
    (sq (write_entry (Some a) (\<lambda>e. e\<lparr>dest_seq := n\<rparr>))
    (sq (AddUnicastRoutingEntry d h') (ret ()))))) (\<lambda>_. within i a R)"
proof -
  let ?r = "r\<lparr>r_status := ROUTE_VALID, r_seq_valid := SEQ_VALID, r_next_hop := h, r_hop_count := c\<rparr>"
  have new: "?r\<lparr>r_dest_seq := n\<rparr> = r\<lparr>r_dest_seq := n, r_seq_valid := SEQ_VALID, r_next_hop := h,
      r_hop_count := c, r_status := ROUTE_VALID\<rparr>" by (cases r) simp
  show ?thesis
    by (rule triple_sq[OF triple_write_route[where R' = "(=) ?r"]], simp add: route_of_def,
      rule triple_sq[OF preservesD[OF preserves_timers(1)]],
      rule triple_sq[OF triple_write_route[where R' = R]], use assms new in auto,
      rule preservesD, intro preserves_rules)
qed

lemma recv_rrep_forward_route_same:
  assumes i: "i = slot_of (rrep_dest_ip m)" and R: "\<And>r. R r \<Longrightarrow> R' (rrep_route sender_ip m r)"
  shows "triple UNIV (within i a R) (recv_rrep_forward_route sender_ip m)
    (\<lambda>p s. within i a R' s \<and> p = Some a)"
proof (rule triple_each_route)
  fix r
  assume r: "R r"
  let ?up = "r_seq_valid r = SEQ_INVALID \<or> sint (r_dest_seq r) \<le> sint (rrep_dest_seq m)"
  let ?R1 = "\<lambda>r'. R' (r'\<lparr>r_status := ROUTE_VALID\<rparr>)"
  let ?upd = "sq (write_entry (Some a) (\<lambda>e. e\<lparr>status := ROUTE_VALID, seq_valid := SEQ_VALID,
               next_hop := sender_ip, hop_count := ucast (rrep_hop_count m)\<rparr>))
             (sq (set_expiration_timer (Some a) (rrep_lifetime m))
             (sq (write_entry (Some a) (\<lambda>e. e\<lparr>dest_seq := rrep_dest_seq m\<rparr>))
             (sq (AddUnicastRoutingEntry (rrep_dest_ip m) sender_ip) (ret ()))))"
  have upd: "triple UNIV (within i a ((=) r)) (if ?up then ?upd else set_expiration_timer (Some a) (rrep_lifetime m))
      (\<lambda>_. within i a ?R1)"
  proof (rule triple_if)
    show "triple UNIV (within i a ((=) r)) ?upd (\<lambda>_. within i a ?R1)" if ?up
      by (rule rrep_write) (use R[OF r] that in \<open>auto simp: rrep_route_def\<close>)
    have "triple UNIV (within i a ?R1) (set_expiration_timer (Some a) (rrep_lifetime m)) (\<lambda>_. within i a ?R1)"
      by (rule preservesD[OF preserves_timers(1)])
    then show "triple UNIV (within i a ((=) r)) (set_expiration_timer (Some a) (rrep_lifetime m)) (\<lambda>_. within i a ?R1)" if "\<not> ?up"
      by (rule triple_pre[rotated]) (use R[OF r] that in \<open>auto simp: rrep_route_def within_def\<close>)
  qed
  have fin: "triple UNIV (within i a ?R1)
      (sq (sq (write_entry (Some a) (\<lambda>e. e\<lparr>status := ROUTE_VALID\<rparr>))
        (sq (AddUnicastRoutingEntry (rrep_dest_ip m) sender_ip) (sq (mark_active (Some a)) (ret ()))))
      (ret (Some a))) (\<lambda>p s. within i a R' s \<and> p = Some a)"
    by (rule triple_sq[OF triple_sq[OF triple_write_route[where R' = R']]], simp, rule preservesD,
      intro preserves_rules mark_active_route, rule triple_ret, simp)
  show "triple UNIV (within i a ((=) r)) (recv_rrep_forward_route sender_ip m)
      (\<lambda>p s. within i a R' s \<and> p = Some a)"
    unfolding recv_rrep_forward_route_def block.simps
    apply (rule triple_create_here[OF i[symmetric]])
    apply (simp only: prod.case)
    apply (rule triple_sq[OF preservesD[OF preserves_lock(1)]])
    apply (rule triple_bnd[OF triple_deref_route], rule triple_pure)
    apply (rule triple_bnd[OF rrep_updates_route], rule triple_pure)
    apply (rule triple_sq[OF _ fin])
    using upd by (simp del: sq_def split del: if_split)
qed

lemma recv_rrep_route:
  assumes R: "i = slot_of sender_ip \<Longrightarrow> keeps_validated R" and n: "rrep_src_ip m \<noteq> 0"
    and S: "i = slot_of (rrep_dest_ip m) \<Longrightarrow> (\<And>r. R r \<Longrightarrow> R' (rrep_route sender_ip (increment_hop_rrep m) r))"
    and O: "i \<noteq> slot_of (rrep_dest_ip m) \<Longrightarrow> R' = R"
  shows "triple UNIV (within i a R) (recv_rrep sender_ip m) (\<lambda>_. within i a R')"
proof -
  have fwd: "triple UNIV (within i a R) (recv_rrep_forward_route sender_ip (increment_hop_rrep m)) (\<lambda>_. within i a R')"
  proof (cases "i = slot_of (rrep_dest_ip m)")
    case True
    then show ?thesis
      by (intro triple_post[OF recv_rrep_forward_route_same[where R = R and R' = R']])
        (simp_all add: S, simp add: increment_hop_rrep_def)
  next
    case False
    have "triple UNIV (within i a R) (recv_rrep_forward_route sender_ip (increment_hop_rrep m)) (\<lambda>_. within i a R)"
      by (rule recv_rrep_forward_route_other) (use False in \<open>simp add: increment_hop_rrep_def\<close>)
    then show ?thesis using O[OF False] by simp
  qed
  show ?thesis
    unfolding recv_rrep_def Let_def if_not_P[OF n]
    by (rule triple_sq[OF preservesD[OF recv_rrep_stop_search_route]]
        triple_sq[OF recv_rrep_previous_hop_route] triple_bnd[OF fwd] preservesD
        preserves_rules recv_rrep_forward_to_origin | erule R)+
qed

text \<open>A hello message validates the sequence number, never the route.\<close>

lemma recv_rrep_hello_route:
  assumes "\<And>r. R r \<Longrightarrow> R (r\<lparr>r_seq_valid := SEQ_VALID\<rparr>)" and "\<And>r n. R r \<Longrightarrow> R (r\<lparr>r_dest_seq := n\<rparr>)"
  shows "triple UNIV (within i a R) (recv_rrep_hello sender_ip m) (\<lambda>_. within i a R)"
proof -
  have w: "triple UNIV (within i a R) (write_entry (Some b) f) (\<lambda>_. within i a R)"
    if "\<And>e. R (route_of e) \<Longrightarrow> R (route_of (f e))" for b f
    using that triple_write_route[of R R f i a] triple_write_other[of b a i R f] by (cases "b = a") auto
  show ?thesis
    unfolding recv_rrep_hello_def Let_def block.simps
    apply (rule triple_create_route)
    apply (simp only: prod.case)
    apply (rule triple_sq[OF preservesD[OF preserves_lock(1)]])
    apply (rule triple_bnd[OF preservesD[OF preserves_basic(5)]])
    apply (rule triple_bnd[OF preservesD], intro preserves_rules)
    apply (rule triple_sq[OF triple_when_same])
     apply (rule triple_sq[OF w], simp add: assms)
     apply (rule triple_sq[OF preservesD[OF preserves_timers(1)]])
     apply (rule triple_sq[OF w], simp add: assms)
     apply (rule preservesD[OF preserves_basic(1)])
    by (rule preservesD, intro preserves_rules)
qed

section \<open>Errors\<close>

lemma preserves_lift: "preserves (lift_sum r)"
  by (auto simp: lift_sum_def intro: preserves_basic split: sum.splits)

lemma preserves_note: "preserves (note_precursors p x y)"
  unfolding note_precursors_def by (intro preserves_rules)

text \<open>The end of a round: the entry is invalidated, with the number of the message.\<close>

lemma rerr_invalidate_route:
  assumes "b = a \<Longrightarrow> R (r\<lparr>r_dest_seq := n, r_status := ROUTE_INVALID\<rparr>)"
    and "b \<noteq> a \<Longrightarrow> R r" and k: "preserves k"
  shows "triple UNIV (within i a ((=) r))
    (sq (sq (write_entry (Some b) (\<lambda>e. e\<lparr>dest_seq := n\<rparr>))
      (sq (DeleteEntry d h)
      (sq (write_entry (Some b) (\<lambda>e. e\<lparr>status := ROUTE_INVALID\<rparr>))
      (sq (set_expiration_timer (Some b) ms) (sq k (sq (mutex_unlock (Some b)) (ret ()))))))) (ret v))
    (\<lambda>_. within i a R)"
proof -
  have "triple UNIV (within i a ((=) r)) (write_entry (Some b) (\<lambda>e. e\<lparr>dest_seq := n\<rparr>))
      (\<lambda>_. within i a ((=) (if b = a then r\<lparr>r_dest_seq := n\<rparr> else r)))"
    by (cases "b = a") (auto intro: triple_write_other triple_write_route)
  moreover have "triple UNIV (within i a ((=) (if b = a then r\<lparr>r_dest_seq := n\<rparr> else r)))
      (write_entry (Some b) (\<lambda>e. e\<lparr>status := ROUTE_INVALID\<rparr>)) (\<lambda>_. within i a R)"
  proof (cases "b = a")
    case True
    then show ?thesis using assms(1) by (auto intro: triple_write_route)
  next
    case False
    have "triple UNIV (within i a R) (write_entry (Some b) (\<lambda>e. e\<lparr>status := ROUTE_INVALID\<rparr>)) (\<lambda>_. within i a R)"
      by (rule triple_write_other[OF False])
    then show ?thesis
      by (rule triple_pre[rotated]) (use False assms(2) in \<open>auto simp: within_def\<close>)
  qed
  ultimately show ?thesis
    by (rule triple_sq[OF triple_sq, OF _ triple_sq[OF preservesD[OF preserves_api(2)] triple_sq]])
      (rule preservesD, intro preserves_rules k)+
qed

definition rerr_closed :: "u32 \<Rightarrow> (route \<Rightarrow> bool) \<Rightarrow> bool" where
  "rerr_closed sender_ip R \<longleftrightarrow> (\<forall>r n. R r \<and> r_next_hop r = sender_ip \<and> r_status r = ROUTE_VALID \<longrightarrow>
     R (r\<lparr>r_dest_seq := n, r_status := ROUTE_INVALID\<rparr>))"

text \<open>
  One round: \<open>hit\<close> says that the pair names an address of slot \<open>i\<close>. A route that is not hit, or
  is not a valid one over the sender, stays; one that is hit is invalidated.
\<close>

definition through :: "u32 \<Rightarrow> route \<Rightarrow> bool" where
  "through sender_ip r \<longleftrightarrow> r_next_hop r = sender_ip \<and> r_status r = ROUTE_VALID"

lemma triple_lookup_slot:
  "triple UNIV (within i a R) (lookup_route ip) (\<lambda>p s. within i a R s \<and>
     (case p of None \<Rightarrow> slot_of ip \<noteq> i | Some b \<Rightarrow> b = a \<longleftrightarrow> slot_of ip = i))"
  by (auto simp: triple_def within_def lookup_route_def get_routing_entry_def find_entry_slot prog_simps
      only_slot_def split: option.splits)

lemma recv_rerr_pair_hit:
  assumes hit: "\<And>ip. read_word bs (unat k * 2) = Inr ip \<Longrightarrow> hit \<longleftrightarrow> slot_of ip = i"
    and stay: "\<And>r. R r \<Longrightarrow> \<not> hit \<or> \<not> through sender_ip r \<Longrightarrow> R' r"
    and inv: "\<And>r n. R r \<Longrightarrow> through sender_ip r \<Longrightarrow> R' (r\<lparr>r_dest_seq := n, r_status := ROUTE_INVALID\<rparr>)"
  shows "triple UNIV (within i a R) (recv_rerr_pair sender_ip bs k v) (\<lambda>_. within i a R')"
proof (rule triple_each_route)
  fix r
  assume r: "R r"
  have skip: "triple UNIV (within i a ((=) r)) (ret x) (\<lambda>_. within i a R')" if "R' r" for x :: rerr_loop
    by (rule triple_ret) (use that in \<open>auto simp: within_def\<close>)
  have miss: "hit \<longleftrightarrow> b = a" if "read_word bs (unat k * 2) = Inr ip" "b = a \<longleftrightarrow> slot_of ip = i" for ip b
    using hit[OF that(1)] that(2) by simp
  have not_through: "R' r" if "hit \<longleftrightarrow> b = a" "b = a \<longrightarrow> r = route_of e"
      "\<not> (next_hop e = sender_ip \<and> status e = ROUTE_VALID)" for b e
    using that stay[OF r] by (cases "b = a") (auto simp: through_def)
  show "triple UNIV (within i a ((=) r)) (recv_rerr_pair sender_ip bs k v) (\<lambda>_. within i a R')"
    unfolding recv_rerr_pair_def block.simps bnd_lift_sum[of "read_word bs (unat k * 2)"]
    apply (cases "read_word bs (unat k * 2)", simp add: triple_fail, simp only: sum.case)
    apply (rule triple_bnd[OF triple_lookup_slot], rule triple_pure)
    subgoal for ip p
      apply (cases p; simp only: option.case option.distinct refl if_True if_False)
       apply (rule skip, rule stay[OF r], simp add: hit)
      subgoal for b
        apply (rule triple_bnd[OF triple_deref_route], rule triple_pure)
        apply (rule triple_if, rule skip, rule not_through, rule miss, assumption+)
        apply (rule triple_sq[OF preservesD[OF preserves_lock(1)]])
        apply (rule triple_bnd[OF preservesD[OF preserves_lists(1)]])
        apply (rule triple_bnd[OF preservesD], simp only: split_def, intro preserves_rules preserves_note preserves_lift)
        apply (rule triple_bnd[OF preservesD[OF preserves_lift]])
        apply (rule rerr_invalidate_route)
          apply (use inv[OF r] in \<open>auto simp: through_def\<close>)[1]
         apply (rule stay[OF r], use miss in blast)
        by (intro preserves_rules)
      done
    done
qed

lemma recv_rerr_pair_route:
  assumes R: "rerr_closed sender_ip R"
  shows "triple UNIV (within i a R) (recv_rerr_pair sender_ip bs k v) (\<lambda>_. within i a R)"
  by (rule recv_rerr_pair_hit[where hit = "(\<exists>ip. read_word bs (unat k * 2) = Inr ip \<and> slot_of ip = i)"])
    (use R in \<open>auto simp: rerr_closed_def through_def\<close>)

lemma recv_rerr_loop_route:
  assumes "rerr_closed sender_ip R"
  shows "triple UNIV (within i a R) (recv_rerr_loop fuel sender_ip bs count k v) (\<lambda>_. within i a R)"
proof (induction fuel arbitrary: k v)
  case 0
  show ?case by (simp add: triple_fail)
next
  case (Suc fuel)
  show ?case
    by (simp, intro conjI impI triple_bnd[OF recv_rerr_pair_route[OF assms] Suc.IH] triple_ret) simp_all
qed

text \<open>The loop takes a valid route over the sender away from every slot that a pair names.\<close>

lemma recv_rerr_loop_hit:
  assumes j: "j < count" and ip: "read_word bs (unat j * 2) = Inr ip" "slot_of ip = i"
  shows "k \<le> j \<Longrightarrow> triple UNIV (within i a (\<lambda>_. True)) (recv_rerr_loop fuel sender_ip bs count k v)
    (\<lambda>_. within i a (\<lambda>r. \<not> through sender_ip r))"
proof (induction fuel arbitrary: k v)
  case 0
  show ?case by (simp add: triple_fail)
next
  case (Suc fuel)
  have k: "k < count" using Suc.prems j by simp
  show ?case
  proof (cases "k = j")
    case True
    have "triple UNIV (within i a (\<lambda>_. True)) (recv_rerr_pair sender_ip bs k v)
        (\<lambda>_. within i a (\<lambda>r. \<not> through sender_ip r))"
      by (rule recv_rerr_pair_hit[where hit = True]) (use ip True in \<open>auto simp: through_def\<close>)
    then show ?thesis
      using k by (simp add: triple_bnd[OF _ recv_rerr_loop_route] rerr_closed_def through_def)
  next
    case False
    then have "k + 1 \<le> j" using Suc.prems by (metis inc_le order_le_less)
    then show ?thesis
      using k by (simp add: triple_bnd[OF recv_rerr_pair_route Suc.IH] rerr_closed_def)
  qed
qed

lemma recv_rerr_hit:
  assumes "decode_rerr bs = Inr h" and "j < rerr_dest_count h"
    and "read_word (drop sizeof_rerr bs) (unat j * 2) = Inr ip" "slot_of ip = i"
  shows "triple UNIV (within i a (\<lambda>_. True)) (recv_rerr sender_ip bs)
    (\<lambda>_. within i a (\<lambda>r. \<not> through sender_ip r))"
  unfolding recv_rerr_def Let_def assms(1) bnd_lift_sum[of "Inr h"] sum.case
  apply (rule triple_bnd[OF recv_rerr_loop_hit[OF assms(2-4)]], simp)
  apply (rule preservesD)
  apply (intro preserves_if preserves_bnd preserves_lift preserves_basic)
  by (auto intro: preserves_rules split: option.split)

lemma recv_rerr_route:
  assumes "rerr_closed sender_ip R"
  shows "triple UNIV (within i a R) (recv_rerr sender_ip bs) (\<lambda>_. within i a R)"
  unfolding recv_rerr_def Let_def
  apply (rule triple_bnd[OF preservesD[OF preserves_lift]])
  apply (rule triple_bnd[OF recv_rerr_loop_route[OF assms]])
  apply (rule preservesD)
  apply (intro preserves_if preserves_bnd preserves_lift preserves_basic)
  by (auto intro: preserves_rules split: option.split)

section \<open>A new entry\<close>

text \<open>The entry that is found under an address or made for it, in a state with the invariant.\<close>

lemma within_old:
  assumes "node_inv s" and "routes s i = Some a"
  shows "within i a (\<lambda>_. True) s"
proof -
  have "\<exists>e. heap s a = Some e" using assms unfolding node_inv_def table_inv_def by blast
  moreover from this have "a < next_addr s" using assms(1) by (auto simp: node_inv_def table_inv_def)
  moreover have "routes s j \<noteq> Some a" if "j \<noteq> i" for j
  proof
    assume "routes s j = Some a"
    with assms have "\<exists>e. heap s a = Some e \<and> slot_of (dest_ip e) = j"
      "\<exists>e. heap s a = Some e \<and> slot_of (dest_ip e) = i"
      unfolding node_inv_def table_inv_def by blast+
    with that show False by auto
  qed
  ultimately show ?thesis using assms(2) by (auto simp: within_def only_slot_def)
qed

lemma create_empty:
  assumes inv: "node_inv s" and empty: "routes s (slot_of ip) = None"
  shows "\<exists>t. create_or_get_routing_entry ip seq v hop hops timeout s = Inr ((Some (next_addr s), 1), t) \<and>
    within (slot_of ip) (next_addr s) ((=) \<lparr>r_dest_ip = ip, r_dest_seq = seq, r_seq_valid = v,
      r_next_hop = hop, r_hop_count = hops, r_status = ROUTE_INVALID\<rparr>) t"
proof -
  let ?r = "\<lparr>r_dest_ip = ip, r_dest_seq = seq, r_seq_valid = v, r_next_hop = hop,
    r_hop_count = hops, r_status = ROUTE_INVALID\<rparr>"
  obtain t where t: "create_or_get_routing_entry ip seq v hop hops timeout s = Inr ((Some (next_addr s), 1), t)"
    and f: "routes t = (routes s)(slot_of ip \<mapsto> next_addr s)" "next_addr t = Suc (next_addr s)"
      "\<exists>e. heap t (next_addr s) = Some e \<and> route_of e = ?r"
    using empty
    by (auto simp: create_or_get_routing_entry_def lookup_route_def get_routing_entry_def
        find_entry_slot prog_simps clock_gettime_def malloc_entry_def add_routing_entry_def
        deref_def bnd_def split_def route_of_def)
  have "routes s j \<noteq> Some (next_addr s)" for j
    using inv unfolding node_inv_def table_inv_def by (metis less_irrefl)
  then have "within (slot_of ip) (next_addr s) ((=) ?r) t"
    using f by (auto simp: within_def only_slot_def)
  with t show ?thesis by blast
qed

lemma create_empty_run:
  assumes "node_inv s" and "routes s (slot_of ip) = None"
    and new: "\<And>a. triple UNIV (within (slot_of ip) a ((=) \<lparr>r_dest_ip = ip, r_dest_seq = seq, r_seq_valid = v,
      r_next_hop = hop, r_hop_count = hops, r_status = ROUTE_INVALID\<rparr>)) (k (Some a, 1)) Q"
    and run: "bnd (create_or_get_routing_entry ip seq v hop hops timeout) k s = Inr (x, s')"
  shows "Q x s'"
proof -
  from create_empty[OF assms(1,2), of seq v hop hops timeout] obtain t where
    "create_or_get_routing_entry ip seq v hop hops timeout s = Inr ((Some (next_addr s), 1), t)"
    "within (slot_of ip) (next_addr s) ((=) \<lparr>r_dest_ip = ip, r_dest_seq = seq, r_seq_valid = v,
      r_next_hop = hop, r_hop_count = hops, r_status = ROUTE_INVALID\<rparr>) t" by blast
  with run triple_result[OF new this(2)] show ?thesis by (simp add: bnd_eqs)
qed

lemma triple_create_slot:
  assumes old: "\<And>a. triple UNIV (within (slot_of ip) a (\<lambda>_. True)) (k (Some a, 0)) Q"
    and new: "\<And>a. triple UNIV (within (slot_of ip) a ((=) \<lparr>r_dest_ip = ip, r_dest_seq = seq, r_seq_valid = v,
      r_next_hop = hop, r_hop_count = hops, r_status = ROUTE_INVALID\<rparr>)) (k (Some a, 1)) Q"
  shows "triple UNIV node_inv (bnd (create_or_get_routing_entry ip seq v hop hops timeout) k) Q"
proof (rule tripleI)
  fix s x s'
  assume inv: "node_inv s"
    and run: "bnd (create_or_get_routing_entry ip seq v hop hops timeout) k s = Inr (x, s')"
  show "Q x s'"
  proof (cases "routes s (slot_of ip)")
    case (Some a)
    with run have "k (Some a, 0) s = Inr (x, s')"
      by (simp add: create_or_get_routing_entry_def lookup_route_def get_routing_entry_def
          find_entry_slot prog_simps)
    then show ?thesis using triple_result[OF old within_old[OF inv Some]] by blast
  next
    case None
    then show ?thesis using new run by (rule create_empty_run[OF inv])
  qed
qed simp

text \<open>
  The reverse route after a request: valid, with a number that is not older than the
  originator's, and if it is that number, not longer than the way the request took.
\<close>

definition reverse_route_ok :: "rreq_header \<Rightarrow> route \<Rightarrow> bool" where
  "reverse_route_ok m r \<longleftrightarrow> r_status r = ROUTE_VALID \<and> r_seq_valid r = SEQ_VALID \<and>
     rreq_src_seq m \<le> r_dest_seq r \<and>
     (r_dest_seq r = rreq_src_seq m \<longrightarrow> r_hop_count r \<le> ucast (rreq_hop_count m))"

lemma rreq_route_ok: "reverse_route_ok m (rreq_route sender_ip m r)"
  by (cases "r_seq_valid r") (auto simp: reverse_route_ok_def rreq_route_def not_less)

lemma recv_rreq_reverse_route_new:
  assumes new: "\<And>r. R r \<Longrightarrow> R' (r\<lparr>r_dest_seq := rreq_src_seq m, r_seq_valid := SEQ_VALID,
      r_next_hop := sender_ip, r_hop_count := ucast (rreq_hop_count m), r_status := ROUTE_VALID\<rparr>)"
    and rest: "triple UNIV (within i a R') k Q"
  shows "triple UNIV (within i a R) (sq (mutex_lock (Some a))
     (sq (write_entry (Some a) (\<lambda>e. e\<lparr>rreq_id := n\<rparr>))
     (sq (start_rreq_timer (Some a))
     (sq (write_entry (Some a) (\<lambda>e. e\<lparr>dest_seq := rreq_src_seq m, seq_valid := SEQ_VALID,
              next_hop := sender_ip, hop_count := ucast (rreq_hop_count m)\<rparr>))
     (sq (write_entry (Some a) (\<lambda>e. e\<lparr>status := ROUTE_VALID\<rparr>)) k)))))
    Q"
  apply (rule triple_sq[OF preservesD[OF preserves_lock(1)]])
  apply (rule triple_sq[OF preservesD[OF preserves_write]], simp add: route_of_def)
  apply (rule triple_sq[OF preservesD[OF preserves_timers(2)]])
  apply (rule triple_sq[OF triple_write_route[where R' = "\<lambda>r. R' (r\<lparr>r_status := ROUTE_VALID\<rparr>)"]], drule new, simp)
  by (rule triple_sq[OF triple_write_route[where R' = R']], simp, rule rest)

text \<open>The end of the handler's section: the kernel's table and the timer.\<close>

lemma recv_rreq_reverse_route_end:
  "triple UNIV (within i a R) (bnd (deref (Some a)) (\<lambda>e.
      sq (AddUnicastRoutingEntry (dest_ip e) sender_ip)
      (bnd clock_gettime (\<lambda>now. sq (set_expiration_timer (Some a) (g now e)) (ret (Some a))))))
    (\<lambda>p s. p = Some a \<and> within i a R s)"
  apply (rule triple_bnd[OF preservesD[OF preserves_basic(5)]])
  apply (rule triple_sq[OF preservesD[OF preserves_api(1)]])
  apply (rule triple_bnd[OF preservesD[OF preserves_basic(6)]])
  by (rule triple_sq[OF preservesD[OF preserves_timers(1)]], rule triple_ret) blast

lemma recv_rreq_reverse_route_installs:
  "triple UNIV node_inv (recv_rreq_reverse_route sender_ip m)
    (\<lambda>p s. \<exists>a. p = Some a \<and> within (slot_of (rreq_src_ip m)) a (reverse_route_ok m) s)"
proof -
  let ?i = "slot_of (rreq_src_ip m)"
  have fin: "triple UNIV (within ?i a (reverse_route_ok m)) (bnd (deref (Some a)) (\<lambda>e.
      sq (AddUnicastRoutingEntry (dest_ip e) sender_ip)
      (bnd clock_gettime (\<lambda>now. sq (set_expiration_timer (Some a) (g now e)) (ret (Some a))))))
      (\<lambda>p s. \<exists>a. p = Some a \<and> within ?i a (reverse_route_ok m) s)" for a g
    by (rule triple_post[OF recv_rreq_reverse_route_end]) blast
  show ?thesis
    unfolding recv_rreq_reverse_route_def Let_def
    apply (rule triple_create_slot)
    subgoal for a
      apply (simp only: prod.case simp_thms if_True)
      apply (rule triple_sq[OF preservesD[OF preserves_lock(1)]])
      apply (rule triple_sq[OF preservesD[OF preserves_write]], simp add: route_of_def)
      apply (rule triple_sq[OF preservesD[OF preserves_timers(2)]])
      apply (rule triple_sq[OF rreq_update_test[where R' = "reverse_route_ok m" and sender_ip = sender_ip]],
        rule rreq_route_ok)
      by (rule triple_sq[OF triple_write_route[where R' = "reverse_route_ok m"]], simp, rule fin)
    subgoal for a
      by (simp only: prod.case simp_thms if_False one_neq_zero, rule recv_rreq_reverse_route_new[OF _ fin], simp add: reverse_route_ok_def)
    done
qed

end
