(* ===== verification/Route_Properties.thy ===== *)
theory Route_Properties
  imports System Route_Calculus
begin

text \<open>
  What the control messages do to the routes of a node, on the whole handlers: the routes a
  request, a reply, a hello message and an error change, and how.
\<close>

section \<open>The route in a slot\<close>

definition route_at :: "node \<Rightarrow> u8 \<Rightarrow> route option" where
  "route_at s i = (case routes s i of None \<Rightarrow> None | Some a \<Rightarrow> map_option route_of (heap s a))"

lemma route_at_within:
  assumes "node_inv s" and "route_at s i = Some r"
  shows "\<exists>a. within i a ((=) r) s"
proof -
  obtain a e where e: "routes s i = Some a" "heap s a = Some e" "r = route_of e"
    using assms(2) by (auto simp: route_at_def split: option.splits)
  from within_old[OF assms(1) e(1)] e(2,3) show ?thesis by (auto simp: within_def)
qed

lemma within_route_at: "within i a R s \<Longrightarrow> \<exists>r. route_at s i = Some r \<and> R r"
  by (auto simp: within_def route_at_def only_slot_def)

text \<open>From a triple about the entry in a slot to what a run does to the route there.\<close>

lemma route_after:
  assumes s: "node_inv s" "route_at s i = Some r" and R: "R r"
    and m: "\<And>a. triple UNIV (within i a R) m (\<lambda>_. within i a R')" and run: "m s = Inr (v, s')"
  shows "\<exists>r'. route_at s' i = Some r' \<and> R' r'"
proof -
  obtain a where "within i a ((=) r) s" using route_at_within[OF s] by blast
  then have "within i a R s" using R by (auto simp: within_def)
  from triple_result[OF m this run] show ?thesis by (rule within_route_at)
qed

lemma reachable_node_inv: "reachable s \<Longrightarrow> node_inv s"
  using reachable_ok by (auto simp: ok_iff)

lemma route_afterI:
  assumes "\<And>a. triple UNIV (within i a R) m (\<lambda>_. within i a R)" and "R r"
    and "reachable s" and "route_at s i = Some r" and "m s = Inr (v, s')"
  shows "\<exists>r'. route_at s' i = Some r' \<and> R r'"
  using route_after[where R = R and m = m, OF reachable_node_inv[OF assms(3)] assms(4,2,1,5)] .

lemma route_same:
  assumes "node_inv s" "route_at s i = Some r" and "\<And>a. triple UNIV (within i a ((=) r)) m (\<lambda>_. within i a ((=) r))"
    and "m s = Inr (v, s')"
  shows "route_at s' i = Some r"
  using route_after[OF assms(1,2), of "(=) r" m "(=) r"] assms(3,4) by auto

text \<open>
  Samples: the node \<open>heard\<close> has a route of three hops to 12.0.0.1, over 11.0.0.1, with number 9;
  messages it may get next.
\<close>

definition next_request :: rreq_header where
  "next_request = sample_request\<lparr>rreq_rreq_id := 8, rreq_src_seq := 8\<rparr>"

definition sample_reply :: rrep_header where
  "sample_reply = \<lparr>rrep_hop_count = 9, rrep_prefix_size = 0, rrep_reserved = 0, rrep_flags = 0,
     rrep_type = RREP_TYPE, rrep_dest_ip = 0x0C000001, rrep_dest_seq = 9, rrep_src_ip = 0x0A000001,
     rrep_lifetime = 3000\<rparr>"

definition sample_hello :: rrep_header where
  "sample_hello = sample_reply\<lparr>rrep_hop_count := 0, rrep_src_ip := 0\<rparr>"

definition sample_error :: "u8 list" where
  "sample_error = [1, 0, 0, 3, 1, 0, 0, 12, 12, 0, 0, 0]"

definition heard_route :: route where
  "heard_route = \<lparr>r_dest_ip = 0x0C000001, r_dest_seq = 9, r_seq_valid = SEQ_VALID,
     r_next_hop = 0x0B000001, r_hop_count = 3, r_status = ROUTE_VALID\<rparr>"

definition returns :: "fault + 'a \<Rightarrow> bool" where
  "returns r \<longleftrightarrow> (case r of Inl _ \<Rightarrow> False | Inr _ \<Rightarrow> True)"

lemma returnsD: "returns r \<Longrightarrow> \<exists>v s'. r = Inr (v, s')"
  by (auto simp: returns_def split: sum.splits)

lemma heard_route_at: "route_at heard 0x0C = Some heard_route"
  by code_simp

lemma heard_request: "returns (recv_rreq 0x0E000001 next_request heard)"
  by code_simp

lemma heard_reply: "returns (recv_rrep 0x0E000001 sample_reply heard)"
  by code_simp

lemma heard_hello: "returns (recv_rrep 0x0E000001 sample_hello heard)"
  by code_simp

lemma heard_other_error: "returns (recv_rerr 0x0E000001 sample_error heard)"
  by code_simp

lemma heard_error: "returns (recv_rerr 0x0B000001 sample_error heard)"
  by code_simp

lemmas heard_returns = heard_request heard_reply heard_hello heard_other_error heard_error

lemma slots [simp]: "slot_of 0x0C000001 = 12" "slot_of 0x0E000001 = 14" "slot_of 0x0B000001 = 11"
  by (simp_all add: slot_of_def)

text \<open>
  The addresses of the node and its surroundings stay what they are, and what it did to the outside
  is not undone.
\<close>

definition later :: "node \<Rightarrow> node \<Rightarrow> bool" where
  "later s s' \<longleftrightarrow> ip_address s' = ip_address s \<and> broadcast_ip s' = broadcast_ip s \<and>
     world s' = world s \<and> (\<exists>evs. events s' = events s @ evs)"

lemma later_refl: "later s s"
  by (simp add: later_def)

lemma later_trans: "later s t \<Longrightarrow> later t u \<Longrightarrow> later s u"
  by (auto simp: later_def)

definition fixed :: "(node, 'a) prog \<Rightarrow> bool" where
  "fixed m \<longleftrightarrow> (\<forall>s x s'. m s = Inr (x, s') \<longrightarrow> later s s')"

lemma fixedD: "fixed m \<Longrightarrow> m s = Inr (x, s') \<Longrightarrow> later s s'"
  by (simp add: fixed_def)

lemma fixed_basic:
  "fixed (ret x)" "fixed (gets g)" "fixed (fail f)" "fixed (deref p)" "fixed (write_entry p f')"
  "fixed (lookup_route ip)" "fixed clock_gettime" "fixed (emit ev)" "fixed (pthread_cancel t)"
  "fixed (set_thread t th)" "fixed (malloc_entry e)" "fixed (modify (\<lambda>s. s\<lparr>routes := h s\<rparr>))"
  "fixed (modify (\<lambda>s. s\<lparr>threads := h1 s, next_tid := h2 s\<rparr>))"
  by (auto simp: fixed_def later_def ret_def gets_def fail_def deref_def write_entry_def lookup_route_def
      clock_gettime_def emit_def modify_def pthread_cancel_def set_thread_def malloc_entry_def
      split: option.splits)

lemma fixed_bnd: "fixed m \<Longrightarrow> (\<And>x. fixed (k x)) \<Longrightarrow> fixed (bnd m k)"
  unfolding fixed_def bnd_Inr_iff by (metis later_trans)

lemma fixed_sq: "fixed m \<Longrightarrow> fixed n \<Longrightarrow> fixed (sq m n)"
  unfolding sq_def by (rule fixed_bnd)

lemma fixed_if: "(b \<Longrightarrow> fixed m) \<Longrightarrow> (\<not> b \<Longrightarrow> fixed n) \<Longrightarrow> fixed (if b then m else n)"
  by simp

lemma fixed_when: "fixed m \<Longrightarrow> fixed (when_p b m)"
  by (simp add: when_p_def fixed_basic)

lemmas fixed_rules = fixed_basic fixed_bnd fixed_sq fixed_if fixed_when

lemma fixed_lists: "fixed (at_precursors p m)" "fixed (at_next_hop_for p m)"
  unfolding at_precursors_def at_next_hop_for_def
  by (auto intro!: fixed_rules split: sum.splits)

lemma fixed_create: "fixed (create_or_get_routing_entry ip seq v hop hops timeout)"
  unfolding create_or_get_routing_entry_def add_routing_entry_def Let_def
  by (auto intro!: fixed_rules split: prod.splits)

lemma fixed_previous_hop: "fixed (recv_rreq_previous_hop sender_ip m)"
  unfolding recv_rreq_previous_hop_def block.simps set_expiration_timer_def pthread_create_def
    mutex_lock_def mutex_unlock_def AddUnicastRoutingEntry_def
  by (auto intro!: fixed_rules fixed_lists fixed_create split: prod.splits)

section \<open>Requests\<close>

text \<open>
  A route that replaces another must have a newer number, or the same number and fewer hops;
  with the same number and the same hops it must have the same next hop.
\<close>

definition not_older :: "route \<Rightarrow> route \<Rightarrow> bool" where
  "not_older r r' \<longleftrightarrow> r_seq_valid r' = SEQ_VALID \<and> r_dest_ip r' = r_dest_ip r \<and>
     (r_dest_seq r < r_dest_seq r' \<or>
      (r_dest_seq r = r_dest_seq r' \<and> (r_hop_count r' < r_hop_count r \<or>
        (r_hop_count r' = r_hop_count r \<and> r_next_hop r' = r_next_hop r))))"

lemma not_older_rreq: "not_older r q \<Longrightarrow> not_older r (rreq_route sender_ip m q)"
  by (auto simp: not_older_def rreq_route_def)

lemma recv_rreq_not_older:
  assumes "reachable s" and "route_at s i = Some r" and "r_seq_valid r = SEQ_VALID"
    and "recv_rreq sender_ip m s = Inr (v, s')"
  shows "\<exists>r'. route_at s' i = Some r' \<and> not_older r r'"
proof -
  have "triple UNIV (within i a (not_older r)) (recv_rreq sender_ip m) (\<lambda>_. within i a (not_older r))" for a
    by (rule recv_rreq_route, simp add: keeps_validated_def not_older_def) (rule not_older_rreq)
  moreover have "not_older r r" using assms(3) by (simp add: not_older_def)
  ultimately show ?thesis by (rule route_afterI) (use assms in simp_all)
qed



text \<open>The handler by its cases: an own request, a repetition, or one that makes the reverse route.\<close>

definition request_rest :: "u32 \<Rightarrow> u32 \<Rightarrow> rreq_header \<Rightarrow> ptr \<Rightarrow> (node, verdict) prog" where
  "request_rest own_ip sender_ip m originator =
     (if own_ip = rreq_dest_ip m then
        sq (mark_active originator)
        (sq (mutex_unlock originator)
        (sq (send_rrep_destination m sender_ip)
        (ret LOGGING)))
      else
        sq (mutex_unlock originator)
        (bnd (lookup_route (rreq_dest_ip m)) (\<lambda>destination.
         bnd (if \<not> rreq_flag m RREQ_DEST_ONLY \<and> destination \<noteq> None then
                bnd (deref destination) (\<lambda>e.
                if status e = ROUTE_VALID \<and> seq_valid e = SEQ_VALID
                then own_route_fresher m e else ret False)
              else ret False) (\<lambda>answer.
         if answer then sq (send_rrep_intermediate m sender_ip) (ret LOGGING)
         else recv_rreq_forward destination m))))"

lemma request_rest_route: "preserves (request_rest own_ip sender_ip m p)"
  unfolding request_rest_def
  by (intro preserves_rules mark_active_route send_rrep_destination_route own_route_fresher_route
      send_rrep_intermediate_route recv_rreq_forward_route)

lemma recv_rreq_cases:
  assumes "recv_rreq sender_ip m s = Inr (v, s')"
  obtains s1 where "recv_rreq_previous_hop sender_ip m s = Inr ((), s1)" "rreq_src_ip m = ip_address s" "s' = s1"
  | s1 where "recv_rreq_previous_hop sender_ip m s = Inr ((), s1)" "rreq_src_ip m \<noteq> ip_address s"
      "recv_rreq_repeated m s1 = Inr (True, s1)" "s' = s1"
  | s1 p s2 where "recv_rreq_previous_hop sender_ip m s = Inr ((), s1)" "rreq_src_ip m \<noteq> ip_address s"
      "recv_rreq_repeated m s1 = Inr (False, s1)"
      "recv_rreq_reverse_route sender_ip (increment_hop_rreq m) s1 = Inr (p, s2)"
      "request_rest (ip_address s) sender_ip (increment_hop_rreq m) p s2 = Inr (v, s')"
proof -
  obtain s1 where s1: "recv_rreq_previous_hop sender_ip m s = Inr ((), s1)"
    using assms by (auto simp: recv_rreq_def sq_def bnd_Inr_iff)
  have ip: "ip_address s1 = ip_address s" using fixedD[OF fixed_previous_hop s1] by (simp add: later_def)
  show thesis
  proof (cases "rreq_src_ip m = ip_address s")
    case True
    with assms s1 ip have "s' = s1" by (simp add: recv_rreq_def prog_simps)
    show thesis using that(1)[OF s1 True \<open>s' = s1\<close>] .
  next
    case False
    obtain b t where rep: "recv_rreq_repeated m s1 = Inr (b, t)"
      and rest: "(if b then ret LOGGING else bnd (recv_rreq_reverse_route sender_ip (increment_hop_rreq m))
        (request_rest (ip_address s) sender_ip (increment_hop_rreq m))) t = Inr (v, s')"
      using False assms[unfolded recv_rreq_def Let_def] s1 ip
      unfolding request_rest_def[abs_def] by (auto simp: bnd_Inr_iff[of "recv_rreq_repeated m"] prog_simps)
    have t: "t = s1"
      using rep by (auto simp: recv_rreq_repeated_def lookup_route_def deref_def prog_simps bnd_Inr_iff
          split: if_splits option.splits)
    show thesis
    proof (cases b)
      case True
      with rest t rep s1 False show thesis by (intro that(2)) (simp_all add: prog_simps)
    next
      case b: False
      with rest t obtain p s2 where "recv_rreq_reverse_route sender_ip (increment_hop_rreq m) s1 = Inr (p, s2)"
        "request_rest (ip_address s) sender_ip (increment_hop_rreq m) p s2 = Inr (v, s')"
        by (simp only: if_False bnd_Inr_iff) blast
      with s1 False rep t b show thesis by (intro that(3)) simp_all
    qed
  qed
qed

lemma recv_rreq_installs:
  assumes "reachable s" and "rreq_src_ip m \<noteq> ip_address s" and "recv_rreq sender_ip m s = Inr (v, s')"
  shows "recv_rreq_repeated m s' = Inr (True, s') \<and> recv_rreq_previous_hop sender_ip m s = Inr ((), s') \<or>
    (\<exists>r. route_at s' (slot_of (rreq_src_ip m)) = Some r \<and> reverse_route_ok (increment_hop_rreq m) r)"
  using assms(3)
proof (cases rule: recv_rreq_cases)
  case (3 s1 p s2)
  have "ok (held s) {} s1"
    by (rule triple_result[OF recv_rreq_previous_hop_ok[where F = UNIV] reachable_ok[OF assms(1)] 3(1)]) simp
  then have "node_inv s1" by (simp add: ok_iff)
  from triple_result[OF recv_rreq_reverse_route_installs this 3(4)]
  obtain a where "within (slot_of (rreq_src_ip m)) a (reverse_route_ok (increment_hop_rreq m)) s2"
    by (auto simp: increment_hop_rreq_def)
  from triple_result[OF preservesD[OF request_rest_route] this 3(5)] show ?thesis
    using within_route_at by blast
qed (use assms(2) in simp_all)



section \<open>Replies\<close>

text \<open>
  After a reply: a valid route to its destination, with a newer number or the route over the sender.
\<close>

definition forward_route_ok :: "u32 \<Rightarrow> rrep_header \<Rightarrow> route \<Rightarrow> bool" where
  "forward_route_ok sender_ip m r \<longleftrightarrow> r_status r = ROUTE_VALID \<and> r_seq_valid r = SEQ_VALID \<and>
     (sint (rrep_dest_seq m) < sint (r_dest_seq r) \<or>
      r_dest_seq r = rrep_dest_seq m \<and> r_next_hop r = sender_ip \<and> r_hop_count r = ucast (rrep_hop_count m))"

lemma rrep_route_ok: "forward_route_ok sender_ip m (rrep_route sender_ip m r)"
  by (cases "r_seq_valid r") (auto simp: forward_route_ok_def rrep_route_def not_le)

text \<open>For a new entry the handler goes on as for an old one: its number is that of the reply.\<close>

lemma forward_route_new:
  assumes inv: "node_inv s" and new: "routes s (slot_of (rrep_dest_ip m)) = None"
  shows "\<exists>t. within (slot_of (rrep_dest_ip m)) (next_addr s) (\<lambda>_. True) t \<and>
    recv_rrep_forward_route sender_ip m s = recv_rrep_forward_route sender_ip m t"
proof -
  let ?i = "slot_of (rrep_dest_ip m)" and ?a = "next_addr s"
  obtain t e where t: "create_or_get_routing_entry (rrep_dest_ip m) (rrep_dest_seq m) SEQ_VALID sender_ip
        (ucast (rrep_hop_count m)) (rrep_lifetime m) s = Inr ((Some ?a, 1), t)"
    and r: "routes t = (routes s)(?i \<mapsto> ?a)" "next_addr t = Suc ?a"
    and e: "heap t ?a = Some e" "dest_seq e = rrep_dest_seq m" "seq_valid e = SEQ_VALID" "\<not> entry_mutex e"
    using new
    by (auto simp: create_or_get_routing_entry_def lookup_route_def get_routing_entry_def
        find_entry_slot prog_simps clock_gettime_def malloc_entry_def add_routing_entry_def
        deref_def bnd_def split_def)
  have t0: "create_or_get_routing_entry (rrep_dest_ip m) (rrep_dest_seq m) SEQ_VALID sender_ip
      (ucast (rrep_hop_count m)) (rrep_lifetime m) t = Inr ((Some ?a, 0), t)"
    using r(1) by (simp add: create_or_get_routing_entry_def lookup_route_def get_routing_entry_def
        find_entry_slot prog_simps)
  have "routes s j \<noteq> Some ?a" for j
    using inv unfolding node_inv_def table_inv_def by (metis less_irrefl)
  then have "within ?i ?a (\<lambda>_. True) t" using r e(1) by (auto simp: within_def only_slot_def)
  moreover have "rrep_updates 1 m e' u = Inr (True, u)" "rrep_updates 0 m e' u = Inr (True, u)"
    if "dest_seq e' = rrep_dest_seq m" "seq_valid e' = SEQ_VALID" for e' u
    using that by (simp_all add: rrep_updates_def seq_compare_def Let_def in_int32_def prog_simps)
  then have "recv_rrep_forward_route sender_ip m s = recv_rrep_forward_route sender_ip m t"
    using e
    by (simp add: recv_rrep_forward_route_def t t0 prog_simps mutex_lock_def deref_def
        write_entry_def)
  ultimately show ?thesis by blast
qed

lemma recv_rrep_forward_route_installs:
  "triple UNIV node_inv (recv_rrep_forward_route sender_ip m)
    (\<lambda>p s. \<exists>a. within (slot_of (rrep_dest_ip m)) a (forward_route_ok sender_ip m) s)"
proof (rule tripleI)
  fix s p s'
  assume inv: "node_inv s" and run: "recv_rrep_forward_route sender_ip m s = Inr (p, s')"
  let ?i = "slot_of (rrep_dest_ip m)"
  have "\<exists>a t. within ?i a (\<lambda>_. True) t \<and> recv_rrep_forward_route sender_ip m t = Inr (p, s')"
  proof (cases "routes s ?i")
    case None
    with forward_route_new[OF inv None, of sender_ip] run show ?thesis by metis
  next
    case (Some a)
    with within_old[OF inv Some] run show ?thesis by blast
  qed
  then obtain a t where a: "within ?i a (\<lambda>_. True) t" "recv_rrep_forward_route sender_ip m t = Inr (p, s')" by blast
  have "triple UNIV (within ?i a (\<lambda>_. True)) (recv_rrep_forward_route sender_ip m)
      (\<lambda>p s. within ?i a (forward_route_ok sender_ip m) s \<and> p = Some a)"
    by (rule recv_rrep_forward_route_same[OF refl]) (rule rrep_route_ok)
  from triple_result[OF this a] show "\<exists>a. within ?i a (forward_route_ok sender_ip m) s'" by blast
qed simp

lemma recv_rrep_installs:
  assumes ok: "ok H {} s" and src: "rrep_src_ip m \<noteq> 0" and run: "recv_rrep sender_ip m s = Inr (v, s')"
  shows "\<exists>r. route_at s' (slot_of (rrep_dest_ip m)) = Some r \<and>
    forward_route_ok sender_ip (increment_hop_rrep m) r"
proof -
  let ?m = "increment_hop_rrep m"
  have slot: "rrep_dest_ip ?m = rrep_dest_ip m" by (simp add: increment_hop_rrep_def)
  obtain s1 s2 p s3 where s1: "recv_rrep_stop_search m s = Inr ((), s1)"
    and s2: "recv_rrep_previous_hop sender_ip m s1 = Inr ((), s2)"
    and s3: "recv_rrep_forward_route sender_ip ?m s2 = Inr (p, s3)"
    and rest: "(sq (recv_rrep_forward p ?m) (sq (mutex_unlock p) (ret LOGGING))) s3 = Inr (v, s')"
    using run src by (auto simp: recv_rrep_def Let_def sq_def bnd_Inr_iff)
  have parts: "triple UNIV (ok H {}) (recv_rrep_stop_search m) (\<lambda>_. ok H {})"
    "triple UNIV (ok H {}) (recv_rrep_previous_hop sender_ip m) (\<lambda>_. ok H {})"
    by (rule recv_rrep_stop_search_ok recv_rrep_previous_hop_ok, simp)+
  have "node_inv s2"
    using triple_result[OF parts(2) triple_result[OF parts(1) ok s1] s2] by (simp add: ok_iff)
  from triple_result[OF recv_rrep_forward_route_installs this s3] slot
  obtain a where a: "within (slot_of (rrep_dest_ip m)) a (forward_route_ok sender_ip ?m) s3" by auto
  have "preserves (sq (recv_rrep_forward p ?m) (sq (mutex_unlock p) (ret LOGGING)))"
    by (intro preserves_rules recv_rrep_forward_to_origin)
  from triple_result[OF preservesD[OF this] a rest] show ?thesis by (rule within_route_at)
qed

lemma rrep_route_validated: "rrep_route sender_ip m (r\<lparr>r_status := ROUTE_VALID\<rparr>) = rrep_route sender_ip m r"
  by (simp add: rrep_route_def)

lemma recv_rrep_destination:
  assumes "node_inv s" and "rrep_src_ip m \<noteq> 0" and "route_at s (slot_of (rrep_dest_ip m)) = Some r"
    and "recv_rrep sender_ip m s = Inr (v, s')"
  shows "route_at s' (slot_of (rrep_dest_ip m)) =
    Some (rrep_route sender_ip (increment_hop_rrep m) r)"
proof -
  let ?i = "slot_of (rrep_dest_ip m)" and ?r' = "rrep_route sender_ip (increment_hop_rrep m) r"
  let ?R = "\<lambda>q. q = r \<or> q = r\<lparr>r_status := ROUTE_VALID\<rparr>"
  have "triple UNIV (within ?i a ?R) (recv_rrep sender_ip m) (\<lambda>_. within ?i a ((=) ?r'))" for a
    by (rule recv_rrep_route) (auto simp: keeps_validated_def assms(2) rrep_route_validated)
  then have "\<exists>q. route_at s' ?i = Some q \<and> ?r' = q"
    by (intro route_after[where R = ?R and m = "recv_rrep sender_ip m",
          OF assms(1) assms(3) _ _ assms(4)]) simp
  then show ?thesis by simp
qed



text \<open>C33: A reply changes no route but those to its destination and to its sender.\<close>

theorem rrep_keeps_other_routes:
  assumes "reachable s" and "rrep_src_ip m \<noteq> 0" and "route_at s i = Some r"
    and "i \<noteq> slot_of (rrep_dest_ip m)" and "i \<noteq> slot_of sender_ip"
    and "recv_rrep sender_ip m s = Inr (v, s')"
  shows "route_at s' i = Some r"
proof -
  have "triple UNIV (within i a ((=) r)) (recv_rrep sender_ip m) (\<lambda>_. within i a ((=) r))" for a
    by (rule recv_rrep_route) (use assms in auto)
  then show ?thesis
    by (intro route_same[where m = "recv_rrep sender_ip m", OF reachable_node_inv[OF assms(1)] assms(3) _ assms(6)])
qed

theorem rrep_keeps_other_routes_witness:
  "case recv_rrep 0x0E000001 sample_reply heard of Inl _ \<Rightarrow> False
   | Inr (v, s') \<Rightarrow> route_at s' 0x0B = route_at heard 0x0B \<and> route_at heard 0x0B \<noteq> None"
proof -
  obtain v s' where run: "recv_rrep 0x0E000001 sample_reply heard = Inr (v, s')"
    using heard_returns by (blast dest: returnsD)
  have "route_at heard 0x0B \<noteq> None" by code_simp
  then obtain r where "route_at heard 0x0B = Some r" by blast
  with rrep_keeps_other_routes[OF heard_reachable _ this _ _ run] run show ?thesis
    by (simp add: sample_reply_def)
qed

text \<open>
  A reply with the number the node already has replaces the route, whatever the hop counts:
  the new route may be longer. The comment in \<open>recv_rrep\<close> asks for a greater number, or the same
  and a smaller hop count.
\<close>

theorem reply_may_lengthen:
  assumes "reachable s" and "rrep_src_ip m \<noteq> 0" and "route_at s (slot_of (rrep_dest_ip m)) = Some r"
    and "rrep_dest_seq m = r_dest_seq r" and "recv_rrep sender_ip m s = Inr (v, s')"
  shows "route_at s' (slot_of (rrep_dest_ip m)) = Some (r\<lparr>r_seq_valid := SEQ_VALID,
    r_next_hop := sender_ip, r_hop_count := ucast (rrep_hop_count m + 1), r_status := ROUTE_VALID\<rparr>)"
proof -
  let ?i = "slot_of (rrep_dest_ip m)" and ?m = "increment_hop_rrep m"
  let ?R = "\<lambda>q. q = r \<or> q = r\<lparr>r_status := ROUTE_VALID\<rparr>"
  have "triple UNIV (within ?i a ?R) (recv_rrep sender_ip m)
      (\<lambda>_. within ?i a ((=) (rrep_route sender_ip ?m r)))" for a
    by (rule recv_rrep_route) (auto simp: keeps_validated_def assms(2) rrep_route_validated)
  then have "\<exists>q. route_at s' ?i = Some q \<and> rrep_route sender_ip ?m r = q"
    by (intro route_after[where R = ?R and m = "recv_rrep sender_ip m",
          OF reachable_node_inv[OF assms(1)] assms(3) _ _ assms(5)]) simp
  then show ?thesis
    using assms(4) by (cases r) (simp add: rrep_route_def increment_hop_rrep_def)
qed

theorem reply_may_lengthen_witness:
  "case recv_rrep 0x0E000001 sample_reply heard of Inl _ \<Rightarrow> False
   | Inr (v, s') \<Rightarrow> route_at s' 0x0C = Some (heard_route\<lparr>r_next_hop := 0x0E000001, r_hop_count := 10\<rparr>)"
proof -
  obtain v s' where "recv_rrep 0x0E000001 sample_reply heard = Inr (v, s')"
    using heard_returns by (blast dest: returnsD)
  with reply_may_lengthen[OF heard_reachable _ _ _ this] show ?thesis
    using heard_route_at by (simp add: sample_reply_def heard_route_def)
qed

text \<open>The part of a route a hello message leaves alone.\<close>

definition same_path :: "route \<Rightarrow> route \<Rightarrow> bool" where
  "same_path r r' \<longleftrightarrow> r_dest_ip r' = r_dest_ip r \<and> r_next_hop r' = r_next_hop r \<and>
     r_hop_count r' = r_hop_count r \<and> r_status r' = r_status r"

text \<open>
  C34: A hello message never makes a route usable: it changes the number of a known neighbour and
  the validity of that number, but the status, the next hop and the hop count of every route stay.
\<close>

theorem hello_keeps_paths:
  assumes "reachable s" and "rrep_src_ip m = 0" and "route_at s i = Some r"
    and "recv_rrep sender_ip m s = Inr (v, s')"
  shows "\<exists>r'. route_at s' i = Some r' \<and> same_path r r'"
proof -
  have "triple UNIV (within i a (same_path r)) (recv_rrep sender_ip m) (\<lambda>_. within i a (same_path r))" for a
    unfolding recv_rrep_def if_P[OF assms(2)]
    by (rule triple_sq[OF preservesD[OF recv_rrep_stop_search_route]]
        triple_sq[OF recv_rrep_hello_route] preservesD preserves_rules | (simp add: same_path_def; fail))+
  moreover have "same_path r r" by (simp add: same_path_def)
  ultimately show ?thesis by (rule route_afterI) (use assms in simp_all)
qed

theorem hello_keeps_paths_witness:
  "case recv_rrep 0x0E000001 sample_hello heard of Inl _ \<Rightarrow> False
   | Inr (v, s') \<Rightarrow> (\<exists>r'. route_at s' 0x0C = Some r' \<and> same_path heard_route r')"
proof -
  obtain v s' where "recv_rrep 0x0E000001 sample_hello heard = Inr (v, s')"
    using heard_returns by (blast dest: returnsD)
  with hello_keeps_paths[OF heard_reachable _ heard_route_at this] show ?thesis
    by (simp add: sample_hello_def)
qed

section \<open>Errors\<close>

text \<open>What an error may do to a route: nothing, or withdrawing a valid route over its sender.\<close>

definition withdrawn :: "u32 \<Rightarrow> route \<Rightarrow> route \<Rightarrow> bool" where
  "withdrawn sender_ip r r' \<longleftrightarrow> r' = r \<or> (r_next_hop r = sender_ip \<and> r_status r = ROUTE_VALID \<and>
     same_path (r\<lparr>r_status := ROUTE_INVALID\<rparr>) r' \<and> r_seq_valid r' = r_seq_valid r)"

lemma withdrawn_closed: "rerr_closed sender_ip (withdrawn sender_ip r)"
  by (auto simp: rerr_closed_def withdrawn_def same_path_def)

text \<open>
  C13: A route error touches only valid routes over its sender: any other route stays as it is, and
  a route over the sender keeps its path and stays as it is or becomes invalid.
\<close>

theorem rerr_only_through_sender:
  assumes "reachable s" and "route_at s i = Some r" and "recv_rerr sender_ip bs s = Inr (v, s')"
  shows "\<exists>r'. route_at s' i = Some r' \<and> withdrawn sender_ip r r'"
proof -
  have "withdrawn sender_ip r r" by (simp add: withdrawn_def)
  then show ?thesis
    by (rule route_afterI[OF recv_rerr_route[OF withdrawn_closed] _ assms])
qed

theorem rerr_only_through_sender_witness:
  "case recv_rerr 0x0E000001 sample_error heard of Inl _ \<Rightarrow> False
   | Inr (v, s') \<Rightarrow> route_at s' 0x0C = Some heard_route"
proof -
  obtain v s' where "recv_rerr 0x0E000001 sample_error heard = Inr (v, s')"
    using heard_returns by (blast dest: returnsD)
  with rerr_only_through_sender[OF heard_reachable heard_route_at this] show ?thesis
    by (auto simp: withdrawn_def heard_route_def)
qed

text \<open>
  C12: A complete route error does what it is for: when it names a destination, the node has no
  valid route to it over the sender afterwards. A route over another hop stays as it is.
\<close>

theorem rerr_invalidates:
  assumes "reachable s" and "decode_rerr bs = Inr h" and "j < rerr_dest_count h"
    and "read_word (drop sizeof_rerr bs) (unat j * 2) = Inr ip"
    and "route_at s (slot_of ip) = Some r" and "recv_rerr sender_ip bs s = Inr (v, s')"
  shows "\<exists>r'. route_at s' (slot_of ip) = Some r' \<and>
    (if through sender_ip r then same_path (r\<lparr>r_status := ROUTE_INVALID\<rparr>) r' else r' = r)"
proof -
  obtain r' where r': "route_at s' (slot_of ip) = Some r'" "withdrawn sender_ip r r'"
    using route_afterI[OF recv_rerr_route[OF withdrawn_closed] _ assms(1,5,6)]
    by (auto simp: withdrawn_def)
  have "\<exists>q. route_at s' (slot_of ip) = Some q \<and> \<not> through sender_ip q"
    by (rule route_after[OF reachable_node_inv[OF assms(1)] assms(5) _ recv_rerr_hit[OF assms(2-4) refl] assms(6)]) simp
  with r' show ?thesis by (auto simp: withdrawn_def through_def)
qed

theorem rerr_invalidates_witness:
  "case recv_rerr 0x0B000001 sample_error heard of Inl _ \<Rightarrow> False
   | Inr (v, s') \<Rightarrow> (\<exists>r'. route_at s' 0x0C = Some r' \<and>
       same_path (heard_route\<lparr>r_status := ROUTE_INVALID\<rparr>) r')"
proof -
  obtain v s' where run: "recv_rerr 0x0B000001 sample_error heard = Inr (v, s')"
    using heard_returns by (blast dest: returnsD)
  have "case decode_rerr sample_error of Inl _ \<Rightarrow> False | Inr h \<Rightarrow> rerr_dest_count h = 1" by code_simp
  then obtain h where h: "decode_rerr sample_error = Inr h" "rerr_dest_count h = 1"
    by (auto split: sum.splits)
  have pair: "read_word (drop sizeof_rerr sample_error) (unat (0 :: u8) * 2) = Inr 0x0C000001" by code_simp
  show ?thesis
    using rerr_invalidates[OF heard_reachable h(1) _ pair _ run] heard_route_at h(2) run
    by (simp add: through_def heard_route_def)
qed

section \<open>Entries\<close>

text \<open>Programs that free no entry of the table.\<close>

abbreviation anything :: "route \<Rightarrow> bool" where
  "anything \<equiv> \<lambda>_. True"

definition stays :: "(node, 'a) prog \<Rightarrow> bool" where
  "stays m \<longleftrightarrow> (\<forall>i a. triple UNIV (within i a anything) m (\<lambda>_. within i a anything))"

lemma staysD: "stays m \<Longrightarrow> triple UNIV (within i a anything) m (\<lambda>_. within i a anything)"
  by (simp add: stays_def)

lemma stays_preserves: "preserves m \<Longrightarrow> stays m"
  by (simp add: stays_def preserves_def)

lemma stays_bnd: "stays m \<Longrightarrow> (\<And>x. stays (k x)) \<Longrightarrow> stays (bnd m k)"
  unfolding stays_def by (blast intro: triple_bnd)

lemma stays_sq: "stays m \<Longrightarrow> stays n \<Longrightarrow> stays (sq m n)"
  unfolding sq_def by (rule stays_bnd)

lemma stays_if: "(b \<Longrightarrow> stays m) \<Longrightarrow> (\<not> b \<Longrightarrow> stays n) \<Longrightarrow> stays (if b then m else n)"
  by simp

lemma stays_when: "stays m \<Longrightarrow> stays (when_p b m)"
  by (simp add: when_p_def stays_preserves preserves_basic)

lemma stays_write: "stays (write_entry p f)"
  by (auto simp: stays_def triple_def within_def write_entry_def split: option.splits)

lemma stays_create: "stays (create_or_get_routing_entry ip seq v hop hops timeout)"
proof -
  have "triple UNIV (within i a anything) (bnd (create_or_get_routing_entry ip seq v hop hops timeout) ret)
      (\<lambda>_. within i a anything)" for i a
    by (rule triple_create_route) (rule triple_ret)
  moreover have "bnd m ret = m" for m :: "(node, ptr \<times> u8) prog"
    by (rule ext) (simp add: bnd_def ret_def split: sum.split)
  ultimately show ?thesis by (simp add: stays_def)
qed

lemma stays_pending: "stays (modify (\<lambda>s. s\<lparr>pending := h s\<rparr>))"
  by (simp add: stays_def triple_def within_def modify_def)

lemmas stays_rules = stays_preserves[OF preserves_basic(1)] stays_preserves[OF preserves_basic(2)]
  stays_preserves[OF preserves_basic(3)] stays_preserves[OF preserves_basic(4)]
  stays_preserves[OF preserves_basic(5)] stays_preserves[OF preserves_basic(6)]
  stays_preserves[OF preserves_basic(7)] stays_preserves[OF preserves_basic(8)]
  stays_preserves[OF preserves_basic(9)] stays_preserves[OF preserves_basic(10)]
  stays_preserves[OF preserves_basic(11)] stays_preserves[OF preserves_basic(12)]
  stays_preserves[OF preserves_basic(13)] stays_preserves[OF preserves_lift]
  stays_preserves[OF preserves_note]
  stays_preserves[OF preserves_lock(1)] stays_preserves[OF preserves_lock(2)]
  stays_preserves[OF preserves_lists(1)] stays_preserves[OF preserves_lists(2)]
  stays_preserves[OF preserves_timers(1)] stays_preserves[OF preserves_timers(2)]
  stays_preserves[OF preserves_api(1)] stays_preserves[OF preserves_api(2)]
  stays_preserves[OF preserves_api(3)] stays_preserves[OF preserves_api(4)]
  stays_preserves[OF preserves_api(5)]
  stays_write stays_create stays_pending stays_bnd stays_sq stays_if stays_when

lemma stays_create_thread: "stays (pthread_create store p th)"
proof -
  have "stays (modify (\<lambda>s. s\<lparr>threads := (threads s)(t \<mapsto> th a), next_tid := Suc t\<rparr>))" for t a
    by (simp add: stays_def triple_def within_def modify_def)
  then show ?thesis unfolding pthread_create_def block.simps by (intro stays_rules)
qed

lemma stays_control: "stays (incoming_control_message src payload)"
proof -
  have "stays (recv_rreq src m)" for m
    unfolding stays_def by (intro allI recv_rreq_route) (simp_all add: keeps_validated_def)
  moreover have "stays (recv_rrep src m)" for m
  proof (cases "rrep_src_ip m = 0")
    case True
    have "stays (recv_rrep_hello src m)"
      unfolding stays_def by (intro allI recv_rrep_hello_route) simp_all
    then show ?thesis
      unfolding recv_rrep_def if_P[OF True]
      by (intro stays_rules stays_preserves[OF recv_rrep_stop_search_route])
  next
    case False
    show ?thesis
      unfolding stays_def by (intro allI recv_rrep_route) (use False in \<open>simp_all add: keeps_validated_def\<close>)
  qed
  moreover have "stays (recv_rerr src payload)"
    unfolding stays_def by (intro allI recv_rerr_route) (simp add: rerr_closed_def)
  ultimately show ?thesis
    unfolding incoming_control_message_def Let_def by (intro stays_rules)
qed

lemma stays_data: "stays (incoming_data_message src dest)"
  unfolding incoming_data_message_def block.simps by (intro stays_rules)

lemma stays_call: "stays (start_call dest)"
proof -
  have "stays (send_rreq_begin dest)"
    unfolding send_rreq_begin_def block.simps split_def by (intro stays_rules stays_create_thread)
  moreover have "stays (outgoing_give_up p)" for p
    unfolding outgoing_give_up_def block.simps by (intro stays_rules)
  ultimately have "stays (outgoing_message dest)"
    unfolding outgoing_message_def usable_route_def block.simps split_def by (intro stays_rules)
  then show ?thesis
    unfolding start_call_def by (rule stays_bnd) (auto intro: stays_rules split: call.split)
qed

lemma stays_resume: "stays (resume_call a)"
  unfolding resume_call_def search_over_def send_rreq_end_def block.simps Let_def split_def
  by (intro stays_rules)

lemma stays_forward: "stays (forwarded_messages src dest)"
proof -
  have "stays (forward_no_route dest p)" for p
    unfolding forward_no_route_def by (rule stays_bnd) (auto intro!: stays_rules split: option.split)
  moreover have "stays (forward_unreachables ips v)" for ips v
    by (induction ips arbitrary: v)
      (auto intro!: stays_rules simp: forward_unreachable_def split_def Let_def)
  then have "stays (forward_rerr p q)" for p q
    unfolding forward_rerr_def Let_def
    by (intro stays_rules) (auto intro!: stays_rules split: option.split)
  ultimately show ?thesis
    unfolding forwarded_messages_def forward_through_def forward_accept_def block.simps
    by (intro stays_rules)
qed

lemma stays_thread:
  assumes "\<nexists>a d. threads s t = Some (Expiration_sleep a d)" and "run_thread t s = Inr ((), s')"
    and "within i a anything s"
  shows "within i a anything s'"
proof -
  have ring: "stays (rreq_ring t a m ttl)" "stays (rreq_net t a m n)" for a m ttl n
    unfolding rreq_ring_def rreq_net_def rreq_fail_def block.simps Let_def by (intro stays_rules)+
  have sender: "stays (send_rreq_thread t a)" for a
    unfolding send_rreq_thread_def Let_def split_def by (intro stays_rules ring)
  have hello: "stays (hello_begin t)" "stays (hello_poll t m)" "stays (hello_wake t m)" for m
    unfolding hello_begin_def hello_poll_def hello_wake_def block.simps Let_def by (intro stays_rules)+
  have rest: "stays (rreq_id_wake t a)" "stays (expiration_begin t a)" for a
    unfolding rreq_id_wake_def expiration_begin_def block.simps by (intro stays_rules)+
  have "stays (case threads s t of None \<Rightarrow> ret ()
     | Some (Expiration a) \<Rightarrow> expiration_begin t a
     | Some (Expiration_sleep a d) \<Rightarrow> ret ()
     | Some (Rreq_id_sleep a d) \<Rightarrow> asleep d (rreq_id_wake t a)
     | Some (Rreq_sender a) \<Rightarrow> send_rreq_thread t a
     | Some (Rreq_ring_sleep a m ttl d) \<Rightarrow> asleep d (rreq_ring t a m (ttl + TTL_INCREMENT))
     | Some (Rreq_net_sleep a m i d) \<Rightarrow> asleep d (rreq_net t a m (i + 1))
     | Some Hello \<Rightarrow> hello_begin t
     | Some (Hello_wait m) \<Rightarrow> hello_poll t m
     | Some (Hello_sleep m d) \<Rightarrow> asleep d (hello_wake t m))" (is "stays ?m")
    unfolding asleep_def
    apply (cases "threads s t"; simp only: option.case)
     apply (intro stays_rules)
    subgoal for th by (cases th; simp only: thread.case) (intro stays_rules ring sender hello rest)+
    done
  moreover have "?m s = Inr ((), s')"
    using assms(1,2) by (auto simp: run_thread_def prog_simps split: option.split thread.split)
  ultimately show ?thesis using triple_result[OF staysD] assms(3) by (metis (no_types))
qed

lemma stays_exec:
  assumes "\<And>t. act = Run t \<Longrightarrow> \<nexists>a d. threads s t = Some (Expiration_sleep a d)"
    and "exec act s = Inr ((), s')" and "within i a anything s"
  shows "within i a anything s'"
proof -
  have keep: ?thesis if "stays m" "m s = Inr (x, s')" for m :: "(node, 'b) prog" and x
    using triple_result[OF staysD[OF that(1)]] assms(3) that(2) by blast
  show ?thesis
  proof (cases act)
    case (Run t)
    then show ?thesis using stays_thread[of s t s' i a] assms by simp
  qed (use assms(2) in \<open>auto intro!: keep[of "exec act"] stays_sq stays_control stays_data stays_call
      stays_resume stays_forward stays_rules\<close>)
qed

text \<open>
  C9: An entry of the table lives until its own timer ends it: whatever a node does, the one step
  after which an entry is gone is that of its expiration thread waking up when the route is not
  valid. So an entry with a valid route is never freed.
\<close>

theorem entries_only_expire:
  assumes "reachable s" and "node_step s act s'" and "heap s a = Some e" and "heap s' a = None"
  shows "\<exists>t d. act = Run t \<and> threads s t = Some (Expiration_sleep a d) \<and> nanosleep_ok d \<and>
    status e = ROUTE_INVALID \<and> routes s' (slot_of (dest_ip e)) = None"
proof -
  have ok: "ok (held s) {} s" using assms(1) by (rule reachable_ok)
  have run: "exec act s = Inr ((), s')" using assms(2) by (simp add: node_step_iff)
  have slot: "routes s (slot_of (dest_ip e)) = Some a"
    using ok assms(3) by (auto simp: ok_iff node_inv_def table_inv_def)
  have "within (slot_of (dest_ip e)) a anything s"
    using within_old[OF reachable_node_inv[OF assms(1)] slot] .
  moreover have "\<not> within (slot_of (dest_ip e)) a anything s'" using assms(4) by (simp add: within_def)
  ultimately obtain t b d where t: "act = Run t" "threads s t = Some (Expiration_sleep b d)"
    using stays_exec[OF _ run] by blast
  have wake: "asleep d (expiration_wake t b) s = Inr ((), s')"
    using run t by (simp add: run_thread_def prog_simps)
  have d: "nanosleep_ok d" using wake assms(3,4) by (cases "nanosleep_ok d") (auto simp: asleep_def prog_simps)
  then have wake: "expiration_wake t b s = Inr ((), s')" using wake by (simp add: asleep_def)
  obtain f where f: "heap s b = Some f" using ok_threadD(3)[OF ok t(2)] by (auto simp: thread_ok_def)
  have m: "\<not> entry_mutex f"
    using wake f by (auto simp: expiration_wake_def mutex_lock_def deref_def prog_simps)
  show ?thesis
  proof (cases "status f")
    case ROUTE_VALID
    then have "heap s' a \<noteq> None" using wake f m assms(3) by (auto simp: expiration_wake_valid)
    with assms(4) show ?thesis by simp
  next
    case ROUTE_INVALID
    have "b \<notin> held s" using m f by (simp add: held_def)
    from expiration_wake_invalid[OF ok f ROUTE_INVALID this, of t] wake
    have s': "heap s' = (heap s)(b := None)" "routes s' = (routes s)(slot_of (dest_ip f) := None)" by auto
    then have "b = a" using assms(3,4) by (auto split: if_splits)
    with t d ROUTE_INVALID f assms(3) s' show ?thesis by auto
  qed
qed

theorem entries_only_expire_witness:
  "case exec (Run 2) (after [Control_in 0x0B000001 (encode_rreq sample_request), Run 2, Run 2, Run 2]) of
     Inl _ \<Rightarrow> False
   | Inr (v, s') \<Rightarrow> (\<exists>t d. Run 2 = Run t \<and>
       threads (after [Control_in 0x0B000001 (encode_rreq sample_request), Run 2, Run 2, Run 2]) t =
         Some (Expiration_sleep 0 d) \<and> routes s' 0x0B = None)"
proof -
  let ?s = "after [Control_in 0x0B000001 (encode_rreq sample_request), Run 2, Run 2, Run 2]"
  have "case exec (Run 2) ?s of Inl _ \<Rightarrow> False | Inr (v, s') \<Rightarrow> heap s' 0 = None" by code_simp
  then obtain s' where run: "exec (Run 2) ?s = Inr ((), s')" "heap s' 0 = None"
    by (auto split: sum.splits)
  have "case heap ?s 0 of None \<Rightarrow> False | Some e \<Rightarrow> dest_ip e = 0x0B000001" by code_simp
  then obtain e where e: "heap ?s 0 = Some e" "dest_ip e = 0x0B000001" by (auto split: option.splits)
  from entries_only_expire[OF reachable_after node_stepI[OF run(1)] e(1) run(2)] show ?thesis
    using run(1) e(2) by auto
qed

end
