(* ===== verification/Search_Properties.thy ===== *)
theory Search_Properties
  imports System
begin

text \<open>
  The search for a route: the thread that sends requests, run on its own to the end, and the calls
  that wait for it.
\<close>

section \<open>The rounds of a search\<close>

text \<open>The hop limits of the requests of a search, by the hop count known before.\<close>

definition ring_ttls :: "u32 \<Rightarrow> u32 list" where
  "ring_ttls ttl = (if unat ttl \<le> 7 then map (\<lambda>i. ttl + 2 * of_nat i) [0..<(9 - unat ttl) div 2] else [])"

definition search_ttls :: "u32 \<Rightarrow> u32 list" where
  "search_ttls hops = ring_ttls (if hops = 0 then 1 else hops + 2) @ [35, 35, 35]"

text \<open>The successors of a request id, and requests that differ in id and hop limit only.\<close>

primrec next_ids :: "u32 \<Rightarrow> nat \<Rightarrow> u32 list" where
  "next_ids n 0 = []"
| "next_ids n (Suc k) = (n + 1) # next_ids (n + 1) k"

definition same_request :: "rreq_header \<Rightarrow> rreq_header \<Rightarrow> bool" where
  "same_request m x \<longleftrightarrow> x\<lparr>rreq_rreq_id := 0, rreq_ttl := 0\<rparr> = m\<lparr>rreq_rreq_id := 0, rreq_ttl := 0\<rparr>"

definition failed :: "tid \<Rightarrow> addr \<Rightarrow> node \<Rightarrow> bool" where
  "failed t a s \<longleftrightarrow> threads s t = None \<and>
     (\<exists>e. heap s a = Some e \<and> rreq_search e = SEARCH_FAILED \<and> rreq_message_sender e = 0)"

text \<open>
  \<open>gives_up\<close>: the program \<open>m\<close> of the thread \<open>t\<close>, and then a run of the thread for each request,
  send requests like \<open>q\<close> with these hop limits, and the search has failed.
\<close>

definition gives_up :: "(node, unit) prog \<Rightarrow> tid \<Rightarrow> addr \<Rightarrow> rreq_header \<Rightarrow> u32 list \<Rightarrow> node \<Rightarrow> bool" where
  "gives_up m t a q ttls s \<longleftrightarrow> (\<exists>s1 s' qs.
     m s = Inr ((), s1) \<and> run (replicate (length ttls) (Run t)) s1 = Inr ((), s') \<and> failed t a s' \<and>
     events s' = events s @ map (\<lambda>q. Sent_broadcast (encode_rreq q)) qs \<and>
     map rreq_ttl qs = map ucast ttls \<and> (\<forall>x \<in> set qs. same_request q x) \<and>
     map rreq_rreq_id qs = next_ids (number (rreq_ids s)) (length ttls))"

lemma SendBroadcast_rreq:
  "SendBroadcast (encode_rreq q) sizeof_rreq s =
     Inr ((), s\<lparr>events := events s @ [Sent_broadcast (encode_rreq q)]\<rparr>)"
  using read_block_exact[of _ "encode_rreq q"]
  by (simp add: SendBroadcast_def emit_def prog_simps rreq_fmt.length_encode)

text \<open>One request and a sleep, then a run of the thread that goes on with \<open>m'\<close>.\<close>

lemma gives_up_round:
  assumes m: "m s = Inr ((), u)"
    and s1: "events u = events s @ [Sent_broadcast (encode_rreq p)]"
      "number (rreq_ids u) = number (rreq_ids s) + 1"
    and q1: "same_request q p" "rreq_ttl p = ucast ttl" "rreq_rreq_id p = number (rreq_ids s) + 1"
    and rest: "exec (Run t) u = m' u" "gives_up m' t a p ttls u"
  shows "gives_up m t a q (ttl # ttls) s"
proof -
  obtain s2 s' qs where r: "m' u = Inr ((), s2)" "run (replicate (length ttls) (Run t)) s2 = Inr ((), s')"
    "failed t a s'" "events s' = events u @ map (\<lambda>q. Sent_broadcast (encode_rreq q)) qs"
    "map rreq_ttl qs = map ucast ttls" "\<forall>x \<in> set qs. same_request p x"
    "map rreq_rreq_id qs = next_ids (number (rreq_ids u)) (length ttls)"
    using rest(2) unfolding gives_up_def by blast
  have "run (replicate (length (ttl # ttls)) (Run t)) u = Inr ((), s')"
    using rest(1) r(1,2) by (simp add: prog_simps)
  moreover have "events s' = events s @ map (\<lambda>q. Sent_broadcast (encode_rreq q)) (p # qs)"
    using r(4) s1(1) by simp
  moreover have "\<forall>x \<in> set (p # qs). same_request q x"
    using r(6) q1(1) by (auto simp: same_request_def)
  ultimately show ?thesis
    unfolding gives_up_def using m r(3,5,7) q1 s1(2)
    by (intro exI[of _ u] exI[of _ s'] exI[of _ "p # qs"]) simp
qed

lemma gives_up_fail:
  assumes "ok {} {} s" and "searching t a s"
  shows "gives_up (rreq_fail t a) t a q [] s"
proof -
  obtain e where e: "heap s a = Some e" "t < next_tid s"
    using assms(2) by (auto simp: searching_def)
  moreover have "\<not> entry_mutex e" using assms(1) e by (auto simp: ok_def held_def)
  ultimately show ?thesis
    by (simp add: gives_up_def failed_def rreq_fail_eq[OF e(1)] prog_simps cong: if_cong split del: if_split)
qed

lemma counter_free: "ok H L s \<Longrightarrow> \<not> mutex (rreq_ids s) \<and> \<not> mutex (sequence_num s)"
  by (simp add: ok_def node_inv_def)

lemma gives_up_net:
  "ok {} {} s \<Longrightarrow> searching t a s \<Longrightarrow> i \<le> 3 \<Longrightarrow>
     gives_up (rreq_net t a q i) t a q (replicate (3 - unat i) 35) s"
proof (induction "3 - unat i" arbitrary: i s q)
  case 0
  then have "unat i = unat (3 :: u32)" by (simp add: word_le_nat_alt)
  then have "i = 3" by (simp only: word_unat_eq_iff)
  then show ?case
    using gives_up_fail[OF 0(2,3)] by (simp add: rreq_net_def config_defs gives_up_def)
next
  case (Suc k)
  then have i: "unat i \<le> 2" by simp
  let ?q = "q\<lparr>rreq_rreq_id := number (rreq_ids s) + 1, rreq_ttl := ucast NET_DIAMETER\<rparr>"
  let ?s1 = "s\<lparr>rreq_ids := (rreq_ids s)\<lparr>number := number (rreq_ids s) + 1\<rparr>,
    events := events s @ [Sent_broadcast (encode_rreq ?q)],
    threads := (threads s)(t \<mapsto> Rreq_net_sleep a ?q i
      (convert_ms_to_timespec (NET_TRAVERSAL_TIME * push_bit (unat i) 1)))\<rparr>"
  have m: "rreq_net t a q i s = Inr ((), ?s1)"
    using i counter_free[OF Suc.prems(1)]
    by (simp add: rreq_net_def Let_def RREQ_RETRIES_def word_le_nat_alt on_rreq_ids_def zoom_def prog_simps
        bnd_def SendBroadcast_rreq set_thread_def)
  have ok: "ok {} {} ?s1"
    using triple_result[OF rreq_net_ok[of a "{}" UNIV "{}" t q i] _ m] Suc.prems by simp
  have search: "searching t a ?s1" using Suc.prems(2) by (simp add: searching_def)
  have n: "unat (i + 1) = Suc (unat i)" using i by (simp add: unat_word_ariths)
  have run: "exec (Run t) ?s1 = rreq_net t a ?q (i + 1) ?s1"
    by (simp add: run_thread_def prog_simps asleep_def convert_ms_sleeps)
  have "gives_up (rreq_net t a ?q (i + 1)) t a ?q (replicate (3 - unat (i + 1)) 35) ?s1"
    by (rule Suc.hyps(1)[OF _ ok search]) (use Suc.hyps(2) n i in \<open>auto simp: word_le_nat_alt\<close>)
  then have "gives_up (rreq_net t a q i) t a q (35 # replicate (3 - unat (i + 1)) 35) s"
    by - (rule gives_up_round[where u = ?s1 and p = ?q and m' = "rreq_net t a ?q (i + 1)"],
      rule m, simp_all only: run, simp_all add: same_request_def NET_DIAMETER_def)
  moreover have "3 - unat i = Suc (3 - unat (i + 1))" using n i by simp
  ultimately show ?case by simp
qed

text \<open>The hop limits of the first loop, one round after the other.\<close>

lemma ring_ttls_step:
  assumes "unat ttl \<le> 7"
  shows "ring_ttls ttl = ttl # ring_ttls (ttl + 2)"
proof -
  have n: "unat (ttl + 2) = unat ttl + 2" using assms by (simp add: unat_word_ariths)
  let ?k = "(7 - unat ttl) div 2"
  have k: "(9 - unat ttl) div 2 = Suc ?k" using assms by simp
  have "ring_ttls ttl = ttl # map (\<lambda>i. ttl + 2 + 2 * of_nat i) [0..<?k]"
    using assms
    by (simp add: ring_ttls_def k upt_conv_Cons map_Suc_upt[symmetric] algebra_simps del: upt_Suc map_Suc_upt)
  moreover have "ring_ttls (ttl + 2) = map (\<lambda>i. ttl + 2 + 2 * of_nat i) [0..<?k]"
    using assms by (auto simp: ring_ttls_def n)
  ultimately show ?thesis by simp
qed

lemma gives_up_ring:
  "ok {} {} s \<Longrightarrow> searching t a s \<Longrightarrow> gives_up (rreq_ring t a q ttl) t a q (ring_ttls ttl @ [35, 35, 35]) s"
proof (induction "9 - unat ttl" arbitrary: ttl s q rule: less_induct)
  case less
  show ?case
  proof (cases "unat ttl \<le> 7")
    case False
    then have "rreq_ring t a q ttl = rreq_net t a q 0" "ring_ttls ttl = []"
      by (simp_all add: rreq_ring_def ring_ttls_def TTL_THRESHOLD_def word_le_nat_alt)
    with gives_up_net[OF less.prems, of 0 q] show ?thesis by (simp add: eval_nat_numeral)
  next
    case ttl: True
    let ?q = "q\<lparr>rreq_rreq_id := number (rreq_ids s) + 1, rreq_ttl := ucast ttl\<rparr>"
    let ?s1 = "s\<lparr>rreq_ids := (rreq_ids s)\<lparr>number := number (rreq_ids s) + 1\<rparr>,
      events := events s @ [Sent_broadcast (encode_rreq ?q)],
      threads := (threads s)(t \<mapsto> Rreq_ring_sleep a ?q ttl
        (convert_ms_to_timespec (RING_TRAVERSAL_TIME ttl)))\<rparr>"
    have m: "rreq_ring t a q ttl s = Inr ((), ?s1)"
      using ttl counter_free[OF less.prems(1)]
      by (simp add: rreq_ring_def Let_def TTL_THRESHOLD_def word_le_nat_alt on_rreq_ids_def zoom_def prog_simps
          bnd_def SendBroadcast_rreq set_thread_def)
    have ok: "ok {} {} ?s1"
      using triple_result[OF rreq_ring_ok[of a "{}" UNIV "{}" t q ttl] _ m] less.prems by simp
    have search: "searching t a ?s1" using less.prems(2) by (simp add: searching_def)
    have n: "unat (ttl + 2) = unat ttl + 2" using ttl by (simp add: unat_word_ariths)
    have run: "exec (Run t) ?s1 = rreq_ring t a ?q (ttl + 2) ?s1"
      by (simp add: run_thread_def prog_simps asleep_def convert_ms_sleeps TTL_INCREMENT_def)
    have "gives_up (rreq_ring t a ?q (ttl + 2)) t a ?q (ring_ttls (ttl + 2) @ [35, 35, 35]) ?s1"
      by (rule less.hyps[OF _ ok search]) (use ttl n in simp)
    then have "gives_up (rreq_ring t a q ttl) t a q (ttl # ring_ttls (ttl + 2) @ [35, 35, 35]) s"
      by - (rule gives_up_round[where u = ?s1 and p = ?q and m' = "rreq_ring t a ?q (ttl + 2)"],
      rule m, simp_all only: run, simp_all add: same_request_def)
    then show ?thesis by (simp add: ring_ttls_step[OF ttl])
  qed
qed

text \<open>The message the thread starts with.\<close>

definition search_request :: "node \<Rightarrow> routing_entry \<Rightarrow> rreq_header" where
  "search_request s e =
     (let seq = number (sequence_num s) + 1 in
      generate_rreq_message (if seq_valid e = SEQ_INVALID then 5 else RREQ_GRAT) seq (dest_ip e)
        (if seq_valid e = SEQ_INVALID then 0 else dest_seq e) (ip_address s) seq)"

lemma gives_up_cong:
  assumes "m s = m' s'" and "events s' = events s" and "rreq_ids s' = rreq_ids s" and "gives_up m' t a q ttls s'"
  shows "gives_up m t a q ttls s"
  using assms by (simp add: gives_up_def)

lemma search_start:
  fixes s :: node
  assumes "threads s t = Some (Rreq_sender a)" and "heap s a = Some e" and "\<not> entry_mutex e"
    and "ok H L s"
  shows "exec (Run t) s = rreq_ring t a (search_request s e) (if hop_count e = 0 then 1 else hop_count e + 2)
    (s\<lparr>sequence_num := (sequence_num s)\<lparr>number := number (sequence_num s) + 1\<rparr>,
       heap := (heap s)(a \<mapsto> e\<lparr>entry_mutex := False\<rparr>)\<rparr>)"
  using assms(1-3) counter_free[OF assms(4)]
  by (simp add: run_thread_def prog_simps send_rreq_thread_def on_sequence_num_def zoom_def bnd_def
      mutex_lock_def mutex_unlock_def deref_def write_entry_def Let_def config_defs search_request_def
      rreq_flag_defs word_less_1 split_def)


lemma searching_node:
  "case threads (after [Data_out 0x0B000001]) 2 of Some (Rreq_sender a) \<Rightarrow> a = 0 | _ \<Rightarrow> False"
  "case heap (after [Data_out 0x0B000001]) 0 of Some e \<Rightarrow> hop_count e = 0 | None \<Rightarrow> False"
  by code_simp+


section \<open>Packets and calls\<close>

text \<open>What makes a route usable for a packet of the node itself.\<close>

definition usable_at :: "node \<Rightarrow> u32 \<Rightarrow> bool" where
  "usable_at s dest \<longleftrightarrow> (case get_routing_entry (routes s) dest of None \<Rightarrow> False
     | Some a \<Rightarrow> (case heap s a of None \<Rightarrow> False
         | Some e \<Rightarrow> status e = ROUTE_VALID \<and> seq_valid e = SEQ_VALID \<and>
             (next_hop e = dest_ip e \<or> (case get_routing_entry (routes s) (next_hop e) of None \<Rightarrow> False
                | Some b \<Rightarrow> (case heap s b of None \<Rightarrow> False | Some h \<Rightarrow> status h = ROUTE_VALID)))))"

text \<open>A search that failed is remembered, for a route that is not valid or is given up now.\<close>

definition failed_at :: "node \<Rightarrow> u32 \<Rightarrow> bool" where
  "failed_at s dest \<longleftrightarrow> (case get_routing_entry (routes s) dest of None \<Rightarrow> False
     | Some a \<Rightarrow> (case heap s a of None \<Rightarrow> False
         | Some e \<Rightarrow> rreq_search e = SEARCH_FAILED \<and> (status e = ROUTE_INVALID \<or> seq_valid e = SEQ_VALID)))"

lemma usable_route_eq:
  assumes s: "ok {} {} s"
  shows "usable_route (get_routing_entry (routes s) dest) s = Inr (usable_at s dest, s)"
proof -
  have entry: "\<exists>e. heap s a = Some e" if "get_routing_entry (routes s) ip = Some a" for ip a
    using s that unfolding ok_def node_inv_def table_inv_def get_routing_entry_def find_entry_slot by blast
  show ?thesis
  proof (cases "get_routing_entry (routes s) dest")
    case None
    then show ?thesis by (simp add: usable_route_def usable_at_def prog_simps)
  next
    case (Some a)
    then obtain e where e: "heap s a = Some e" using entry by blast
    show ?thesis
    proof (cases "get_routing_entry (routes s) (next_hop e)")
      case None
      with Some e show ?thesis
        by (cases "status e"; cases "seq_valid e")
          (simp_all add: usable_route_def usable_at_def deref_def lookup_route_def prog_simps)
    next
      case b: (Some b)
      then obtain h where "heap s b = Some h" using entry by blast
      with Some e b show ?thesis
        by (cases "status e"; cases "seq_valid e")
          (simp_all add: usable_route_def usable_at_def deref_def lookup_route_def prog_simps)
    qed
  qed
qed

text \<open>A call of \<open>send_rreq\<close>, up to its wait.\<close>

lemma send_rreq_begin_new:
  assumes "get_routing_entry (routes s) dest = None"
  shows "\<exists>s' e. send_rreq_begin dest s = Inr (Waiting (Some (next_addr s)), s') \<and>
    heap s' (next_addr s) = Some e \<and> rreq_search e = SEARCH_SEARCHING"
  using assms
  by (simp add: send_rreq_begin_def create_or_get_routing_entry_def lookup_route_def get_routing_entry_def
      find_entry_slot prog_simps clock_gettime_def malloc_entry_def add_routing_entry_def deref_def
      bnd_def split_def mutex_lock_def mutex_unlock_def write_entry_def pthread_create_def)

lemma send_rreq_begin_old:
  assumes a: "get_routing_entry (routes s) dest = Some a" "heap s a = Some e" and m: "\<not> entry_mutex e"
  shows "\<exists>s' e'. send_rreq_begin dest s =
      Inr (if rreq_search e = SEARCH_FAILED \<and> status e = ROUTE_INVALID then Returned PACKET_DROP
           else Waiting (Some a), s') \<and>
    heap s' a = Some e' \<and>
    rreq_search e' = (if rreq_search e = SEARCH_FAILED \<and> status e = ROUTE_INVALID then SEARCH_FAILED
      else SEARCH_SEARCHING)"
proof -
  have get: "create_or_get_routing_entry dest 0 SEQ_INVALID 0 0 MY_ROUTE_TIMEOUT s = Inr ((Some a, 0), s)"
    using a(1) by (simp add: create_or_get_routing_entry_def lookup_route_def prog_simps)
  consider (dropped) "rreq_search e = SEARCH_FAILED" "status e = ROUTE_INVALID"
    | (running) "rreq_search e = SEARCH_SEARCHING"
    | (fresh) "rreq_search e \<noteq> SEARCH_SEARCHING" "\<not> (rreq_search e = SEARCH_FAILED \<and> status e = ROUTE_INVALID)"
    by blast
  then show ?thesis
  proof cases
    case dropped
    then show ?thesis using a m by (simp add: send_rreq_begin_def get deref_def prog_simps)
  next
    case running
    then show ?thesis using a m by (simp add: send_rreq_begin_def get deref_def prog_simps)
  next
    case fresh
    show ?thesis
      using a m fresh
      by (cases "expiration_thread e = 0")
        (simp_all add: send_rreq_begin_def get deref_def prog_simps bnd_def mutex_lock_def mutex_unlock_def
          write_entry_def pthread_create_def pthread_cancel_def del: de_Morgan_conj)
  qed
qed

text \<open>A route that is given up becomes invalid; the search of its entry stays what it was.\<close>

lemma outgoing_give_up_eq:
  assumes "heap s a = Some e" and "\<not> entry_mutex e"
  shows "\<exists>s' e'. outgoing_give_up (Some a) s = Inr ((), s') \<and> routes s' = routes s \<and>
    heap s' a = Some e' \<and> rreq_search e' = rreq_search e \<and> \<not> entry_mutex e' \<and>
    status e' = (if seq_valid e = SEQ_VALID then ROUTE_INVALID else status e)"
proof (cases "status e = ROUTE_VALID \<and> seq_valid e = SEQ_VALID")
  case False
  then have "when_p (status e = ROUTE_VALID \<and> seq_valid e = SEQ_VALID) m = ret ()" for m :: "(node, unit) prog"
    by (auto simp: when_p_def)
  with False assms show ?thesis
    by (cases "status e") (simp_all add: outgoing_give_up_def deref_def prog_simps)
next
  case True
  then show ?thesis
    using assms
    by (cases "active_routes s = 0")
      (simp_all add: outgoing_give_up_def deref_def mutex_lock_def mutex_unlock_def write_entry_def
        DeleteEntry_def emit_def set_expiration_timer_eq word_gt_0 prog_simps bnd_def)
qed

lemma direct_route_timer:
  assumes "heap s a = Some e" and "\<not> entry_mutex e"
  shows "\<exists>s'. when_p b (block [mutex_lock (Some a), set_expiration_timer (Some a) ms, mutex_unlock (Some a)]) s
    = Inr ((), s')"
  using assms
  by (cases b) (simp_all add: mutex_lock_def mutex_unlock_def deref_def write_entry_def
      set_expiration_timer_eq prog_simps)

text \<open>A packet with a usable route, and one without.\<close>

lemma known_entry:
  assumes "ok {} {} s" and "get_routing_entry (routes s) dest = Some a"
  obtains e where "heap s a = Some e" and "\<not> entry_mutex e"
proof -
  obtain e where e: "heap s a = Some e"
    using assms unfolding ok_def node_inv_def table_inv_def get_routing_entry_def find_entry_slot by blast
  moreover have "\<not> entry_mutex e" using assms(1) e by (auto simp: ok_def held_def)
  ultimately show thesis by (rule that)
qed

lemma outgoing_usable:
  assumes s: "ok {} {} s" and "usable_at s dest"
  shows "\<exists>s'. outgoing_message dest s = Inr (Returned PACKET_ACCEPT, s')"
proof (cases "dest = broadcast_ip s \<or> dest = ip_address s")
  case True
  then show ?thesis by (auto simp: outgoing_message_def prog_simps)
next
  case other: False
  obtain a where a: "get_routing_entry (routes s) dest = Some a"
    using assms(2) by (auto simp: usable_at_def split: option.splits)
  obtain e where e: "heap s a = Some e" "\<not> entry_mutex e" by (rule known_entry[OF s a])
  obtain s' where "when_p (next_hop e = dest_ip e) (block [mutex_lock (Some a),
      set_expiration_timer (Some a) ACTIVE_ROUTE_TIMEOUT, mutex_unlock (Some a)]) s = Inr ((), s')"
    using direct_route_timer[OF e] by blast
  then have "outgoing_message dest s = Inr (Returned PACKET_ACCEPT, s')"
    using other a e assms(2) usable_route_eq[OF s, of dest]
    by (simp add: outgoing_message_def lookup_route_def deref_def prog_simps bnd_def del: block.simps when_p_simps)
  then show ?thesis by blast
qed

lemma outgoing_known:
  assumes s: "ok {} {} s" and other: "\<not> (dest = broadcast_ip s \<or> dest = ip_address s)"
    and a: "get_routing_entry (routes s) dest = Some a" and "\<not> usable_at s dest"
  shows "\<exists>c s'. outgoing_message dest s = Inr (c, s') \<and>
    c = (if failed_at s dest then Returned PACKET_DROP else Waiting (Some a)) \<and>
    (case c of Returned v \<Rightarrow> True
     | Waiting p \<Rightarrow> \<exists>e. heap s' (the p) = Some e \<and> rreq_search e = SEARCH_SEARCHING)"
proof -
  obtain e where e: "heap s a = Some e" "\<not> entry_mutex e" by (rule known_entry[OF s a])
  obtain s1 e1 where g: "outgoing_give_up (Some a) s = Inr ((), s1)" "routes s1 = routes s"
    "heap s1 a = Some e1" "rreq_search e1 = rreq_search e" "\<not> entry_mutex e1"
    "status e1 = (if seq_valid e = SEQ_VALID then ROUTE_INVALID else status e)"
    using outgoing_give_up_eq[OF e] by blast
  have "get_routing_entry (routes s1) dest = Some a" using a g(2) by simp
  note call = send_rreq_begin_old[OF this g(3,5)]
  have "failed_at s dest \<longleftrightarrow> rreq_search e1 = SEARCH_FAILED \<and> status e1 = ROUTE_INVALID"
    using a e g(4,6) by (cases "seq_valid e") (auto simp: failed_at_def)
  moreover have "outgoing_message dest s = send_rreq_begin dest s1"
    using other a assms(4) g(1) usable_route_eq[OF s, of dest]
    by (simp add: outgoing_message_def lookup_route_def prog_simps bnd_def)
  ultimately show ?thesis using call by auto
qed

text \<open>
  C17: The verdict on a packet this node sends. It is accepted when it is for the node itself or the
  broadcast address, or when the route is usable: valid, with a valid number, and over a next hop
  that is the destination or has a valid route. It is dropped when the last search failed and the
  route is not valid (or was just given up). In all other cases the call waits on an entry that a
  search is running for.
\<close>

theorem outgoing_verdict:
  assumes "reach node_init quiet_step s"
  shows "\<exists>c s'. outgoing_message dest s = Inr (c, s') \<and>
    c = (if dest = broadcast_ip s \<or> dest = ip_address s \<or> usable_at s dest then Returned PACKET_ACCEPT
         else if failed_at s dest then Returned PACKET_DROP
         else Waiting (Some (case get_routing_entry (routes s) dest of None \<Rightarrow> next_addr s | Some a \<Rightarrow> a))) \<and>
    (case c of Returned v \<Rightarrow> True
     | Waiting p \<Rightarrow> \<exists>e. heap s' (the p) = Some e \<and> rreq_search e = SEARCH_SEARCHING)"
proof -
  have s: "ok {} {} s" using assms by (rule quiet_sys.reach_inv)
  consider "dest = broadcast_ip s \<or> dest = ip_address s" | "usable_at s dest"
    | "\<not> (dest = broadcast_ip s \<or> dest = ip_address s)" "\<not> usable_at s dest" by blast
  then show ?thesis
  proof cases
    case 1
    then show ?thesis by (auto simp: outgoing_message_def prog_simps)
  next
    case 2
    then show ?thesis using outgoing_usable[OF s 2] by auto
  next
    case 3
    show ?thesis
    proof (cases "get_routing_entry (routes s) dest")
      case None
      then have "\<not> failed_at s dest" by (simp add: failed_at_def)
      with None 3 usable_route_eq[OF s, of dest] send_rreq_begin_new[OF None] show ?thesis
        by (auto simp: outgoing_message_def lookup_route_def outgoing_give_up_def prog_simps bnd_def)
    next
      case (Some a)
      from outgoing_known[OF s 3(1) Some 3(2)] 3 Some show ?thesis by auto
    qed
  qed
qed

theorem outgoing_verdict_witness:
  "\<exists>s'. outgoing_message 0x0B000001 sample_node = Inr (Waiting (Some 0), s')"
proof -
  have "reach node_init quiet_step sample_node"
    unfolding sample_node_def by (intro reach_init node_initI)
  moreover have "\<not> usable_at sample_node 0x0B000001 \<and> \<not> failed_at sample_node 0x0B000001 \<and>
      get_routing_entry (routes sample_node) 0x0B000001 = None \<and> next_addr sample_node = 0 \<and>
      broadcast_ip sample_node \<noteq> 0x0B000001 \<and> ip_address sample_node \<noteq> 0x0B000001" by code_simp
  ultimately show ?thesis using outgoing_verdict[of sample_node "0x0B000001"] by auto
qed

text \<open>
  A call that waited on a search returns, once the search is over, with the verdict of its
  outcome: the packet is dropped and the entry set to expire if the search failed, else it is
  accepted and the entry is ready for another search. The call releases the entry.
\<close>

theorem call_verdict:
  assumes "heap s a = Some e" and "\<not> entry_mutex e" and "rreq_search e \<noteq> SEARCH_SEARCHING"
  shows "\<exists>s' e'. send_rreq_end (Some a) s =
      Inr (if rreq_search e = SEARCH_FAILED then PACKET_DROP else PACKET_ACCEPT, s') \<and>
    heap s' a = Some e' \<and> \<not> entry_mutex e' \<and>
    rreq_search e' = (if rreq_search e = SEARCH_FAILED then SEARCH_FAILED else SEARCH_NONE) \<and>
    (if rreq_search e = SEARCH_FAILED then threads s' (expiration_thread e') = Some (Expiration a)
     else threads s' = threads s)"
  using assms
  by (cases "rreq_search e = SEARCH_FAILED")
    (simp_all add: send_rreq_end_def mutex_lock_def mutex_unlock_def deref_def write_entry_def
      LOGGING_def SendUnicast_def emit_def set_expiration_timer_eq prog_simps Let_def bnd_def)

text \<open>An entry whose search has failed, for an example.\<close>

definition failed_entry :: routing_entry where
  "failed_entry = \<lparr>entry_mutex = False, dest_ip = 0x0C000001, dest_seq = 0, seq_valid = SEQ_INVALID,
     next_hop = 0, hop_count = 0, status = ROUTE_INVALID, time_out = \<lparr>tv_sec = 9, tv_nsec = 0\<rparr>,
     precursor_list = Some empty_list, next_hop_for = Some empty_list, expiration_thread = 0,
     rreq_id = 0, rreq_id_thread = 0, rreq_search = SEARCH_FAILED, rreq_message_sender = 0,
     active_route = 0\<rparr>"

theorem call_verdict_witness:
  "\<exists>s' e'. send_rreq_end (Some 0) (sample_node\<lparr>heap := [0 \<mapsto> failed_entry]\<rparr>) = Inr (PACKET_DROP, s') \<and>
     heap s' 0 = Some e' \<and> threads s' (expiration_thread e') = Some (Expiration 0)"
  using call_verdict[of "sample_node\<lparr>heap := [0 \<mapsto> failed_entry]\<rparr>" 0 failed_entry]
  by (auto simp: failed_entry_def)

lemma reply_stops_search:
  assumes "rrep_src_ip m = ip_address s" and "get_routing_entry (routes s) (rrep_dest_ip m) = Some a"
    and "heap s a = Some e" and "\<not> entry_mutex e"
  shows "recv_rrep_stop_search m s = Inr ((), s\<lparr>
      heap := (heap s)(a \<mapsto> e\<lparr>rreq_search := SEARCH_FOUND, rreq_message_sender := 0, entry_mutex := False\<rparr>),
      threads := (if rreq_message_sender e = 0 then threads s
                  else (threads s)(rreq_message_sender e := None))\<rparr>)"
  using assms
  by (cases "rreq_message_sender e = 0")
    (simp_all add: recv_rrep_stop_search_def lookup_route_def mutex_lock_def mutex_unlock_def deref_def
      write_entry_def pthread_cancel_def prog_simps bnd_def)

text \<open>
  A reply that answers this node's own request stops the search for its destination: the
  outcome is set, the sending thread is cancelled, and the entry is released, so that the waiting
  call goes on.
\<close>

theorem reply_ends_search:
  assumes "rrep_src_ip m = ip_address s" and "get_routing_entry (routes s) (rrep_dest_ip m) = Some a"
    and "heap s a = Some e" and "\<not> entry_mutex e"
  shows "recv_rrep_stop_search m s = Inr ((), s\<lparr>
      heap := (heap s)(a \<mapsto> e\<lparr>rreq_search := SEARCH_FOUND, rreq_message_sender := 0, entry_mutex := False\<rparr>),
      threads := (if rreq_message_sender e = 0 then threads s
                  else (threads s)(rreq_message_sender e := None))\<rparr>)"
  using assms by (rule reply_stops_search)

theorem reply_ends_search_witness:
  "\<exists>s'. recv_rrep_stop_search
      \<lparr>rrep_hop_count = 1, rrep_prefix_size = 0, rrep_reserved = 0, rrep_flags = 0, rrep_type = RREP_TYPE,
       rrep_dest_ip = 0x0C000001, rrep_dest_seq = 3, rrep_src_ip = 0x0A000001, rrep_lifetime = 3000\<rparr>
      (sample_node\<lparr>heap := [0 \<mapsto> failed_entry\<lparr>rreq_search := SEARCH_SEARCHING, rreq_message_sender := 7\<rparr>],
        routes := create_routing_table(0x0C := Some 0)\<rparr>) = Inr ((), s') \<and> threads s' 7 = None"
  by (subst reply_ends_search[where a = 0 and e = "failed_entry\<lparr>rreq_search := SEARCH_SEARCHING, rreq_message_sender := 7\<rparr>"])
    (simp_all add: failed_entry_def sample_node_def main_init_def get_routing_entry_def find_entry_slot
      slot_of_def)

section \<open>The reply of a destination\<close>

text \<open>
  The destination of a request answers with a number that is its own, incremented, or the one
  asked for, whichever is greater as a signed number, and keeps that number as its own; it sends
  exactly one reply, to the neighbour the request came from. It fails only where the comparison
  overflows.
\<close>

theorem destination_reply:
  assumes "\<not> mutex (sequence_num s)"
  shows "let n = number (sequence_num s) + 1; q = rreq_dest_seq m;
      n' = (if rreq_flag m RREQ_UNKNOWN \<or> sint q < sint n then n else q)
    in send_rrep_destination m sender_ip s =
      (if \<not> rreq_flag m RREQ_UNKNOWN \<and> \<not> in_int32 (sint q - sint n) then Inl Signed_overflow
       else Inr ((), s\<lparr>sequence_num := (sequence_num s)\<lparr>number := n'\<rparr>,
         events := events s @ [Sent_unicast sender_ip (encode_rrep
           \<lparr>rrep_hop_count = 0, rrep_prefix_size = prefix_junk (world s) (length (events s)),
            rrep_reserved = 0, rrep_flags = 0, rrep_type = RREP_TYPE, rrep_dest_ip = ip_address s,
            rrep_dest_seq = n', rrep_src_ip = rreq_src_ip m, rrep_lifetime = MY_ROUTE_TIMEOUT\<rparr>)]\<rparr>))"
proof -
  have "read_block junk (encode_rrep h) sizeof_rrep = encode_rrep h" for junk h
    using read_block_exact[of junk "encode_rrep h"] by (simp add: rrep_fmt.length_encode)
  then show ?thesis
    using assms
    by (cases "rreq_flag m RREQ_UNKNOWN")
      (auto simp: send_rrep_destination_def on_sequence_num_def zoom_def seq_compare_def new_rrep_def
        generate_rrep_message_def SendUnicast_def emit_def prog_simps bnd_def Let_def)
qed

theorem destination_reply_witness:
  "case send_rrep_destination sample_request 0x0B000001 sample_node of Inl f \<Rightarrow> False
   | Inr (x, s') \<Rightarrow> number (sequence_num s') = 3 \<and> length (events s') = 1"
  using destination_reply[of sample_node sample_request "0x0B000001"]
  by (simp add: sample_node_def main_init_def sample_request_def rreq_flag_def Let_def in_int32_def)

end
