(* ===== verification/Forward_Properties.thy ===== *)
theory Forward_Properties
  imports Route_Properties Search_Properties
begin

unbundle bit_operations_syntax

text \<open>
  The packets that pass through a node, and what goes wrong: the dispatch of control messages, the
  forwarding of packets, the locks that are never released, and the threads.
\<close>

section \<open>Control packets\<close>

lemma incoming_control_encoded:
  "incoming_control_message src (encode_rreq m @ rest) s =
     (if src = ip_address s then Inr (LOGGING, s)
      else if rreq_type m = RREQ_TYPE then recv_rreq src m s
      else if rreq_type m = RERR_TYPE then recv_rerr src (encode_rreq m @ rest) s
      else if rreq_type m = RREP_TYPE
        then bnd (lift_sum (decode_rrep (encode_rreq m @ rest))) (recv_rrep src) s
      else Inr (Verdict_0, s)) \<and>
   incoming_control_message src (encode_rrep r @ rest) s =
     (if src = ip_address s then Inr (LOGGING, s)
      else if rrep_type r = RREP_TYPE then recv_rrep src r s
      else if rrep_type r = RERR_TYPE then recv_rerr src (encode_rrep r @ rest) s
      else if rrep_type r = RREQ_TYPE
        then bnd (lift_sum (decode_rreq (encode_rrep r @ rest))) (recv_rreq src) s
      else Inr (Verdict_0, s))"
proof -
  have rreq: "length (encode_rreq m) = 24" "encode_rreq m ! 3 = rreq_type m"
    by (simp_all add: encode_rreq_def rreq_words_def le32_def)
  have rrep: "length (encode_rrep r) = 20" "encode_rrep r ! 3 = rrep_type r"
    by (simp_all add: encode_rrep_def rrep_words_def le32_def)
  show ?thesis
    using rreq rrep
    by (simp add: incoming_control_message_def nth_append prog_simps Let_def packet_types
        rreq_fmt.decode_encode rrep_fmt.decode_encode lift_sum_def)
qed


section \<open>Replies over one slot\<close>

lemma fixed_api:
  "fixed (AddUnicastRoutingEntry d h)" "fixed (DeleteEntry d h)" "fixed (SendUnicast ip buf n)"
  "fixed (SendBroadcast buf n)" "fixed (new_rrep flags prefix dest seq origin life)"
  "fixed (mutex_lock p)" "fixed (mutex_unlock p)" "fixed (set_expiration_timer p ms)"
  unfolding AddUnicastRoutingEntry_def DeleteEntry_def SendUnicast_def SendBroadcast_def new_rrep_def
    mutex_lock_def mutex_unlock_def set_expiration_timer_def pthread_create_def block.simps
  by (intro fixed_rules)+

lemma fixed_others:
  "fixed (modify (\<lambda>s. s\<lparr>active_routes := h s\<rparr>))" "fixed (seq_compare x y)"
  by (simp_all add: fixed_def later_def modify_def seq_compare_def Let_def ret_def fail_def)

lemma fixed_reply:
  "fixed (recv_rrep_stop_search m)" "fixed (recv_rrep_previous_hop sender_ip m)"
  "fixed (recv_rrep_forward_route sender_ip m)"
  unfolding recv_rrep_stop_search_def recv_rrep_previous_hop_def recv_rrep_forward_route_def
    rrep_updates_def mark_active_def block.simps split_def
  by (intro fixed_rules fixed_api fixed_others fixed_lists fixed_create)+

text \<open>
  C32: A reply that is passed on, for an originator whose address shares its top byte with the
  destination, blocks the handler for ever: both are one entry, which the handler has locked when it
  locks it again. (The one other way it can end is the overflow of \<open>seq_compare\<close>.)
\<close>

theorem reply_deadlocks:
  assumes "reach node_init quiet_step s" and "rrep_src_ip m \<noteq> 0" and "rrep_src_ip m \<noteq> ip_address s"
    and "slot_of (rrep_src_ip m) = slot_of (rrep_dest_ip m)"
  shows "\<exists>f \<in> {Deadlock, Signed_overflow}. recv_rrep sender_ip m s = Inl f"
proof (cases "recv_rrep sender_ip m s")
  case (Inl f)
  have "triple {Deadlock, Signed_overflow} (ok {} {}) (recv_rrep sender_ip m) (\<lambda>_. ok {} {})"
    by (rule recv_rrep_ok) simp_all
  from triple_fault[OF this quiet_sys.reach_inv[OF assms(1)] Inl] Inl show ?thesis by simp
next
  case (Inr res)
  let ?m = "increment_hop_rrep m"
  have ok: "ok {} {} s" using assms(1) by (rule quiet_sys.reach_inv)
  have m: "rrep_src_ip ?m = rrep_src_ip m" "rrep_dest_ip ?m = rrep_dest_ip m"
    by (simp_all add: increment_hop_rrep_def)
  obtain s1 s2 p s3 x s4 where r: "recv_rrep_stop_search m s = Inr ((), s1)"
    "recv_rrep_previous_hop sender_ip m s1 = Inr ((), s2)"
    "recv_rrep_forward_route sender_ip ?m s2 = Inr (p, s3)" "recv_rrep_forward p ?m s3 = Inr (x, s4)"
    using Inr assms(2) by (cases res) (auto simp: recv_rrep_def sq_def bnd_Inr_iff Let_def)
  have "ok {} {} s1" by (rule triple_result[OF recv_rrep_stop_search_ok[where F = UNIV] ok r(1)]) simp
  then have "ok {} {} s2" by (rule triple_result[OF recv_rrep_previous_hop_ok[where F = UNIV] _ r(2), rotated]) simp
  then have "locked {} {} (slot_of (rrep_dest_ip ?m)) p s3"
    by (rule triple_result[OF recv_rrep_forward_route_ok[where F = UNIV] _ r(3), rotated 2]) simp_all
  then obtain a where a: "p = Some a" "ok {a} {(a, slot_of (rrep_dest_ip m))} s3"
    by (auto simp: locked_def m)
  then have "a \<in> held s3" by (simp add: ok_def)
  then obtain e where e: "heap s3 a = Some e" "slot_of (dest_ip e) = slot_of (rrep_dest_ip m)" "entry_mutex e"
    using a(2) by (auto simp: ok_def held_def)
  then have "get_routing_entry (routes s3) (rrep_src_ip m) = Some a"
    using a(2) assms(4) unfolding ok_def node_inv_def table_inv_def get_routing_entry_def find_entry_slot
    by metis
  moreover have "later s s3"
    using fixedD[OF fixed_reply(1) r(1)] fixedD[OF fixed_reply(2) r(2)] fixedD[OF fixed_reply(3) r(3)]
    by (blast intro: later_trans)
  ultimately have "recv_rrep_forward p ?m s3 = Inl Deadlock"
    using e assms(3) a(1)
    by (simp add: recv_rrep_forward_def later_def m lookup_route_def mutex_lock_def deref_def prog_simps)
  with r(4) show ?thesis by simp
qed

definition aliased_reply :: rrep_header where
  "aliased_reply = sample_reply\<lparr>rrep_src_ip := 0x0C090909\<rparr>"

theorem reply_deadlocks_witness:
  "\<exists>f \<in> {Deadlock, Signed_overflow}. recv_rrep 0x0E000001 aliased_reply sample_node = Inl f"
proof (rule reply_deadlocks)
  show "reach node_init quiet_step sample_node"
    unfolding sample_node_def by (intro reach_init node_initI)
qed (simp_all add: aliased_reply_def sample_reply_def sample_node_def main_init_def slot_of_def)

section \<open>Replies of an intermediate node\<close>

text \<open>Programs that send a reply with the four bytes behind it.\<close>

definition sends_over :: "u32 \<Rightarrow> (rrep_header \<Rightarrow> bool) \<Rightarrow> (node, 'a) prog \<Rightarrow> bool" where
  "sends_over ip P m \<longleftrightarrow> (\<forall>s x s'. m s = Inr (x, s') \<longrightarrow>
     (\<exists>h. P h \<and> Sent_unicast ip (encode_rrep h @ map (heap_junk (world s)) [20..<24]) \<in> set (events s')))"

lemma sends_over_bnd: "fixed m \<Longrightarrow> (\<And>x. sends_over ip P (k x)) \<Longrightarrow> sends_over ip P (bnd m k)"
  unfolding sends_over_def bnd_Inr_iff fixed_def later_def by metis

lemma sends_over_sq: "fixed m \<Longrightarrow> sends_over ip P n \<Longrightarrow> sends_over ip P (sq m n)"
  unfolding sq_def by (rule sends_over_bnd)

lemma sends_over_here:
  assumes "P h" and "fixed n"
  shows "sends_over ip P (sq (SendUnicast ip (encode_rrep h) sizeof_rreq) n)"
proof -
  have "read_block junk (encode_rrep h) sizeof_rreq = encode_rrep h @ map junk [20..<24]" for junk
    by (subst read_block_over) (simp_all add: rrep_fmt.length_encode sizeof_rrep_def sizeof_rreq_def)
  then show ?thesis
    using assms
    by (auto simp: sends_over_def SendUnicast_def emit_def prog_simps fixed_def later_def
        sq_def bnd_def split: sum.splits) fastforce
qed

lemma new_rrep_bnd: "bnd (new_rrep flags prefix dest seq origin life) k =
    bnd (gets (\<lambda>s. prefix_junk (world s) (length (events s))))
      (\<lambda>junk. k (generate_rrep_message junk flags prefix dest seq origin life))"
  by (rule ext) (simp add: new_rrep_def prog_simps)

text \<open>
  The reply an intermediate node sends to the requester carries four bytes of its own memory:
  the 20 bytes of the reply are followed by what lies behind them on the heap.
\<close>

theorem intermediate_reply_leaks:
  assumes "send_rrep_intermediate m sender s = Inr ((), s')"
  shows "\<exists>h. (rrep_dest_ip h = rreq_dest_ip m \<and> rrep_src_ip h = rreq_src_ip m \<and> rrep_type h = RREP_TYPE) \<and>
    Sent_unicast sender (encode_rrep h @ map (heap_junk (world s)) [20..<24]) \<in> set (events s')"
proof -
  have "sends_over sender (\<lambda>h. rrep_dest_ip h = rreq_dest_ip m \<and> rrep_src_ip h = rreq_src_ip m \<and>
      rrep_type h = RREP_TYPE) (send_rrep_intermediate m sender)"
    unfolding send_rrep_intermediate_def Let_def new_rrep_bnd block.simps
    by (rule sends_over_here sends_over_bnd sends_over_sq
        | (intro fixed_rules fixed_api fixed_lists; fail) | (simp add: generate_rrep_message_def; fail))+
  then show ?thesis using assms unfolding sends_over_def by blast
qed

lemma heard_intermediate:
  "returns (send_rrep_intermediate (sample_request\<lparr>rreq_dest_ip := 0x0C000001, rreq_src_ip := 0x0B000001\<rparr>)
     0x0B000001 heard)"
  by code_simp

theorem intermediate_reply_leaks_witness:
  "case send_rrep_intermediate (sample_request\<lparr>rreq_dest_ip := 0x0C000001, rreq_src_ip := 0x0B000001\<rparr>)
     0x0B000001 heard of Inl _ \<Rightarrow> False
   | Inr (x, s') \<Rightarrow> \<exists>h. rrep_dest_ip h = 0x0C000001 \<and>
       Sent_unicast 0x0B000001 (encode_rrep h @ map (heap_junk (world heard)) [20..<24]) \<in> set (events s')"
proof -
  obtain s' where run: "send_rrep_intermediate (sample_request\<lparr>rreq_dest_ip := 0x0C000001,
      rreq_src_ip := 0x0B000001\<rparr>) 0x0B000001 heard = Inr ((), s')"
    using returnsD[OF heard_intermediate] by auto
  from intermediate_reply_leaks[OF run] run show ?thesis by auto
qed

section \<open>Forwarded packets\<close>

text \<open>The error message of a node without a route.\<close>

definition no_route_error :: "u32 \<Rightarrow> u32 \<Rightarrow> event" where
  "no_route_error dest seq = Sent_broadcast (encode_rerr \<lparr>rerr_dest_count = 1, rerr_reserved = 0,
     rerr_n = 0, rerr_type = RERR_TYPE\<rparr> @ bytes_of_words [dest, seq])"

lemma forward_message: "lift_sum (generate_rerr_message 0 1 [dest, seq]) t =
    Inr (Some (encode_rerr \<lparr>rerr_dest_count = 1, rerr_reserved = 0, rerr_n = 0, rerr_type = RERR_TYPE\<rparr> @
      bytes_of_words [dest, seq], 12), t)"
  by (simp add: generate_rerr_message_def lift_sum_def prog_simps Let_def)

lemma SendBroadcast_12:
  "SendBroadcast (encode_rerr h @ bytes_of_words [dest, seq]) 12 t =
     Inr ((), t\<lparr>events := events t @ [Sent_broadcast (encode_rerr h @ bytes_of_words [dest, seq])]\<rparr>)"
  using read_block_exact[of _ "encode_rerr h @ bytes_of_words [dest, seq]"]
  by (simp add: SendBroadcast_def emit_def prog_simps rerr_fmt.length_encode sizeof_rerr_def)

text \<open>
  A packet for a destination without an entry is dropped, and an error message for exactly that
  destination is broadcast; nothing else changes.
\<close>

theorem forward_without_entry:
  assumes "get_routing_entry (routes s) dest = None"
  shows "forwarded_messages src dest s =
    Inr (PACKET_DROP, s\<lparr>events := events s @ [no_route_error dest 0]\<rparr>)"
  using assms
  by (simp add: forwarded_messages_def lookup_route_def forward_no_route_def forward_message
      SendBroadcast_12 no_route_error_def prog_simps del: bytes_of_words_simps)

theorem forward_without_entry_witness:
  "forwarded_messages 0x0B000001 0x0C000001 sample_node =
     Inr (PACKET_DROP, sample_node\<lparr>events := events sample_node @ [no_route_error 0x0C000001 0]\<rparr>)"
  by (rule forward_without_entry)
    (simp add: get_routing_entry_def find_entry_slot sample_node_def main_init_def create_routing_table_def
      create_data_header_def)

text \<open>
  C30: A packet for a valid route over a next hop whose route is not valid blocks the forwarding
  callback for ever: the code locks the entry of the next hop and then locks it again. The error
  message that this branch is to send is never sent.
\<close>

theorem forward_rerr_blocks:
  assumes "reachable s"
    and "get_routing_entry (routes s) dest = Some a" and "heap s a = Some e" and "status e = ROUTE_VALID"
    and "get_routing_entry (routes s) (next_hop e) = Some b" and "heap s b = Some h"
    and "status h \<noteq> ROUTE_VALID"
  shows "forwarded_messages src dest s = Inl Deadlock"
proof -
  have "b \<noteq> a" using assms by auto
  then have ip: "dest_ip h \<noteq> dest_ip e"
    using same_slot[OF reachable_node_inv[OF assms(1)] assms(6,3)] by auto
  show ?thesis
  proof (cases "entry_mutex e")
    case True
    then show ?thesis
      using assms by (simp add: forwarded_messages_def lookup_route_def mutex_lock_def deref_def prog_simps)
  next
    case False
    let ?s = "s\<lparr>heap := (heap s)(a \<mapsto> e\<lparr>entry_mutex := True\<rparr>)\<rparr>"
    have "forwarded_messages src dest s = forward_through dest (Some a) (get_routing_entry (routes s) src)
        (Some b) (e\<lparr>entry_mutex := True\<rparr>) ?s"
      using assms(2-5) False
      by (simp add: forwarded_messages_def lookup_route_def mutex_lock_def deref_def write_entry_def prog_simps)
    moreover have "heap ?s b = Some h" using assms(6) \<open>b \<noteq> a\<close> by simp
    ultimately show ?thesis
      using ip assms(4,7)
      by (cases "entry_mutex h")
        (simp_all add: forward_through_def forward_rerr_def mutex_lock_def deref_def write_entry_def prog_simps)
  qed
qed

lemma broken_hop:
  "case (heap (after [Control_in 0x0B000001 (encode_rreq sample_request), Run 2, Run 2]) 0,
         heap (after [Control_in 0x0B000001 (encode_rreq sample_request), Run 2, Run 2]) 1) of
     (Some h, Some e) \<Rightarrow> status h = ROUTE_INVALID \<and> status e = ROUTE_VALID \<and> next_hop e = 0x0B000001
   | _ \<Rightarrow> False"
  "routes (after [Control_in 0x0B000001 (encode_rreq sample_request), Run 2, Run 2]) 0x0C = Some 1 \<and>
   routes (after [Control_in 0x0B000001 (encode_rreq sample_request), Run 2, Run 2]) 0x0B = Some 0"
  by code_simp+

theorem forward_rerr_blocks_witness:
  "forwarded_messages 0x0E000001 0x0C000001
     (after [Control_in 0x0B000001 (encode_rreq sample_request), Run 2, Run 2]) = Inl Deadlock"
proof -
  let ?s = "after [Control_in 0x0B000001 (encode_rreq sample_request), Run 2, Run 2]"
  obtain e h where e: "heap ?s 1 = Some e" "status e = ROUTE_VALID" "next_hop e = 0x0B000001"
    and h: "heap ?s 0 = Some h" "status h = ROUTE_INVALID"
    using broken_hop(1) by (auto split: option.splits)
  have "get_routing_entry (routes ?s) 0x0C000001 = Some 1" "get_routing_entry (routes ?s) (next_hop e) = Some 0"
    using broken_hop(2) e(3) by (simp_all add: get_routing_entry_def find_entry_slot)
  from forward_rerr_blocks[OF reachable_after this(1) e(1,2) this(2) h(1)] h(2) show ?thesis by simp
qed

text \<open>
  C31: A packet for a destination whose route is not valid, over a next hop with an entry of its own,
  is dropped, and the entry of the next hop stays locked: the next packet of this kind blocks
  the callback for ever. The error message carries the address of the destination where its
  sequence number belongs.
\<close>

theorem forward_leaks_lock:
  assumes "reach node_init quiet_step s"
    and "get_routing_entry (routes s) dest = Some a" and "heap s a = Some e" and "status e \<noteq> ROUTE_VALID"
    and "get_routing_entry (routes s) (next_hop e) = Some b" and "b \<noteq> a"
  shows "\<exists>s'. forwarded_messages src dest s = Inr (PACKET_DROP, s') \<and> held s' = {b} \<and>
    events s' = events s @ [no_route_error dest (dest_ip e)] \<and>
    forwarded_messages src' dest s' = Inl Deadlock"
proof -
  have ok: "ok {} {} s" using assms(1) by (rule quiet_sys.reach_inv)
  obtain h where h: "heap s b = Some h"
    using ok assms(5) unfolding ok_def node_inv_def table_inv_def get_routing_entry_def find_entry_slot by blast
  have free: "\<not> entry_mutex f" if "heap s c = Some f" for c f
    using ok that by (auto simp: ok_def held_def)
  have ip: "dest_ip h \<noteq> dest_ip e"
    using same_slot[OF _ h assms(3)] ok assms(6) by (auto simp: ok_def)
  let ?s = "s\<lparr>heap := (heap s)(b \<mapsto> h\<lparr>entry_mutex := True\<rparr>),
    events := events s @ [no_route_error dest (dest_ip e)]\<rparr>"
  have e: "(heap s)(a \<mapsto> e\<lparr>entry_mutex := False\<rparr>) = heap s"
    using assms(3) free[OF assms(3)] by (simp add: fun_upd_idem_iff)
  have heap: "(heap s)(a \<mapsto> e\<lparr>entry_mutex := True\<rparr>, b \<mapsto> h\<lparr>entry_mutex := True\<rparr>, a \<mapsto> e\<lparr>entry_mutex := False\<rparr>) =
      (heap s)(b \<mapsto> h\<lparr>entry_mutex := True\<rparr>)"
    using e assms(6) by (auto simp: fun_upd_twist[of b a])
  have run: "forwarded_messages src dest s = Inr (PACKET_DROP, ?s)"
    using assms(2-6) h ip free[OF assms(3)] free[OF h] heap
    by (simp add: forwarded_messages_def forward_through_def lookup_route_def mutex_lock_def mutex_unlock_def
        deref_def write_entry_def forward_no_route_def forward_message SendBroadcast_12 no_route_error_def
        prog_simps del: bytes_of_words_simps)
  moreover have "held ?s = {b}"
    using free by (auto simp: held_def)
  moreover have "forwarded_messages src' dest ?s = Inl Deadlock"
    using assms(2-6) h ip free[OF assms(3)]
    by (simp add: forwarded_messages_def forward_through_def lookup_route_def mutex_lock_def
        deref_def write_entry_def prog_simps)
  ultimately show ?thesis by (intro exI[of _ ?s]) simp
qed

lemma stale_destination:
  "case heap (after [Control_in 0x0B000001 (encode_rreq sample_request), Run 4, Run 4]) 1 of
     Some e \<Rightarrow> status e = ROUTE_INVALID \<and> next_hop e = 0x0B000001 | _ \<Rightarrow> False"
  "routes (after [Control_in 0x0B000001 (encode_rreq sample_request), Run 4, Run 4]) 0x0C = Some 1 \<and>
   routes (after [Control_in 0x0B000001 (encode_rreq sample_request), Run 4, Run 4]) 0x0B = Some 0"
  by code_simp+

theorem forward_leaks_lock_witness:
  "\<exists>s'. forwarded_messages 0x0E000001 0x0C000001
       (after [Control_in 0x0B000001 (encode_rreq sample_request), Run 4, Run 4]) = Inr (PACKET_DROP, s') \<and>
     held s' = {0} \<and> forwarded_messages 0x0F000001 0x0C000001 s' = Inl Deadlock"
proof -
  let ?s = "after [Control_in 0x0B000001 (encode_rreq sample_request), Run 4, Run 4]"
  have quiet: "reach node_init quiet_step ?s" by (rule after_quiet) simp
  obtain e where e: "heap ?s 1 = Some e" "status e = ROUTE_INVALID" "next_hop e = 0x0B000001"
    using stale_destination(1) by (auto split: option.splits)
  have "get_routing_entry (routes ?s) 0x0C000001 = Some 1" "get_routing_entry (routes ?s) (next_hop e) = Some 0"
    using stale_destination(2) e(3) by (simp_all add: get_routing_entry_def find_entry_slot)
  from forward_leaks_lock[OF quiet this(1) e(1) _ this(2)] e(2) show ?thesis by fastforce
qed

text \<open>The branch that accepts, from the state in which the destination is locked.\<close>

lemma forward_accept_eq:
  assumes ok: "ok {} {} s" and e: "heap s a = Some e"
  defines "t \<equiv> s\<lparr>heap := (heap s)(a \<mapsto> e\<lparr>entry_mutex := True\<rparr>)\<rparr>"
  shows "if get_routing_entry (routes s) src = Some a
    then forward_accept (Some a) (get_routing_entry (routes s) src) t = Inl Deadlock
    else \<exists>s' e'. forward_accept (Some a) (get_routing_entry (routes s) src) t = Inr (PACKET_ACCEPT, s') \<and>
      held s' = {} \<and> heap s' a = Some e' \<and> route_of e' = route_of e \<and>
      time_out e' = add_time_ms (clock (world s) (ticks s)) ACTIVE_ROUTE_TIMEOUT \<and>
      threads s' (expiration_thread e') = Some (Expiration a)"
proof -
  have free: "\<not> entry_mutex f" if "heap s c = Some f" for c f
    using ok that by (auto simp: ok_def held_def)
  have t: "heap t a = Some (e\<lparr>entry_mutex := True\<rparr>)" by (simp add: t_def)
  obtain u e1 where u: "set_expiration_timer (Some a) ACTIVE_ROUTE_TIMEOUT t = Inr ((), u)"
    "heap u = (heap s)(a \<mapsto> e1)" "entry_mutex e1" "route_of e1 = route_of e"
    "time_out e1 = add_time_ms (clock (world s) (ticks s)) ACTIVE_ROUTE_TIMEOUT"
    "threads u (expiration_thread e1) = Some (Expiration a)" "expiration_thread e1 = next_tid s"
    "next_tid u = Suc (next_tid s)"
    using set_expiration_timer_eq[OF t, of ACTIVE_ROUTE_TIMEOUT]
    by (simp add: config_defs route_of_def t_def)
  consider (none) "get_routing_entry (routes s) src = None" | (same) "get_routing_entry (routes s) src = Some a"
    | (other) c where "get_routing_entry (routes s) src = Some c" "c \<noteq> a" by (metis not_None_eq)
  then show ?thesis
  proof cases
    case none
    then show ?thesis
      using u free
      by (auto simp: forward_accept_def mutex_unlock_def deref_def write_entry_def prog_simps held_def route_of_def)
  next
    case same
    then show ?thesis
      using u(1-3) by (simp add: forward_accept_def mutex_lock_def deref_def prog_simps)
  next
    case other
    obtain f where f: "heap s c = Some f"
      using ok other(1) unfolding ok_def node_inv_def table_inv_def get_routing_entry_def find_entry_slot by blast
    have below: "expiration_thread f < next_tid s"
      using ok f by (auto simp: ok_def node_inv_def table_inv_def handles_below_def)
    let ?v = "u\<lparr>heap := (heap u)(c \<mapsto> f\<lparr>entry_mutex := True\<rparr>)\<rparr>"
    have "heap ?v c = Some (f\<lparr>entry_mutex := True\<rparr>)" by simp
    from set_expiration_timer_eq[OF this, of ACTIVE_ROUTE_TIMEOUT]
    show ?thesis
      using other u free f free[OF f] below
      by (auto simp: forward_accept_def mutex_lock_def mutex_unlock_def deref_def write_entry_def prog_simps
          held_def route_of_def)
  qed
qed

lemma forward_valid:
  assumes ok: "ok {} {} s"
    and "get_routing_entry (routes s) dest = Some a" and "heap s a = Some e" and "status e = ROUTE_VALID"
    and "get_routing_entry (routes s) (next_hop e) = Some b" and "heap s b = Some h" and "status h = ROUTE_VALID"
  shows "if get_routing_entry (routes s) src = Some a then forwarded_messages src dest s = Inl Deadlock
    else \<exists>s' e'. forwarded_messages src dest s = Inr (PACKET_ACCEPT, s') \<and> held s' = {} \<and>
      heap s' a = Some e' \<and> route_of e' = route_of e \<and>
      time_out e' = add_time_ms (clock (world s) (ticks s)) ACTIVE_ROUTE_TIMEOUT \<and>
      threads s' (expiration_thread e') = Some (Expiration a)"
proof -
  have free: "\<not> entry_mutex f" if "heap s c = Some f" for c f
    using ok that by (auto simp: ok_def held_def)
  let ?s = "s\<lparr>heap := (heap s)(a \<mapsto> e\<lparr>entry_mutex := True\<rparr>)\<rparr>"
  have idem: "(heap s)(b \<mapsto> h\<lparr>entry_mutex := False\<rparr>) = heap s"
    using assms(6) free[OF assms(6)] by (simp add: fun_upd_idem_iff)
  have "forwarded_messages src dest s = forward_accept (Some a) (get_routing_entry (routes s) src) ?s"
  proof (cases "dest_ip h = dest_ip e")
    case True
    then have "b = a" using same_slot[OF _ assms(6,3)] ok by (auto simp: ok_def)
    then show ?thesis
      using assms(2-7) free[OF assms(3)]
      by (simp add: forwarded_messages_def forward_through_def lookup_route_def mutex_lock_def deref_def
          write_entry_def prog_simps)
  next
    case False
    then have "b \<noteq> a" using assms(3,6) by auto
    then have "(heap s)(a \<mapsto> e\<lparr>entry_mutex := True\<rparr>, b \<mapsto> h\<lparr>entry_mutex := False\<rparr>) =
        (heap s)(a \<mapsto> e\<lparr>entry_mutex := True\<rparr>)"
      using idem by (subst fun_upd_twist) simp_all
    with False \<open>b \<noteq> a\<close> show ?thesis
      using assms(2-7) free[OF assms(3)] free[OF assms(6)]
      by (simp add: forwarded_messages_def forward_through_def lookup_route_def mutex_lock_def
          mutex_unlock_def deref_def write_entry_def prog_simps)
  qed
  moreover have "if get_routing_entry (routes s) src = Some a
    then forward_accept (Some a) (get_routing_entry (routes s) src) ?s = Inl Deadlock
    else \<exists>s' e'. forward_accept (Some a) (get_routing_entry (routes s) src) ?s = Inr (PACKET_ACCEPT, s') \<and>
      held s' = {} \<and> heap s' a = Some e' \<and> route_of e' = route_of e \<and>
      time_out e' = add_time_ms (clock (world s) (ticks s)) ACTIVE_ROUTE_TIMEOUT \<and>
      threads s' (expiration_thread e') = Some (Expiration a)"
    by (rule forward_accept_eq[OF ok assms(3)])
  ultimately show ?thesis by (simp only:)
qed

text \<open>
  C29: A packet for a valid route over a valid next hop is accepted, the time left for the route is
  set again, and every lock is released; but if the source shares its slot with the destination, the
  callback blocks, since it locks the entry a second time.
\<close>

theorem forward_accepts:
  assumes "reach node_init quiet_step s"
    and "get_routing_entry (routes s) dest = Some a" and "heap s a = Some e" and "status e = ROUTE_VALID"
    and "get_routing_entry (routes s) (next_hop e) = Some b" and "heap s b = Some h" and "status h = ROUTE_VALID"
  shows "if get_routing_entry (routes s) src = Some a then forwarded_messages src dest s = Inl Deadlock
    else \<exists>s' e'. forwarded_messages src dest s = Inr (PACKET_ACCEPT, s') \<and> held s' = {} \<and>
      heap s' a = Some e' \<and> route_of e' = route_of e \<and>
      time_out e' = add_time_ms (clock (world s) (ticks s)) ACTIVE_ROUTE_TIMEOUT \<and>
      threads s' (expiration_thread e') = Some (Expiration a)"
  using quiet_sys.reach_inv[OF assms(1)] assms(2-) by (rule forward_valid)

theorem forward_accepts_witness:
  "forwarded_messages 0x0C000001 0x0C000001 heard = Inl Deadlock"
proof -
  have quiet: "reach node_init quiet_step heard" unfolding heard_def by (rule after_quiet) simp
  have "case (heap heard 0, heap heard 1) of
      (Some h, Some e) \<Rightarrow> status h = ROUTE_VALID \<and> status e = ROUTE_VALID \<and> next_hop e = 0x0B000001
    | _ \<Rightarrow> False" by code_simp
  then obtain e h where e: "heap heard 1 = Some e" "status e = ROUTE_VALID" "next_hop e = 0x0B000001"
    and h: "heap heard 0 = Some h" "status h = ROUTE_VALID"
    by (auto split: option.splits)
  have r: "get_routing_entry (routes heard) 0x0C000001 = Some 1" "get_routing_entry (routes heard) (next_hop e) = Some 0"
    using heard_routes e(3) by (simp_all add: get_routing_entry_def find_entry_slot)
  from forward_accepts[OF quiet r(1) e(1,2) r(2) h, of "0x0C000001"] r(1) show ?thesis by simp
qed

section \<open>The threads\<close>

text \<open>
  C24: An expiration timer ends a route in two steps. When it wakes for a valid route, the route
  becomes invalid and is taken out of the kernel's table, and the same thread goes on with a new
  time-out, a delete period from now; when it wakes for an invalid one, the entry leaves the table
  and is freed, and the threads that work on it are cancelled.
\<close>

theorem expiration_phases:
  assumes "reach node_init quiet_step s" and "threads s t = Some (Expiration_sleep a d)" and "nanosleep_ok d"
  shows "\<exists>s' e. exec (Run t) s = Inr ((), s') \<and> heap s a = Some e \<and>
    (case status e of
       ROUTE_VALID \<Rightarrow> routes s' = routes s \<and> threads s' t = Some (Expiration a) \<and>
         events s' = events s @ [Deleted_route (dest_ip e) (next_hop e)] \<and>
         (\<exists>e'. heap s' a = Some e' \<and> route_of e' = (route_of e)\<lparr>r_status := ROUTE_INVALID\<rparr> \<and>
            time_out e' = add_time_ms (clock (world s) (ticks s)) DELETE_PERIOD)
     | ROUTE_INVALID \<Rightarrow> routes s' = (routes s)(slot_of (dest_ip e) := None) \<and> heap s' = (heap s)(a := None) \<and>
         threads s' t = None \<and>
         (\<forall>u \<in> {rreq_id_thread e, rreq_message_sender e} - {0}. threads s' u = None))"
proof -
  have ok: "ok {} {} s" using assms(1) by (rule quiet_sys.reach_inv)
  obtain e where e: "heap s a = Some e" using ok_threadD(3)[OF ok assms(2)] by (auto simp: thread_ok_def)
  have m: "\<not> entry_mutex e" using ok e by (auto simp: ok_def held_def)
  have run: "exec (Run t) s = expiration_wake t a s"
    using assms(2,3) by (simp add: run_thread_def asleep_def prog_simps)
  show ?thesis
  proof (cases "status e")
    case ROUTE_VALID
    from expiration_wake_valid[OF e this m, of t] ROUTE_VALID e show ?thesis
      by (simp add: run route_of_def del: exec.simps)
  next
    case ROUTE_INVALID
    from expiration_wake_invalid[OF ok e this, of t] ROUTE_INVALID e show ?thesis
      by (simp add: run del: exec.simps)
  qed
qed

lemma expiring_node:
  "case threads (after [Control_in 0x0B000001 (encode_rreq sample_request), Run 2]) 2 of
     Some (Expiration_sleep a d) \<Rightarrow> a = 0 \<and> nanosleep_ok d | _ \<Rightarrow> False"
  "case heap (after [Control_in 0x0B000001 (encode_rreq sample_request), Run 2]) 0 of
     Some e \<Rightarrow> status e = ROUTE_VALID | None \<Rightarrow> False"
  by code_simp+

theorem expiration_phases_witness:
  "\<exists>s'. exec (Run 2) (after [Control_in 0x0B000001 (encode_rreq sample_request), Run 2]) = Inr ((), s') \<and>
     threads s' 2 = Some (Expiration 0)"
proof -
  let ?s = "after [Control_in 0x0B000001 (encode_rreq sample_request), Run 2]"
  have quiet: "reach node_init quiet_step ?s" by (rule after_quiet) simp
  obtain d where d: "threads ?s 2 = Some (Expiration_sleep 0 d)" "nanosleep_ok d"
    using expiring_node(1) by (auto split: option.splits thread.splits)
  from expiration_phases[OF quiet d] expiring_node(2) show ?thesis by fastforce
qed



text \<open>
  The hello thread waits without effect while no route is active. Once one is, it sleeps for the
  hello interval and then broadcasts one hello message, with the node's own number of that moment,
  and waits again.
\<close>

theorem hello_round:
  assumes "threads s t = Some (Hello_wait m)" and "\<not> mutex (sequence_num s)"
  shows "run [Run t, Run t] s = Inr ((), if active_routes s = 0 then s
    else s\<lparr>events := events s @ [Sent_broadcast (encode_rrep (m\<lparr>rrep_dest_seq := number (sequence_num s)\<rparr>))],
      threads := (threads s)(t \<mapsto> Hello_wait (m\<lparr>rrep_dest_seq := number (sequence_num s)\<rparr>))\<rparr>)"
proof -
  have block: "read_block junk (encode_rrep h) sizeof_rrep = encode_rrep h" for junk h
    using read_block_exact[of junk "encode_rrep h"] by (simp add: rrep_fmt.length_encode)
  show ?thesis
    using assms
    by (cases "active_routes s = 0")
      (simp_all add: run_thread_def hello_poll_def hello_wake_def asleep_def convert_ms_sleeps set_thread_def
        on_sequence_num_def zoom_def SendBroadcast_def emit_def block prog_simps bnd_def Let_def)
qed

theorem hello_round_witness:
  "\<exists>s'. run [Run 1, Run 1] (sample_node\<lparr>active_routes := 1, threads := [1 \<mapsto> Hello_wait sample_hello]\<rparr>) =
     Inr ((), s') \<and> length (events s') = 1"
  by (subst hello_round[where m = sample_hello]) (simp_all add: sample_node_def main_init_def)

end
