(* ===== verification/Message_Flow.thy ===== *)
theory Message_Flow
  imports Forward_Properties
begin

text \<open>
  What a handler sends, and messages on their way from node to node: how far a request is passed
  on, and a search for a neighbour from the request to the usable route.
\<close>

section \<open>What a program sends\<close>

text \<open>
  \<open>emits own P m\<close>: on a node with address \<open>own\<close>, every call to the packet API that \<open>m\<close> makes
  satisfies \<open>P\<close>.
\<close>

definition emits :: "u32 \<Rightarrow> (event \<Rightarrow> bool) \<Rightarrow> (node, 'a) prog \<Rightarrow> bool" where
  "emits own P m \<longleftrightarrow> (\<forall>s x s'. ip_address s = own \<longrightarrow> m s = Inr (x, s') \<longrightarrow>
     ip_address s' = own \<and> (\<exists>evs. events s' = events s @ evs \<and> (\<forall>ev \<in> set evs. P ev)))"

lemma emitsD:
  "emits own P m \<Longrightarrow> ip_address s = own \<Longrightarrow> m s = Inr (x, s') \<Longrightarrow>
     ip_address s' = own \<and> (\<exists>evs. events s' = events s @ evs \<and> (\<forall>ev \<in> set evs. P ev))"
  unfolding emits_def by blast

lemma emits_silent:
  assumes "\<And>s x s'. m s = Inr (x, s') \<Longrightarrow> ip_address s' = ip_address s \<and> events s' = events s"
  shows "emits own P m"
  unfolding emits_def using assms by (metis append_Nil2 empty_iff empty_set)

lemma emits_basic:
  "emits own P (ret x)" "emits own P (gets g)" "emits own P (fail f)" "emits own P (deref p)"
  "emits own P (write_entry p f')" "emits own P (lookup_route ip)" "emits own P clock_gettime"
  "emits own P (pthread_cancel t)" "emits own P (set_thread t th)" "emits own P (malloc_entry e)"
  "emits own P (modify (\<lambda>s. s\<lparr>routes := h s\<rparr>))" "emits own P (modify (\<lambda>s. s\<lparr>active_routes := k s\<rparr>))"
  "emits own P (modify (\<lambda>s. s\<lparr>threads := h1 s, next_tid := h2 s\<rparr>))"
  "emits own P (on_sequence_num n)" "emits own P (on_rreq_ids n')" "emits own P (seq_compare x1 x2)"
  by (rule emits_silent; auto simp: ret_def gets_def fail_def deref_def write_entry_def lookup_route_def
      clock_gettime_def modify_def pthread_cancel_def set_thread_def malloc_entry_def on_sequence_num_def
      on_rreq_ids_def zoom_def seq_compare_def Let_def split: option.splits sum.splits if_splits)+

lemma emits_post:
  assumes "emits own P m" and "\<And>s x s'. ip_address s = own \<Longrightarrow> m s = Inr (x, s') \<Longrightarrow> Q x"
    and "\<And>x. Q x \<Longrightarrow> emits own P (k x)"
  shows "emits own P (bnd m k)"
  unfolding emits_def
proof (intro allI impI)
  fix s y t
  assume own: "ip_address s = own" and "bnd m k s = Inr (y, t)"
  then obtain x u where x: "m s = Inr (x, u)" "k x u = Inr (y, t)" by (auto simp: bnd_Inr_iff)
  from emitsD[OF assms(1) own x(1)] obtain evs
    where u: "ip_address u = own" "events u = events s @ evs" "\<forall>ev \<in> set evs. P ev" by blast
  from emitsD[OF assms(3)[OF assms(2)[OF own x(1)]] u(1) x(2)] u(2,3)
  show "ip_address t = own \<and> (\<exists>evs. events t = events s @ evs \<and> (\<forall>ev \<in> set evs. P ev))"
    by fastforce
qed

lemma emits_bnd: "emits own P m \<Longrightarrow> (\<And>x. emits own P (k x)) \<Longrightarrow> emits own P (bnd m k)"
  by (rule emits_post[where Q = "\<lambda>_. True"]) simp_all

lemma emits_own: "emits own P (k own) \<Longrightarrow> emits own P (bnd (gets ip_address) k)"
  by (rule emits_post[where Q = "\<lambda>x. x = own", OF emits_basic(2)]) (simp_all add: gets_def)

lemma emits_sq: "emits own P m \<Longrightarrow> emits own P n \<Longrightarrow> emits own P (sq m n)"
  unfolding sq_def by (rule emits_bnd)

lemma emits_if: "(b \<Longrightarrow> emits own P m) \<Longrightarrow> (\<not> b \<Longrightarrow> emits own P n) \<Longrightarrow> emits own P (if b then m else n)"
  by simp

lemma emits_when: "(b \<Longrightarrow> emits own P m) \<Longrightarrow> emits own P (when_p b m)"
  by (cases b) (simp_all add: emits_basic(1))

lemma emits_emit: "P ev \<Longrightarrow> emits own P (emit ev)"
  by (auto simp: emits_def emit_def modify_def)

text \<open>A message in a buffer of its own length is sent as it is.\<close>

lemma emits_messages:
  "P (Sent_broadcast (encode_rreq q)) \<Longrightarrow> emits own P (SendBroadcast (encode_rreq q) sizeof_rreq)"
  "P (Sent_unicast ip (encode_rrep r)) \<Longrightarrow> emits own P (SendUnicast ip (encode_rrep r) sizeof_rrep)"
proof -
  have bytes: "read_block junk (encode_rreq q) sizeof_rreq = encode_rreq q"
    "read_block junk (encode_rrep r) sizeof_rrep = encode_rrep r" for junk
    using read_block_exact[of junk "encode_rreq q"] read_block_exact[of junk "encode_rrep r"]
    by (simp_all add: rreq_fmt.length_encode rrep_fmt.length_encode)
  show "emits own P (SendBroadcast (encode_rreq q) sizeof_rreq)" if "P (Sent_broadcast (encode_rreq q))"
    unfolding SendBroadcast_def bytes by (intro emits_bnd emits_basic emits_emit that)
  show "emits own P (SendUnicast ip (encode_rrep r) sizeof_rrep)" if "P (Sent_unicast ip (encode_rrep r))"
    unfolding SendUnicast_def bytes by (intro emits_bnd emits_basic emits_emit that)
qed

lemma emits_unicast:
  "(\<And>bs. P (Sent_unicast ip bs)) \<Longrightarrow> emits own P (SendUnicast ip buf n)"
  by (auto simp: SendUnicast_def intro!: emits_bnd emits_basic emits_emit)

lemma emits_locks: "emits own P (mutex_lock p)" "emits own P (mutex_unlock p)"
  unfolding mutex_lock_def mutex_unlock_def by (intro emits_bnd emits_if emits_basic)+

lemma emits_lists: "emits own P (at_precursors p m)" "emits own P (at_next_hop_for p m)"
  unfolding at_precursors_def at_next_hop_for_def
  by (auto intro!: emits_bnd emits_sq emits_basic split: sum.splits)

lemma emits_timers:
  "emits own P (pthread_create store p th)" "emits own P (set_expiration_timer p ms)"
  "emits own P (start_rreq_timer p)" "emits own P (mark_active p)"
  unfolding set_expiration_timer_def start_rreq_timer_def mark_active_def pthread_create_def block.simps
  by (intro emits_bnd emits_sq emits_when emits_basic)+

lemma emits_create: "emits own P (create_or_get_routing_entry ip seq v hop hops timeout)"
  unfolding create_or_get_routing_entry_def add_routing_entry_def
  by (auto intro!: emits_bnd emits_sq emits_if emits_basic split: prod.splits)

lemma emits_new_rrep: "emits own P (new_rrep flags prefix dest seq origin life)"
  unfolding new_rrep_def by (intro emits_bnd emits_basic)

lemmas emits_rules = emits_basic emits_locks emits_lists emits_timers emits_create emits_new_rrep
  emits_sq emits_if emits_when emits_own emits_bnd

text \<open>Entries of the kernel's routing table are not messages.\<close>

definition on_messages :: "(event \<Rightarrow> bool) \<Rightarrow> bool" where
  "on_messages P \<longleftrightarrow> (\<forall>d h. P (Added_route d h) \<and> P (Deleted_route d h))"

lemma emits_routes:
  "on_messages P \<Longrightarrow> emits own P (AddUnicastRoutingEntry d h)"
  "on_messages P \<Longrightarrow> emits own P (DeleteEntry d h)"
  by (auto simp: AddUnicastRoutingEntry_def DeleteEntry_def on_messages_def intro: emits_emit)

section \<open>What a request makes a node send\<close>

text \<open>
  The request passed on: one hop more, one hop less to go, and the number asked for at least what
  it was; the reply of the destination; the reply of another node, with a number newer than the one
  asked for; and the gratuitous reply, which announces the originator to the destination.
\<close>

definition relays :: "rreq_header \<Rightarrow> rreq_header \<Rightarrow> bool" where
  "relays m q \<longleftrightarrow> (\<exists>n. q = m\<lparr>rreq_hop_count := rreq_hop_count m + 1, rreq_ttl := rreq_ttl m - 1,
       rreq_dest_seq := n\<rparr> \<and>
     (n = rreq_dest_seq m \<or> rreq_flag m RREQ_UNKNOWN \<or> sint (rreq_dest_seq m) < sint n))"

definition answers :: "u32 \<Rightarrow> rreq_header \<Rightarrow> rrep_header \<Rightarrow> bool" where
  "answers own m h \<longleftrightarrow> rrep_hop_count h = 0 \<and> rrep_type h = RREP_TYPE \<and> rrep_dest_ip h = own \<and>
     rrep_src_ip h = rreq_src_ip m \<and> rrep_lifetime h = MY_ROUTE_TIMEOUT \<and>
     (rreq_flag m RREQ_UNKNOWN \<or> sint (rreq_dest_seq m) \<le> sint (rrep_dest_seq h))"

definition answers_for :: "rreq_header \<Rightarrow> rrep_header \<Rightarrow> bool" where
  "answers_for m h \<longleftrightarrow> rrep_type h = RREP_TYPE \<and> rrep_dest_ip h = rreq_dest_ip m \<and> rrep_src_ip h = rreq_src_ip m \<and>
     (rreq_flag m RREQ_UNKNOWN \<or> sint (rreq_dest_seq m) < sint (rrep_dest_seq h))"

definition announces :: "rreq_header \<Rightarrow> rrep_header \<Rightarrow> bool" where
  "announces m h \<longleftrightarrow> rrep_type h = RREP_TYPE \<and> rrep_dest_ip h = rreq_src_ip m \<and> rrep_dest_seq h = rreq_src_seq m \<and>
     rrep_src_ip h = rreq_dest_ip m \<and> rrep_hop_count h = rreq_hop_count m + 1"

definition request_event :: "u32 \<Rightarrow> u32 \<Rightarrow> rreq_header \<Rightarrow> event \<Rightarrow> bool" where
  "request_event own sender_ip m ev = (case ev of
       Sent_broadcast bs \<Rightarrow> own \<noteq> rreq_src_ip m \<and> own \<noteq> rreq_dest_ip m \<and> 1 < rreq_ttl m \<and>
         (\<exists>q. bs = encode_rreq q \<and> relays m q)
     | Sent_unicast ip bs \<Rightarrow> own \<noteq> rreq_src_ip m \<and>
         (if own = rreq_dest_ip m then ip = sender_ip \<and> (\<exists>h. bs = encode_rrep h \<and> answers own m h)
          else \<not> rreq_flag m RREQ_DEST_ONLY \<and> (\<exists>h. take sizeof_rrep bs = encode_rrep h \<and>
            (ip = sender_ip \<and> answers_for m h \<or> rreq_flags m \<noteq> 0 \<and> announces m h)))
     | _ \<Rightarrow> True)"

lemma request_event_routes: "on_messages (request_event own sender_ip m)"
  by (simp add: on_messages_def request_event_def)

lemma emits_previous_hop: "on_messages P \<Longrightarrow> emits own P (recv_rreq_previous_hop sender_ip m)"
  unfolding recv_rreq_previous_hop_def block.simps
  by (auto intro!: emits_rules emits_routes split: prod.splits)

lemma emits_repeated: "emits own P (recv_rreq_repeated m)"
  unfolding recv_rreq_repeated_def by (intro emits_rules)

lemma emits_reverse_route: "on_messages P \<Longrightarrow> emits own P (recv_rreq_reverse_route sender_ip m)"
  unfolding recv_rreq_reverse_route_def Let_def
  by (auto intro!: emits_rules emits_routes split: prod.splits)

lemma seq_compare_value: "seq_compare x y s = Inr (d, s') \<Longrightarrow> d = sint x - sint y \<and> s' = s"
  by (auto simp: seq_compare_def Let_def prog_simps split: if_splits)

lemma own_route_fresher_value:
  "own_route_fresher m e s = Inr (b, s') \<Longrightarrow>
     s' = s \<and> (b \<longleftrightarrow> rreq_flag m RREQ_UNKNOWN \<or> sint (rreq_dest_seq m) < sint (dest_seq e))"
  by (auto simp: own_route_fresher_def bnd_Inr_iff prog_simps dest: seq_compare_value split: if_splits)

lemma emits_fresher: "emits own P (own_route_fresher m e)"
  unfolding own_route_fresher_def by (intro emits_rules)

lemma emits_destination:
  assumes "\<And>h. answers own m h \<Longrightarrow> P (Sent_unicast sender_ip (encode_rrep h))"
  shows "emits own P (send_rrep_destination m sender_ip)"
  unfolding send_rrep_destination_def Let_def
proof (rule emits_bnd[OF emits_basic(14)], rule emits_post[where
      Q = "\<lambda>n. rreq_flag m RREQ_UNKNOWN \<or> sint (rreq_dest_seq m) \<le> sint n"])
  fix seq0 n :: u32
  let ?number = "if \<not> rreq_flag m RREQ_UNKNOWN
    then bnd (seq_compare (rreq_dest_seq m) (seq0 + 1)) (\<lambda>d. ret (if d < 0 then seq0 + 1 else rreq_dest_seq m))
    else ret (seq0 + 1)"
  show "emits own P ?number" by (intro emits_rules)
  show "rreq_flag m RREQ_UNKNOWN \<or> sint (rreq_dest_seq m) \<le> sint x" if "?number s = Inr (x, s')" for s x s'
    using that by (auto simp: bnd_Inr_iff prog_simps dest!: seq_compare_value split: if_splits)
  assume n: "rreq_flag m RREQ_UNKNOWN \<or> sint (rreq_dest_seq m) \<le> sint n"
  show "emits own P (sq (on_sequence_num (write_safe n)) (bnd (gets ip_address) (\<lambda>own_ip.
      bnd (new_rrep 0 0 own_ip n (rreq_src_ip m) MY_ROUTE_TIMEOUT) (\<lambda>rrep_buf.
      SendUnicast sender_ip (encode_rrep rrep_buf) sizeof_rrep))))"
  proof (rule emits_sq[OF emits_basic(14)], rule emits_own,
      rule emits_post[OF emits_new_rrep, where Q = "answers own m"])
    show "answers own m h" if "new_rrep 0 0 own n (rreq_src_ip m) MY_ROUTE_TIMEOUT s = Inr (h, s')" for s h s'
      using that n by (auto simp: new_rrep_def bnd_Inr_iff prog_simps generate_rrep_message_def answers_def)
    show "emits own P (SendUnicast sender_ip (encode_rrep h) sizeof_rrep)" if "answers own m h" for h
      using that by (intro emits_messages assms)
  qed
qed

text \<open>
  What an intermediate node answers depends on the entry of the destination, which keeps its number
  while the replies are made.
\<close>

definition has_number :: "u8 \<Rightarrow> addr \<Rightarrow> u32 \<Rightarrow> node \<Rightarrow> bool" where
  "has_number i a n s \<longleftrightarrow> routes s i = Some a \<and> (\<exists>e. heap s a = Some e \<and> dest_seq e = n)"

definition keeps_number :: "(node, 'a) prog \<Rightarrow> bool" where
  "keeps_number m \<longleftrightarrow> (\<forall>i a n s x s'. m s = Inr (x, s') \<longrightarrow> has_number i a n s \<longrightarrow> has_number i a n s')"

definition emits_from :: "u32 \<Rightarrow> (node \<Rightarrow> bool) \<Rightarrow> (event \<Rightarrow> bool) \<Rightarrow> (node, 'a) prog \<Rightarrow> bool" where
  "emits_from own I P m \<longleftrightarrow> (\<forall>s x s'. I s \<longrightarrow> ip_address s = own \<longrightarrow> m s = Inr (x, s') \<longrightarrow>
     ip_address s' = own \<and> (\<exists>evs. events s' = events s @ evs \<and> (\<forall>ev \<in> set evs. P ev)))"

lemma emits_from_any: "emits own P m \<Longrightarrow> emits_from own I P m"
  unfolding emits_def emits_from_def by blast

lemma emits_fromD:
  "emits_from own I P m \<Longrightarrow> I s \<Longrightarrow> ip_address s = own \<Longrightarrow> m s = Inr (x, s') \<Longrightarrow>
     ip_address s' = own \<and> (\<exists>evs. events s' = events s @ evs \<and> (\<forall>ev \<in> set evs. P ev))"
  unfolding emits_from_def by blast

lemma keeps_number_basic:
  "keeps_number (ret x)" "keeps_number (fail f)" "keeps_number (deref p)" "keeps_number clock_gettime"
  "keeps_number (emit ev)" "keeps_number (gets g)" "keeps_number (lookup_route ip)"
  by (auto simp: keeps_number_def has_number_def ret_def fail_def deref_def clock_gettime_def emit_def modify_def
      gets_def lookup_route_def split: option.splits)

lemma keeps_number_write: "(\<And>e. dest_seq (f e) = dest_seq e) \<Longrightarrow> keeps_number (write_entry p f)"
  by (auto simp: keeps_number_def has_number_def write_entry_def split: option.splits)

lemma keeps_number_bnd: "keeps_number m \<Longrightarrow> (\<And>x. keeps_number (k x)) \<Longrightarrow> keeps_number (bnd m k)"
  unfolding keeps_number_def bnd_Inr_iff by blast

lemma keeps_number_sq: "keeps_number m \<Longrightarrow> keeps_number n \<Longrightarrow> keeps_number (sq m n)"
  unfolding sq_def by (rule keeps_number_bnd)

lemma keeps_number_calls:
  "keeps_number (mutex_lock p)" "keeps_number (mutex_unlock p)" "keeps_number (at_precursors p m)"
  "keeps_number (SendUnicast d buf n)" "keeps_number (new_rrep flags prefix dest seq origin life)"
  unfolding mutex_lock_def mutex_unlock_def at_precursors_def SendUnicast_def new_rrep_def
  by (auto intro!: keeps_number_basic keeps_number_bnd keeps_number_sq keeps_number_write split: sum.split)

lemmas keeps_number_rules = keeps_number_basic keeps_number_bnd keeps_number_sq keeps_number_calls

lemma emits_from_post:
  assumes "emits own P m" and "keeps_number m" and "\<And>s x s'. has_number i a n s \<Longrightarrow> m s = Inr (x, s') \<Longrightarrow> Q x"
    and "\<And>x. Q x \<Longrightarrow> emits_from own (has_number i a n) P (k x)"
  shows "emits_from own (has_number i a n) P (bnd m k)"
  unfolding emits_from_def
proof (intro allI impI)
  fix s y t
  assume s: "has_number i a n s" and own: "ip_address s = own" and "bnd m k s = Inr (y, t)"
  then obtain x u where x: "m s = Inr (x, u)" "k x u = Inr (y, t)" by (auto simp: bnd_Inr_iff)
  have u: "has_number i a n u" using assms(2) x(1) s unfolding keeps_number_def by blast
  from emitsD[OF assms(1) own x(1)] obtain evs
    where evs: "ip_address u = own" "events u = events s @ evs" "\<forall>ev \<in> set evs. P ev" by blast
  from emits_fromD[OF assms(4)[OF assms(3)[OF s x(1)]] u evs(1) x(2)] evs(2,3)
  show "ip_address t = own \<and> (\<exists>evs. events t = events s @ evs \<and> (\<forall>ev \<in> set evs. P ev))"
    by fastforce
qed

lemma emits_from_bnd:
  "emits own P m \<Longrightarrow> keeps_number m \<Longrightarrow> (\<And>x. emits_from own (has_number i a n) P (k x)) \<Longrightarrow>
     emits_from own (has_number i a n) P (bnd m k)"
  by (rule emits_from_post[where Q = "\<lambda>_. True"]) simp_all

lemma emits_from_sq:
  "emits own P m \<Longrightarrow> keeps_number m \<Longrightarrow> emits_from own (has_number i a n) P m' \<Longrightarrow>
     emits_from own (has_number i a n) P (sq m m')"
  unfolding sq_def by (rule emits_from_bnd)

lemma has_number_lookup: "has_number (slot_of ip) a n s \<Longrightarrow> lookup_route ip s = Inr (x, s') \<Longrightarrow> x = Some a"
  by (auto simp: has_number_def lookup_route_def get_routing_entry_def find_entry_slot prog_simps)

lemma has_number_deref: "has_number i a n s \<Longrightarrow> deref (Some a) s = Inr (e, s') \<Longrightarrow> dest_seq e = n"
  by (auto simp: has_number_def deref_def)

lemma emits_from_lookup:
  "emits_from own (has_number (slot_of ip) a n) P (k (Some a)) \<Longrightarrow>
     emits_from own (has_number (slot_of ip) a n) P (bnd (lookup_route ip) k)"
  by (rule emits_from_post[OF emits_basic(6) keeps_number_basic(7), where Q = "\<lambda>x. x = Some a"])
    (simp_all add: has_number_lookup)

lemma emits_from_deref:
  "(\<And>e. dest_seq e = n \<Longrightarrow> emits_from own (has_number i a n) P (k e)) \<Longrightarrow>
     emits_from own (has_number i a n) P (bnd (deref (Some a)) k)"
  by (rule emits_from_post[OF emits_basic(4) keeps_number_basic(3), where Q = "\<lambda>e. dest_seq e = n"])
    (simp_all add: has_number_deref)

lemma new_rrep_value:
  "new_rrep 0 0 d q origin life s = Inr (h, s') \<Longrightarrow> rrep_type h = RREP_TYPE \<and> rrep_dest_ip h = d \<and>
     rrep_dest_seq h = q \<and> rrep_src_ip h = origin"
  by (auto simp: new_rrep_def bnd_Inr_iff prog_simps generate_rrep_message_def)

lemma sent_reply: "take sizeof_rrep (read_block junk (encode_rrep h) sizeof_rreq) = encode_rrep h"
  by (rule nth_equalityI) (simp_all add: read_block_def encode_rrep_def rrep_words_def sizeof_rrep_def sizeof_rreq_def)

lemma emits_reply:
  assumes "\<And>junk. P (Sent_unicast ip (read_block junk (encode_rrep h) sizeof_rreq))"
  shows "emits own P (SendUnicast ip (encode_rrep h) sizeof_rreq)"
  unfolding SendUnicast_def by (intro emits_rules emits_emit assms)

text \<open>A reply by its fields, but the hop count, which is set behind.\<close>

definition reply_for :: "u32 \<Rightarrow> u32 \<Rightarrow> u32 \<Rightarrow> rrep_header \<Rightarrow> bool" where
  "reply_for d n origin h \<longleftrightarrow> rrep_type h = RREP_TYPE \<and> rrep_dest_ip h = d \<and> rrep_dest_seq h = n \<and> rrep_src_ip h = origin"

lemma emits_gratuitous:
  assumes "\<And>h ip bs. reply_for (rreq_src_ip m) (rreq_src_seq m) (rreq_dest_ip m) h \<Longrightarrow>
      rrep_hop_count h = rreq_hop_count m \<Longrightarrow> take sizeof_rrep bs = encode_rrep h \<Longrightarrow> P (Sent_unicast ip bs)"
  shows "emits own P (bnd (new_rrep 0 0 (rreq_src_ip m) (rreq_src_seq m) (rreq_dest_ip m) ACTIVE_ROUTE_TIMEOUT)
    (\<lambda>h. bnd (deref p) (\<lambda>e.
      SendUnicast (next_hop e) (encode_rrep (h\<lparr>rrep_hop_count := rreq_hop_count m\<rparr>)) sizeof_rreq)))"
proof (rule emits_post[OF emits_new_rrep, where Q = "reply_for (rreq_src_ip m) (rreq_src_seq m) (rreq_dest_ip m)"])
  fix h
  assume h: "reply_for (rreq_src_ip m) (rreq_src_seq m) (rreq_dest_ip m) h"
  show "emits own P (bnd (deref p) (\<lambda>e.
      SendUnicast (next_hop e) (encode_rrep (h\<lparr>rrep_hop_count := rreq_hop_count m\<rparr>)) sizeof_rreq))"
    by (intro emits_rules emits_reply assms[where h = "h\<lparr>rrep_hop_count := rreq_hop_count m\<rparr>"])
      (use h in \<open>simp_all add: reply_for_def sent_reply\<close>)
qed (simp add: reply_for_def new_rrep_value)

lemma emits_intermediate:
  assumes reply: "\<And>h bs. reply_for (rreq_dest_ip m) n (rreq_src_ip m) h \<Longrightarrow>
      take sizeof_rrep bs = encode_rrep h \<Longrightarrow> P (Sent_unicast sender_ip bs)"
    and gratuitous: "\<And>h ip bs. rreq_flags m \<noteq> 0 \<Longrightarrow> reply_for (rreq_src_ip m) (rreq_src_seq m) (rreq_dest_ip m) h \<Longrightarrow>
      rrep_hop_count h = rreq_hop_count m \<Longrightarrow> take sizeof_rrep bs = encode_rrep h \<Longrightarrow> P (Sent_unicast ip bs)"
  shows "emits_from own (has_number (slot_of (rreq_dest_ip m)) a n) P (send_rrep_intermediate m sender_ip)"
proof -
  note new = emits_from_post[OF emits_new_rrep keeps_number_calls(5), where Q = "reply_for (rreq_dest_ip m) n (rreq_src_ip m)"]
  show ?thesis
    unfolding send_rrep_intermediate_def Let_def block.simps
    apply (rule emits_from_lookup)
    apply (rule emits_from_sq, rule emits_locks, rule keeps_number_calls)
    apply (rule emits_from_bnd, rule emits_basic, rule keeps_number_basic)
    apply (rule emits_from_bnd, rule emits_basic, rule keeps_number_basic)
    apply (rule emits_from_sq, rule emits_lists, rule keeps_number_calls)
    apply (rule emits_from_sq, rule emits_locks, rule keeps_number_calls)
    apply (rule emits_from_deref)
    apply (rule new, simp add: reply_for_def new_rrep_value)
    apply (rule emits_from_any)
    apply (rule emits_sq)
     apply (rule emits_reply, rule reply[where h = "h\<lparr>rrep_hop_count := c\<rparr>" for h c])
      apply (simp add: reply_for_def)
     apply (rule sent_reply)
    by (intro emits_gratuitous gratuitous emits_rules) simp_all
qed

lemma emits_rreq_forward:
  assumes "\<And>n. 1 < rreq_ttl m \<Longrightarrow> n = rreq_dest_seq m \<or> rreq_flag m RREQ_UNKNOWN \<or>
      sint (rreq_dest_seq m) < sint n \<Longrightarrow>
    P (Sent_broadcast (encode_rreq (m\<lparr>rreq_ttl := rreq_ttl m - 1, rreq_dest_seq := n\<rparr>)))"
  shows "emits own P (recv_rreq_forward p m)"
proof (cases "rreq_ttl m \<le> 1")
  case True
  then show ?thesis by (simp add: recv_rreq_forward_def emits_basic)
next
  case False
  let ?m = "m\<lparr>rreq_ttl := rreq_ttl m - 1\<rparr>"
  let ?choose = "if p \<noteq> None then bnd (deref p) (\<lambda>e.
      if seq_valid e = SEQ_VALID then bnd (own_route_fresher ?m e) (\<lambda>fresher.
        ret (if fresher then ?m\<lparr>rreq_dest_seq := dest_seq e\<rparr> else ?m))
      else ret ?m) else ret ?m"
  let ?Q = "\<lambda>q. \<exists>n. q = m\<lparr>rreq_ttl := rreq_ttl m - 1, rreq_dest_seq := n\<rparr> \<and>
    (n = rreq_dest_seq m \<or> rreq_flag m RREQ_UNKNOWN \<or> sint (rreq_dest_seq m) < sint n)"
  have keep: "?Q ?m" by (rule exI[of _ "rreq_dest_seq m"]) simp
  have "emits own P (bnd ?choose (\<lambda>q. sq (SendBroadcast (encode_rreq q) sizeof_rreq) (ret LOGGING)))"
  proof (rule emits_post[where Q = ?Q])
    show "emits own P ?choose" by (intro emits_rules emits_fresher)
    show "?Q q" if run: "?choose s = Inr (q, s')" for s q s'
    proof (cases "q = ?m")
      case True
      with keep show ?thesis by simp
    next
      case False
      with run obtain e u where "own_route_fresher ?m e u = Inr (True, s')"
          and q: "q = ?m\<lparr>rreq_dest_seq := dest_seq e\<rparr>"
        by (auto simp: bnd_Inr_iff prog_simps split: if_splits)
      from own_route_fresher_value[OF this(1)]
      have "rreq_flag m RREQ_UNKNOWN \<or> sint (rreq_dest_seq m) < sint (dest_seq e)"
        by (simp add: rreq_flag_def)
      with q show ?thesis by auto
    qed
    show "emits own P (sq (SendBroadcast (encode_rreq q) sizeof_rreq) (ret LOGGING))" if "?Q q" for q
    proof -
      from that obtain n where n: "q = m\<lparr>rreq_ttl := rreq_ttl m - 1, rreq_dest_seq := n\<rparr>"
        "n = rreq_dest_seq m \<or> rreq_flag m RREQ_UNKNOWN \<or> sint (rreq_dest_seq m) < sint n" by blast
      show ?thesis
        unfolding n(1) by (intro emits_sq emits_basic emits_messages assms n(2)) (use False in \<open>simp add: not_le\<close>)
    qed
  qed
  then show ?thesis using False by (simp add: recv_rreq_forward_def Let_def)
qed

lemma increment_hop_rreq_simps [simp]:
  "rreq_ttl (increment_hop_rreq m) = rreq_ttl m" "rreq_flags (increment_hop_rreq m) = rreq_flags m"
  "rreq_dest_ip (increment_hop_rreq m) = rreq_dest_ip m" "rreq_dest_seq (increment_hop_rreq m) = rreq_dest_seq m"
  "rreq_src_ip (increment_hop_rreq m) = rreq_src_ip m" "rreq_src_seq (increment_hop_rreq m) = rreq_src_seq m"
  "rreq_hop_count (increment_hop_rreq m) = rreq_hop_count m + 1"
  "rreq_flag (increment_hop_rreq m) f = rreq_flag m f"
  by (simp_all add: increment_hop_rreq_def rreq_flag_def)

text \<open>An answer is given only for a valid route that is fresher than what is asked for.\<close>

lemma emits_answer:
  assumes reply: "\<And>a n. \<not> rreq_flag m RREQ_DEST_ONLY \<Longrightarrow>
      rreq_flag m RREQ_UNKNOWN \<or> sint (rreq_dest_seq m) < sint n \<Longrightarrow>
      emits_from own (has_number (slot_of (rreq_dest_ip m)) a n) P (send_rrep_intermediate m sender_ip)"
    and pass: "\<And>p. emits own P (recv_rreq_forward p m)"
  shows "emits own P (bnd (lookup_route (rreq_dest_ip m)) (\<lambda>destination.
     bnd (if \<not> rreq_flag m RREQ_DEST_ONLY \<and> destination \<noteq> None then
            bnd (deref destination) (\<lambda>e.
            if status e = ROUTE_VALID \<and> seq_valid e = SEQ_VALID then own_route_fresher m e else ret False)
          else ret False) (\<lambda>answer.
     if answer then sq (send_rrep_intermediate m sender_ip) (ret LOGGING) else recv_rreq_forward destination m)))"
  unfolding emits_def
proof (intro allI impI)
  let ?test = "\<lambda>p. if \<not> rreq_flag m RREQ_DEST_ONLY \<and> p \<noteq> None then
      bnd (deref p) (\<lambda>e. if status e = ROUTE_VALID \<and> seq_valid e = SEQ_VALID then own_route_fresher m e else ret False)
    else ret False"
  let ?go = "\<lambda>p answer. if answer then sq (send_rrep_intermediate m sender_ip) (ret LOGGING) else recv_rreq_forward p m"
  fix s v t
  assume own: "ip_address s = own" and "bnd (lookup_route (rreq_dest_ip m)) (\<lambda>p. bnd (?test p) (?go p)) s = Inr (v, t)"
  then obtain p b u where p: "p = routes s (slot_of (rreq_dest_ip m))"
    and test: "?test p s = Inr (b, u)" and go: "?go p b u = Inr (v, t)"
    by (auto simp only: bnd_Inr_iff lookup_route_def get_routing_entry_def find_entry_slot gets_def sum.inject prod.inject)
  have u: "u = s" and fresh: "b \<Longrightarrow> \<not> rreq_flag m RREQ_DEST_ONLY \<and> (\<exists>a e. p = Some a \<and> heap s a = Some e \<and>
      (rreq_flag m RREQ_UNKNOWN \<or> sint (rreq_dest_seq m) < sint (dest_seq e)))"
    using test by (auto simp: bnd_Inr_iff prog_simps deref_def split: if_splits option.splits
        dest!: own_route_fresher_value)
  show "ip_address t = own \<and> (\<exists>evs. events t = events s @ evs \<and> (\<forall>ev \<in> set evs. P ev))"
  proof (cases b)
    case True
    with fresh obtain a e where *: "\<not> rreq_flag m RREQ_DEST_ONLY" "p = Some a" "heap s a = Some e"
      "rreq_flag m RREQ_UNKNOWN \<or> sint (rreq_dest_seq m) < sint (dest_seq e)" by blast
    have "has_number (slot_of (rreq_dest_ip m)) a (dest_seq e) s" using p *(2,3) by (simp add: has_number_def)
    moreover have "send_rrep_intermediate m sender_ip s = Inr ((), t)"
      using go True u by (auto simp: sq_def bnd_Inr_iff prog_simps)
    ultimately show ?thesis using emits_fromD[OF reply[OF *(1,4), of a] _ own] by blast
  next
    case False
    with go u emitsD[OF pass own] show ?thesis by simp
  qed
qed

lemma emits_recv_rreq: "emits own (request_event own sender_ip m) (recv_rreq sender_ip m)"
  unfolding recv_rreq_def Let_def
  apply (rule emits_sq[OF emits_previous_hop[OF request_event_routes]], rule emits_own)
  apply (rule emits_if, rule emits_basic(1))
  apply (rule emits_bnd[OF emits_repeated], rule emits_if, rule emits_basic(1))
  apply (rule emits_bnd[OF emits_reverse_route[OF request_event_routes]], rule emits_if)
   apply (intro emits_rules emits_destination)
   apply (auto simp: request_event_def answers_def)[1]
  apply (rule emits_sq, rule emits_locks, rule emits_answer, rule emits_intermediate)
    apply (auto simp: request_event_def answers_for_def reply_for_def)[1]
   apply (auto simp: request_event_def announces_def reply_for_def)[1]
  apply (rule emits_rreq_forward)
  apply (auto simp: request_event_def relays_def increment_hop_rreq_def rreq_flag_def)
  done


lemma own_request: "returns (recv_rreq 0x0B000001 (sample_request\<lparr>rreq_dest_ip := 0x0A000001\<rparr>) sample_node)"
  by code_simp


section \<open>How far a request goes\<close>

text \<open>
  \<open>flood m0 ip0 k m ip\<close>: the request \<open>m0\<close> of the node \<open>ip0\<close> was passed on \<open>k\<close> times, each time by
  a node that got the bytes the last one broadcast, and \<open>m\<close> is what the node \<open>ip\<close> broadcast last.
\<close>

inductive flood :: "rreq_header \<Rightarrow> u32 \<Rightarrow> nat \<Rightarrow> rreq_header \<Rightarrow> u32 \<Rightarrow> bool"
  for m0 :: rreq_header and ip0 :: u32
where
  flood_sent: "flood m0 ip0 0 m0 ip0"
| flood_hop: "flood m0 ip0 k m ip \<Longrightarrow> reachable s \<Longrightarrow>
    incoming_control_message ip (encode_rreq m) s = Inr (v, s') \<Longrightarrow>
    Sent_broadcast (encode_rreq q) \<in> set (drop (length (events s)) (events s')) \<Longrightarrow>
    flood m0 ip0 (Suc k) q (ip_address s)"

definition carries :: "rreq_header \<Rightarrow> rreq_header \<Rightarrow> bool" where
  "carries m0 m \<longleftrightarrow> rreq_type m = rreq_type m0 \<and> rreq_flags m = rreq_flags m0 \<and>
     rreq_rreq_id m = rreq_rreq_id m0 \<and> rreq_dest_ip m = rreq_dest_ip m0 \<and>
     rreq_src_ip m = rreq_src_ip m0 \<and> rreq_src_seq m = rreq_src_seq m0 \<and>
     (rreq_flag m0 RREQ_UNKNOWN \<or> sint (rreq_dest_seq m0) \<le> sint (rreq_dest_seq m))"

lemma carries_relays: "carries m0 m \<Longrightarrow> relays m q \<Longrightarrow> carries m0 q"
  by (auto simp: carries_def relays_def rreq_flag_def)

lemma encode_rreq_inject: "encode_rreq p = encode_rreq q \<longleftrightarrow> p = q"
  by (metis rreq_fmt.decode_encode sum.inject(2))

lemma request_passed_on:
  assumes run: "incoming_control_message ip (encode_rreq m) s = Inr (v, s')"
    and sent: "Sent_broadcast (encode_rreq q) \<in> set (drop (length (events s)) (events s'))"
    and ty: "rreq_type m = RREQ_TYPE"
  shows "1 < rreq_ttl m \<and> relays m q \<and> ip_address s \<noteq> rreq_src_ip m \<and> ip_address s \<noteq> rreq_dest_ip m"
proof -
  have "ip \<noteq> ip_address s"
    using run sent incoming_control_encoded[of ip m "[]" s] by auto
  then have "recv_rreq ip m s = Inr (v, s')"
    using run ty incoming_control_encoded[of ip m "[]" s] by simp
  from emitsD[OF emits_recv_rreq refl this] obtain evs
    where "events s' = events s @ evs" "\<forall>ev \<in> set evs. request_event (ip_address s) ip m ev" by blast
  with sent have "request_event (ip_address s) ip m (Sent_broadcast (encode_rreq q))" by simp
  then show ?thesis by (auto simp: request_event_def encode_rreq_inject)
qed

text \<open>
  C11: A request is passed on fewer times than its hop limit says. On its way it counts its hops
  (modulo \<open>2 ^ 8\<close>), loses one hop of its limit each time, and keeps originator, destination, id
  and flags; the number it asks for never goes back; neither its originator nor its destination
  passes it on.
\<close>

theorem flood_bounded:
  assumes "flood m0 ip0 k m ip" and "rreq_type m0 = RREQ_TYPE"
  shows "k \<le> unat (rreq_ttl m0) - 1 \<and> unat (rreq_ttl m) = unat (rreq_ttl m0) - k \<and>
    rreq_hop_count m = rreq_hop_count m0 + of_nat k \<and> carries m0 m \<and>
    (k = 0 \<or> ip \<notin> {rreq_src_ip m0, rreq_dest_ip m0})"
  using assms
proof (induction rule: flood.induct)
  case flood_sent
  then show ?case by (simp add: carries_def)
next
  case (flood_hop k m ip s v s' q)
  then have IH: "k \<le> unat (rreq_ttl m0) - 1" "unat (rreq_ttl m) = unat (rreq_ttl m0) - k"
    "rreq_hop_count m = rreq_hop_count m0 + of_nat k" "carries m0 m" by blast+
  then have "rreq_type m = RREQ_TYPE" using flood_hop.prems by (simp add: carries_def)
  from request_passed_on[OF flood_hop.hyps(3,4) this]
  have q: "1 < rreq_ttl m" "relays m q" "ip_address s \<notin> {rreq_src_ip m, rreq_dest_ip m}" by auto
  have "1 < unat (rreq_ttl m)" using q(1) by (simp add: word_less_nat_alt)
  moreover have "unat (rreq_ttl m - 1) = unat (rreq_ttl m) - 1"
    by (rule unat_minus_one) (use q(1) in auto)
  then have "unat (rreq_ttl q) = unat (rreq_ttl m) - 1" using q(2) by (auto simp: relays_def)
  moreover have "rreq_hop_count q = rreq_hop_count m0 + of_nat (Suc k)"
    using q(2) IH(3) by (auto simp: relays_def)
  moreover have "carries m0 q" using IH(4) q(2) by (rule carries_relays)
  moreover have "rreq_src_ip m = rreq_src_ip m0" "rreq_dest_ip m = rreq_dest_ip m0"
    using IH(4) by (simp_all add: carries_def)
  ultimately show ?case using IH(1,2) q(3) by auto
qed

lemma sample_passed_on:
  "case incoming_control_message 0x0B000001 (encode_rreq sample_request) sample_node of Inl _ \<Rightarrow> False
   | Inr (v, s') \<Rightarrow> last (events s') =
       Sent_broadcast (encode_rreq (sample_request\<lparr>rreq_hop_count := 3, rreq_ttl := 4\<rparr>)) \<and> events s' \<noteq> []"
  by code_simp

theorem flood_bounded_witness:
  "flood sample_request 0x0B000001 1 (sample_request\<lparr>rreq_hop_count := 3, rreq_ttl := 4\<rparr>) 0x0A000001 \<and>
   carries sample_request (sample_request\<lparr>rreq_hop_count := 3, rreq_ttl := 4\<rparr>) \<and>
   1 \<le> unat (rreq_ttl sample_request) - 1"
proof -
  obtain v s' where run: "incoming_control_message 0x0B000001 (encode_rreq sample_request) sample_node = Inr (v, s')"
    and sent: "last (events s') =
       Sent_broadcast (encode_rreq (sample_request\<lparr>rreq_hop_count := 3, rreq_ttl := 4\<rparr>))" "events s' \<noteq> []"
    using sample_passed_on by (auto split: sum.splits)
  have node: "reachable sample_node" "events sample_node = []" "ip_address sample_node = 0x0A000001"
    using reachable_after[of "[]"] by (simp_all add: after_def prog_simps sample_node_def main_init_def)
  have "Sent_broadcast (encode_rreq (sample_request\<lparr>rreq_hop_count := 3, rreq_ttl := 4\<rparr>))
      \<in> set (drop (length (events sample_node)) (events s'))"
    using sent node(2) last_in_set by fastforce
  from flood_hop[OF flood_sent node(1) run this]
  have flood: "flood sample_request 0x0B000001 (Suc 0)
      (sample_request\<lparr>rreq_hop_count := 3, rreq_ttl := 4\<rparr>) 0x0A000001"
    by (simp only: node(3))
  with flood_bounded[OF flood] show ?thesis by (simp add: sample_request_def)
qed

section \<open>What a reply makes a node send\<close>

definition reply_event :: "u32 \<Rightarrow> rrep_header \<Rightarrow> event \<Rightarrow> bool" where
  "reply_event own m ev = (case ev of
       Sent_broadcast bs \<Rightarrow> False
     | Sent_unicast ip bs \<Rightarrow> rrep_src_ip m \<noteq> 0 \<and> rrep_src_ip m \<noteq> own \<and> bs = encode_rrep (increment_hop_rrep m)
     | _ \<Rightarrow> True)"

lemma reply_event_routes: "on_messages (reply_event own m)"
  by (simp add: on_messages_def reply_event_def)

lemma increment_hop_rrep_simps [simp]:
  "rrep_src_ip (increment_hop_rrep m) = rrep_src_ip m" "rrep_dest_ip (increment_hop_rrep m) = rrep_dest_ip m"
  by (simp_all add: increment_hop_rrep_def)

lemma emits_reply_parts:
  "emits own P (recv_rrep_stop_search m)"
  "on_messages P \<Longrightarrow> emits own P (recv_rrep_hello sender_ip m)"
  "on_messages P \<Longrightarrow> emits own P (recv_rrep_previous_hop sender_ip m)"
  "on_messages P \<Longrightarrow> emits own P (recv_rrep_forward_route sender_ip m)"
  unfolding recv_rrep_stop_search_def recv_rrep_hello_def recv_rrep_previous_hop_def
    recv_rrep_forward_route_def rrep_updates_def Let_def block.simps
  by (auto intro!: emits_rules emits_routes split: prod.splits)

lemma emits_rrep_forward:
  assumes "\<And>ip. own \<noteq> rrep_src_ip m \<Longrightarrow> P (Sent_unicast ip (encode_rrep m))"
  shows "emits own P (recv_rrep_forward p m)"
  unfolding recv_rrep_forward_def block.simps
  by (intro emits_rules emits_messages assms)

lemma emits_recv_rrep: "emits own (reply_event own m) (recv_rrep sender_ip m)"
  unfolding recv_rrep_def Let_def
  by (intro emits_reply_parts reply_event_routes emits_rrep_forward emits_rules) (auto simp: reply_event_def)

text \<open>
  What a node sends on a reply: nothing on a hello message, nothing as the originator of the
  search; on the way back to the originator only the reply itself with one hop more, and never as
  a broadcast.
\<close>

theorem rrep_sends:
  assumes "recv_rrep sender_ip m s = Inr (v, s')"
  shows "\<exists>evs. events s' = events s @ evs \<and> list_all (reply_event (ip_address s) m) evs"
  using emitsD[OF emits_recv_rrep refl assms] by (auto simp: list_all_iff)

theorem rrep_sends_witness:
  "case recv_rrep 0x0E000001 sample_reply heard of Inl _ \<Rightarrow> False
   | Inr (v, s') \<Rightarrow> (\<exists>evs. events s' = events heard @ evs \<and>
       list_all (reply_event (ip_address heard) sample_reply) evs)"
proof -
  obtain v s' where run: "recv_rrep 0x0E000001 sample_reply heard = Inr (v, s')"
    using returnsD[OF heard_reply] by blast
  with rrep_sends[OF run] show ?thesis by simp
qed

section \<open>The way of a reply\<close>

text \<open>
  \<open>trail m0 ip0 k m ip\<close>: the reply \<open>m0\<close> of the node \<open>ip0\<close> was passed on \<open>k\<close> times, and \<open>m\<close> is
  what the node \<open>ip\<close> sent last.
\<close>

inductive trail :: "rrep_header \<Rightarrow> u32 \<Rightarrow> nat \<Rightarrow> rrep_header \<Rightarrow> u32 \<Rightarrow> bool"
  for m0 :: rrep_header and ip0 :: u32
where
  trail_sent: "trail m0 ip0 0 m0 ip0"
| trail_hop: "trail m0 ip0 k m ip \<Longrightarrow> reachable s \<Longrightarrow>
    incoming_control_message ip (encode_rrep m) s = Inr (v, s') \<Longrightarrow>
    Sent_unicast hop (encode_rrep q) \<in> set (drop (length (events s)) (events s')) \<Longrightarrow>
    trail m0 ip0 (Suc k) q (ip_address s)"

lemma encode_rrep_inject: "encode_rrep p = encode_rrep q \<longleftrightarrow> p = q"
  by (metis rrep_fmt.decode_encode sum.inject(2))

lemma reply_received:
  assumes "incoming_control_message ip (encode_rrep m) s = Inr (v, s')" and "rrep_type m = RREP_TYPE"
  shows "if ip = ip_address s then s' = s else recv_rrep ip m s = Inr (v, s')"
  using assms incoming_control_encoded[of ip _ "[]" s m] by (auto simp: packet_types)

lemma reply_passed_on:
  assumes run: "incoming_control_message ip (encode_rrep m) s = Inr (v, s')"
    and sent: "Sent_unicast hop (encode_rrep q) \<in> set (drop (length (events s)) (events s'))"
    and ty: "rrep_type m = RREP_TYPE"
  shows "q = increment_hop_rrep m"
proof -
  have "recv_rrep ip m s = Inr (v, s')"
    using reply_received[OF run ty] sent by (auto split: if_splits)
  from emitsD[OF emits_recv_rrep refl this] obtain evs
    where "events s' = events s @ evs" "\<forall>ev \<in> set evs. reply_event (ip_address s) m ev" by blast
  with sent have "reply_event (ip_address s) m (Sent_unicast hop (encode_rrep q))" by simp
  then show ?thesis by (simp add: reply_event_def encode_rrep_inject)
qed

lemma trail_message:
  "trail m0 ip0 k m ip \<Longrightarrow> rrep_type m0 = RREP_TYPE \<Longrightarrow>
     m = m0\<lparr>rrep_hop_count := rrep_hop_count m0 + of_nat k\<rparr>"
proof (induction rule: trail.induct)
  case trail_sent
  then show ?case by simp
next
  case (trail_hop k m ip s v s' hop q)
  then have m: "m = m0\<lparr>rrep_hop_count := rrep_hop_count m0 + of_nat k\<rparr>" by blast
  then have "rrep_type m = RREP_TYPE" using trail_hop.prems by simp
  from reply_passed_on[OF trail_hop.hyps(3,4) this] m show ?case
    by (simp add: increment_hop_rrep_def add.assoc)
qed


lemma heard_reply_in: "returns (incoming_control_message 0x0E000001 (encode_rrep sample_reply) heard)"
  by code_simp


section \<open>The search of an entry\<close>

text \<open>
  \<open>search_at a P\<close>: the entry at \<open>a\<close> holds a search outcome and a request id that satisfy \<open>P\<close>;
  \<open>unheard i n\<close>: the entry in slot \<open>i\<close>, if there is one, does not hold the request id \<open>n\<close>, nor does
  memory that a new entry may get. \<open>keeps m\<close>: a run of \<open>m\<close> changes none of this.
\<close>

definition search_at :: "addr \<Rightarrow> (rreq_status \<Rightarrow> u32 \<Rightarrow> bool) \<Rightarrow> node \<Rightarrow> bool" where
  "search_at a P s \<longleftrightarrow> a < next_addr s \<and> (\<exists>e. heap s a = Some e \<and> P (rreq_search e) (rreq_id e))"

definition outcome_at :: "addr \<Rightarrow> rreq_status \<Rightarrow> node \<Rightarrow> bool" where
  "outcome_at a x = search_at a (\<lambda>outcome _. outcome = x)"

definition unheard :: "u8 \<Rightarrow> u32 \<Rightarrow> node \<Rightarrow> bool" where
  "unheard i n s \<longleftrightarrow> (\<forall>k. entry_junk (world s) k \<noteq> n) \<and>
     (\<forall>a e. routes s i = Some a \<longrightarrow> heap s a = Some e \<longrightarrow> rreq_id e \<noteq> n)"

definition keeps :: "(node, 'a) prog \<Rightarrow> bool" where
  "keeps m \<longleftrightarrow> (\<forall>a P. triple UNIV (search_at a P) m (\<lambda>_. search_at a P)) \<and>
     (\<forall>i n. triple UNIV (unheard i n) m (\<lambda>_. unheard i n))"

lemma keeps_basic:
  "keeps (ret x)" "keeps (gets g)" "keeps (fail f)" "keeps (deref p)" "keeps (lookup_route ip)"
  "keeps clock_gettime" "keeps (emit ev)" "keeps (pthread_cancel t)"
  "keeps (modify (\<lambda>s. s\<lparr>active_routes := k s\<rparr>))"
  "keeps (modify (\<lambda>s. s\<lparr>threads := h1 s, next_tid := h2 s\<rparr>))" "keeps (seq_compare x1 x2)"
  by (auto simp: keeps_def triple_def search_at_def unheard_def ret_def gets_def fail_def deref_def
      lookup_route_def clock_gettime_def emit_def modify_def pthread_cancel_def seq_compare_def Let_def
      split: sum.splits option.splits)

lemma keeps_write:
  assumes "\<And>e. rreq_search (f e) = rreq_search e" and "\<And>e. rreq_id (f e) = rreq_id e"
  shows "keeps (write_entry p f)"
  using assms by (auto simp: keeps_def triple_def search_at_def unheard_def write_entry_def split: option.splits)

lemma keeps_bnd: "keeps m \<Longrightarrow> (\<And>x. keeps (k x)) \<Longrightarrow> keeps (bnd m k)"
  unfolding keeps_def by (blast intro: triple_bnd)

lemma keeps_sq: "keeps m \<Longrightarrow> keeps n \<Longrightarrow> keeps (sq m n)"
  unfolding sq_def by (rule keeps_bnd)

lemma keeps_if: "(b \<Longrightarrow> keeps m) \<Longrightarrow> (\<not> b \<Longrightarrow> keeps n) \<Longrightarrow> keeps (if b then m else n)"
  by simp

lemma keeps_when: "keeps m \<Longrightarrow> keeps (when_p b m)"
  by (simp add: when_p_def keeps_basic(1))

lemmas keeps_rules = keeps_basic keeps_bnd keeps_sq keeps_if keeps_when

lemma keeps_locks: "keeps (mutex_lock p)" "keeps (mutex_unlock p)"
  unfolding mutex_lock_def mutex_unlock_def by (intro keeps_rules keeps_write; simp)+

lemma keeps_lists: "keeps (at_precursors p m)" "keeps (at_next_hop_for p m)"
  unfolding at_precursors_def at_next_hop_for_def
  by (auto intro!: keeps_rules keeps_write split: sum.splits)

lemma keeps_timer: "keeps (set_expiration_timer p ms)" "keeps (mark_active p)"
  unfolding set_expiration_timer_def mark_active_def pthread_create_def block.simps
  by (intro keeps_rules keeps_write; simp)+

lemma keeps_create: "keeps (create_or_get_routing_entry ip seq v hop hops timeout)"
  by (auto simp: keeps_def triple_def search_at_def unheard_def create_or_get_routing_entry_def lookup_route_def
      get_routing_entry_def find_entry_slot prog_simps clock_gettime_def malloc_entry_def add_routing_entry_def
      deref_def bnd_def split_def split: option.splits if_splits)

lemma keeps_api: "keeps (AddUnicastRoutingEntry d h)" "keeps (SendUnicast ip buf n)"
  unfolding AddUnicastRoutingEntry_def SendUnicast_def by (intro keeps_rules)+

lemmas keeps_more = keeps_locks keeps_lists keeps_timer keeps_create keeps_api

lemma keeps_reply:
  "keeps (recv_rrep_previous_hop sender_ip m)" "keeps (recv_rrep_forward_route sender_ip m)"
  "keeps (recv_rrep_forward p m)"
  unfolding recv_rrep_previous_hop_def recv_rrep_forward_route_def recv_rrep_forward_def rrep_updates_def block.simps
  by (auto intro!: keeps_rules keeps_more keeps_write split: prod.splits)

lemma reply_keeps_outcome:
  assumes "recv_rrep_stop_search m s = Inr ((), t)" and "recv_rrep sender_ip m s = Inr (v, s')"
    and "rrep_src_ip m \<noteq> 0" and "outcome_at a x t"
  shows "outcome_at a x s'"
proof -
  let ?rest = "sq (recv_rrep_previous_hop sender_ip m) (let m = increment_hop_rrep m in
     bnd (recv_rrep_forward_route sender_ip m) (\<lambda>destination.
     sq (recv_rrep_forward destination m) (sq (mutex_unlock destination) (ret LOGGING))))"
  have "keeps ?rest" unfolding Let_def by (intro keeps_reply keeps_rules keeps_more)
  moreover have "?rest t = Inr (v, s')"
    using assms(1-3) by (simp add: recv_rrep_def prog_simps)
  ultimately show ?thesis using assms(4) unfolding keeps_def outcome_at_def by (blast dest: triple_result)
qed

section \<open>Discovering a neighbour\<close>

lemma same_requestD:
  assumes "same_request m q"
  shows "rreq_type q = rreq_type m" "rreq_flags q = rreq_flags m" "rreq_dest_ip q = rreq_dest_ip m"
    "rreq_dest_seq q = rreq_dest_seq m" "rreq_src_ip q = rreq_src_ip m" "rreq_hop_count q = rreq_hop_count m"
  using assms unfolding same_request_def by (cases q; cases m; simp)+

lemma emits_ring:
  "emits own (\<lambda>ev. \<exists>q. same_request m q \<and> ev = Sent_broadcast (encode_rreq q)) (rreq_ring t a m ttl)"
proof -
  have net: "(0 :: u32) \<le> RREQ_RETRIES" by simp
  show ?thesis
    unfolding rreq_ring_def rreq_net_def if_P[OF net] Let_def block.simps
    by (intro emits_rules emits_messages exI conjI refl) (simp_all add: same_request_def)
qed

lemma ring_preserves: "preserves (rreq_ring t a m ttl)"
proof -
  have net: "(0 :: u32) \<le> RREQ_RETRIES" by simp
  show ?thesis
    unfolding rreq_ring_def rreq_net_def if_P[OF net] Let_def block.simps
    by (intro preserves_rules)
qed

text \<open>The first run of a searching thread sends the request and changes no route.\<close>

lemma search_first_run:
  assumes ok: "ok {} {} s" and t: "threads s t = Some (Rreq_sender a)" and e: "heap s a = Some e"
    and run: "exec (Run t) s = Inr ((), s')"
  shows "ip_address s' = ip_address s \<and> within (slot_of (dest_ip e)) a ((=) (route_of e)) s' \<and>
    (\<forall>bs. Sent_broadcast bs \<in> set (drop (length (events s)) (events s')) \<longrightarrow>
       (\<exists>q. bs = encode_rreq q \<and> same_request (search_request s e) q))"
proof -
  let ?s1 = "s\<lparr>sequence_num := (sequence_num s)\<lparr>number := number (sequence_num s) + 1\<rparr>,
    heap := (heap s)(a \<mapsto> e\<lparr>entry_mutex := False\<rparr>)\<rparr>"
  let ?ring = "rreq_ring t a (search_request s e) (if hop_count e = 0 then 1 else hop_count e + 2)"
  have m: "\<not> entry_mutex e" using ok e by (auto simp: ok_def held_def)
  have ring: "?ring ?s1 = Inr ((), s')" using run search_start[OF t e m ok] by simp
  have ip: "ip_address ?s1 = ip_address s" by simp
  from emitsD[OF emits_ring ip ring] obtain evs where evs: "ip_address s' = ip_address s"
    "events s' = events s @ evs"
    "\<forall>ev \<in> set evs. \<exists>q. same_request (search_request s e) q \<and> ev = Sent_broadcast (encode_rreq q)" by auto
  have inv: "node_inv s" using ok by (simp add: ok_iff)
  then have "routes s (slot_of (dest_ip e)) = Some a" using e by (auto simp: node_inv_def table_inv_def)
  from within_old[OF inv this] have "within (slot_of (dest_ip e)) a ((=) (route_of e)) ?s1"
    using e by (auto simp: within_def route_of_def)
  from triple_result[OF preservesD[OF ring_preserves] this ring]
  show ?thesis using evs by auto
qed

lemma direct_route_usable:
  assumes "route_at s (slot_of ip) = Some r" and "r_status r = ROUTE_VALID" and "r_seq_valid r = SEQ_VALID"
    and "r_next_hop r = r_dest_ip r"
  shows "usable_at s ip"
  using assms by (auto simp: route_at_def usable_at_def get_routing_entry_def find_entry_slot split: option.splits)

text \<open>A reply with a number that is not behind the one known makes the route over its sender.\<close>

lemma reply_installs:
  assumes inv: "ok {} {} s" and r: "route_at s (slot_of (rrep_dest_ip h)) = Some r"
    and own: "rrep_src_ip h = ip_address s" "ip_address s \<noteq> 0"
    and seq: "r_seq_valid r = SEQ_INVALID \<or> sint (r_dest_seq r) \<le> sint (rrep_dest_seq h)"
    and run: "recv_rrep sender_ip h s = Inr (v, s')"
  shows "\<exists>r'. route_at s' (slot_of (rrep_dest_ip h)) = Some r' \<and> r_status r' = ROUTE_VALID \<and>
    r_seq_valid r' = SEQ_VALID \<and> r_next_hop r' = sender_ip \<and> r_dest_ip r' = r_dest_ip r"
proof -
  have "node_inv s" using inv by (simp add: ok_iff)
  from recv_rrep_destination[OF this _ r run] own seq show ?thesis by (auto simp: rrep_route_def increment_hop_rrep_def)
qed

lemma reply_finds:
  assumes inv: "ok {} {} s" and a: "get_routing_entry (routes s) (rrep_dest_ip h) = Some a"
    and own: "rrep_src_ip h = ip_address s" "ip_address s \<noteq> 0"
    and run: "recv_rrep sender_ip h s = Inr (v, s')"
  shows "outcome_at a SEARCH_FOUND s'"
proof -
  have tab: "\<exists>e. heap s a = Some e" "\<And>e. heap s a = Some e \<Longrightarrow> a < next_addr s"
    using inv a unfolding ok_def node_inv_def table_inv_def get_routing_entry_def find_entry_slot by blast+
  then obtain e where e: "heap s a = Some e" by blast
  then have "\<not> entry_mutex e" using inv by (auto simp: ok_def held_def)
  from reply_stops_search[OF own(1) a e this] run own(2) tab(2)[OF e] show ?thesis
    by (elim reply_keeps_outcome) (simp_all add: own outcome_at_def search_at_def)
qed

text \<open>A destination that answers a request has a valid route to its originator.\<close>

lemma answer_has_route:
  assumes s: "reachable s" and own: "rreq_dest_ip m = ip_address s" "rreq_src_ip m \<noteq> ip_address s"
    and run: "recv_rreq sender_ip m s = Inr (v, s')"
    and sent: "Sent_unicast ip bs \<in> set (drop (length (events s)) (events s'))"
  shows "(\<exists>h. bs = encode_rrep h \<and> answers (ip_address s) m h) \<and>
    (\<exists>r. route_at s' (slot_of (rreq_src_ip m)) = Some r \<and> reverse_route_ok (increment_hop_rreq m) r)"
proof -
  let ?silent = "\<lambda>ev. \<nexists>ip bs. ev = Sent_unicast ip bs"
  have silent: "on_messages ?silent" by (simp add: on_messages_def)
  have "recv_rreq_previous_hop sender_ip m s \<noteq> Inr ((), s')"
  proof
    assume "recv_rreq_previous_hop sender_ip m s = Inr ((), s')"
    from emitsD[OF emits_previous_hop[OF silent] refl this] sent show False by fastforce
  qed
  then have "\<exists>r. route_at s' (slot_of (rreq_src_ip m)) = Some r \<and> reverse_route_ok (increment_hop_rreq m) r"
    using recv_rreq_installs[OF s own(2) run] by blast
  moreover from emitsD[OF emits_recv_rreq refl run] sent
  have "request_event (ip_address s) sender_ip m (Sent_unicast ip bs)" by auto
  ultimately show ?thesis using own(1) by (simp add: request_event_def)
qed

text \<open>
  C5: A search for a neighbour, from one node to the other and back. Node \<open>a\<close> has just started to
  search for the node \<open>b\<close>, and both may have any routes already. If \<open>b\<close> answers the bytes that
  \<open>a\<close> broadcasts, and \<open>a\<close> gets the bytes of the answer next, then \<open>a\<close> has a usable route to \<open>b\<close>
  and its search has succeeded, and \<open>b\<close> has a valid route back.
\<close>

theorem neighbour_discovery:
  assumes a: "reach node_init quiet_step a" and b: "reachable b"
    and ips: "ip_address a \<noteq> ip_address b" "ip_address a \<noteq> 0"
    and search: "threads a t = Some (Rreq_sender p)" "heap a p = Some e" "dest_ip e = ip_address b"
    and request: "exec (Run t) a = Inr ((), a1)" "Sent_broadcast bs \<in> set (drop (length (events a)) (events a1))"
    and at_b: "incoming_control_message (ip_address a) bs b = Inr (v, b')"
    and reply: "Sent_unicast (ip_address a) rs \<in> set (drop (length (events b)) (events b'))"
    and at_a: "incoming_control_message (ip_address b) rs a1 = Inr (w, a')"
  shows "usable_at a' (ip_address b) \<and> outcome_at p SEARCH_FOUND a' \<and>
    (\<exists>r. route_at b' (slot_of (ip_address a)) = Some r \<and> r_status r = ROUTE_VALID \<and> r_seq_valid r = SEQ_VALID)"
proof -
  have ok: "ok {} {} a" using a by (rule quiet_sys.reach_inv)
  have ok1: "ok {} {} a1" by (rule quiet_step_inv[OF ok, of "Run t"]) (use request(1) in \<open>simp add: quiet_step_iff\<close>)
  from search_first_run[OF ok search(1,2) request(1)] request(2) search(3)
  obtain q where first: "ip_address a1 = ip_address a" "within (slot_of (ip_address b)) p ((=) (route_of e)) a1"
    and q: "bs = encode_rreq q" "same_request (search_request a e) q" by auto
  note fields = same_requestD[OF q(2)]
  have unknown: "rreq_flag q RREQ_UNKNOWN \<longleftrightarrow> seq_valid e = SEQ_INVALID"
    and q_seq: "seq_valid e \<noteq> SEQ_INVALID \<Longrightarrow> rreq_dest_seq q = dest_seq e"
    and q_ips: "rreq_dest_ip q = ip_address b" "rreq_src_ip q = ip_address a" "rreq_type q = RREQ_TYPE"
    using fields search(3)
    by (simp_all add: search_request_def Let_def generate_rreq_message_def rreq_flag_def rreq_flag_defs)
  have b_run: "recv_rreq (ip_address a) q b = Inr (v, b')"
    using at_b q(1) q_ips(3) ips(1) incoming_control_encoded[of "ip_address a" q "[]" b] by simp
  have q_own: "rreq_dest_ip q = ip_address b" "rreq_src_ip q \<noteq> ip_address b" using q_ips ips by simp_all
  from answer_has_route[OF b q_own b_run reply]
  obtain h r where h: "rs = encode_rrep h" "answers (ip_address b) q h"
    and reverse: "route_at b' (slot_of (ip_address a)) = Some r" "reverse_route_ok (increment_hop_rreq q) r"
    using q_ips by auto
  have a_run: "recv_rrep (ip_address b) h a1 = Inr (w, a')"
    using at_a h ips(1) first(1) incoming_control_encoded[of "ip_address b" _ "[]" a1 h]
    by (simp add: answers_def packet_types)
  have h_ips: "rrep_dest_ip h = ip_address b" "rrep_src_ip h = ip_address a1" "ip_address a1 \<noteq> 0"
    using h(2) q_ips first(1) ips(2) by (simp_all add: answers_def)
  have known: "route_at a1 (slot_of (rrep_dest_ip h)) = Some (route_of e)"
    using within_route_at[OF first(2)] h_ips by auto
  have "r_seq_valid (route_of e) = SEQ_INVALID \<or> sint (r_dest_seq (route_of e)) \<le> sint (rrep_dest_seq h)"
    using h(2) unknown q_seq by (auto simp: answers_def)
  from reply_installs[OF ok1 known h_ips(2,3) this a_run] search(3)
  obtain r' where "route_at a' (slot_of (ip_address b)) = Some r'" "r_status r' = ROUTE_VALID"
    "r_seq_valid r' = SEQ_VALID" "r_next_hop r' = r_dest_ip r'" using h_ips(1) by auto
  then have "usable_at a' (ip_address b)" by (rule direct_route_usable)
  moreover have "get_routing_entry (routes a1) (rrep_dest_ip h) = Some p"
    using first(2) h_ips(1) by (simp add: within_def only_slot_def get_routing_entry_def find_entry_slot)
  then have "outcome_at p SEARCH_FOUND a'" by (rule reply_finds[OF ok1 _ h_ips(2,3) a_run])
  ultimately show ?thesis using reverse by (auto simp: reverse_route_ok_def)
qed

lemma case_results:
  "(case r of Inl _ \<Rightarrow> False | Inr (x, s) \<Rightarrow> P x s) \<Longrightarrow> \<exists>x s. r = Inr (x, s) \<and> P x s"
  by (auto split: sum.splits)

lemma case_events:
  "(case ev of Sent_broadcast bs \<Rightarrow> Q bs | _ \<Rightarrow> False) \<Longrightarrow> \<exists>bs. ev = Sent_broadcast bs \<and> Q bs"
  "(case ev of Sent_unicast ip bs \<Rightarrow> R ip bs | _ \<Rightarrow> False) \<Longrightarrow> \<exists>ip bs. ev = Sent_unicast ip bs \<and> R ip bs"
  by (cases ev; simp)+

definition neighbour :: node where
  "neighbour = main_init 0x0B000001 0x0AFFFFFF sample_world"

lemma neighbour_run:
  "case exec (Run 2) (after [Data_out 0x0B000001]) of Inl _ \<Rightarrow> False | Inr (_, a1) \<Rightarrow>
     events a1 \<noteq> [] \<and> (case last (events a1) of Sent_broadcast bs \<Rightarrow>
       (case incoming_control_message 0x0A000001 bs neighbour of Inl _ \<Rightarrow> False | Inr (_, b') \<Rightarrow>
          events b' \<noteq> [] \<and> (case last (events b') of Sent_unicast ip rs \<Rightarrow>
            ip = 0x0A000001 \<and> returns (incoming_control_message 0x0B000001 rs a1) | _ \<Rightarrow> False))
     | _ \<Rightarrow> False)"
  by code_simp

lemma neighbour_start:
  "events (after [Data_out 0x0B000001]) = [] \<and> ip_address (after [Data_out 0x0B000001]) = 0x0A000001 \<and>
   (case heap (after [Data_out 0x0B000001]) 0 of Some e \<Rightarrow> dest_ip e = 0x0B000001 | None \<Rightarrow> False)"
  by code_simp

theorem neighbour_discovery_witness:
  "\<exists>a1 bs v b' rs w a'. exec (Run 2) (after [Data_out 0x0B000001]) = Inr ((), a1) \<and>
     incoming_control_message 0x0A000001 bs neighbour = Inr (v, b') \<and>
     incoming_control_message 0x0B000001 rs a1 = Inr (w, a') \<and>
     usable_at a' 0x0B000001 \<and> outcome_at 0 SEARCH_FOUND a'"
proof -
  let ?a = "after [Data_out 0x0B000001]"
  obtain x a1 where a1: "exec (Run 2) ?a = Inr (x, a1)" "events a1 \<noteq> []"
      "case last (events a1) of Sent_broadcast bs \<Rightarrow>
         (case incoming_control_message 0x0A000001 bs neighbour of Inl _ \<Rightarrow> False | Inr (_, b') \<Rightarrow>
            events b' \<noteq> [] \<and> (case last (events b') of Sent_unicast ip rs \<Rightarrow>
              ip = 0x0A000001 \<and> returns (incoming_control_message 0x0B000001 rs a1) | _ \<Rightarrow> False))
       | _ \<Rightarrow> False"
    using case_results[OF neighbour_run] by blast
  from case_events(1)[OF a1(3)] obtain bs where bs: "last (events a1) = Sent_broadcast bs"
      "case incoming_control_message 0x0A000001 bs neighbour of Inl _ \<Rightarrow> False | Inr (_, b') \<Rightarrow>
         events b' \<noteq> [] \<and> (case last (events b') of Sent_unicast ip rs \<Rightarrow>
           ip = 0x0A000001 \<and> returns (incoming_control_message 0x0B000001 rs a1) | _ \<Rightarrow> False)" by blast
  from case_results[OF bs(2)] obtain v b' where
    b': "incoming_control_message 0x0A000001 bs neighbour = Inr (v, b')" "events b' \<noteq> []"
      "case last (events b') of Sent_unicast ip rs \<Rightarrow>
         ip = 0x0A000001 \<and> returns (incoming_control_message 0x0B000001 rs a1) | _ \<Rightarrow> False" by blast
  from case_events(2)[OF b'(3)] obtain rs where rs: "last (events b') = Sent_unicast 0x0A000001 rs"
    "returns (incoming_control_message 0x0B000001 rs a1)" by blast
  from returnsD[OF rs(2)] obtain w a' where "incoming_control_message 0x0B000001 rs a1 = Inr (w, a')" by blast
  with a1(1,2) bs(1) b'(1,2) rs(1) have run: "exec (Run 2) ?a = Inr ((), a1)" "events a1 \<noteq> []"
      "last (events a1) = Sent_broadcast bs" "incoming_control_message 0x0A000001 bs neighbour = Inr (v, b')"
      "events b' \<noteq> []" "last (events b') = Sent_unicast 0x0A000001 rs"
      "incoming_control_message 0x0B000001 rs a1 = Inr (w, a')" by simp_all
  have quiet: "reach node_init quiet_step ?a" by (rule after_quiet) simp
  have "reachable neighbour" unfolding neighbour_def by (intro reachableI node_initI)
  moreover have "ip_address neighbour = 0x0B000001" "events neighbour = []"
    by (simp_all add: neighbour_def main_init_def)
  ultimately have nb: "reachable neighbour" "ip_address neighbour = 0x0B000001" "events neighbour = []" by simp_all
  obtain e where e: "heap ?a 0 = Some e" "dest_ip e = ip_address neighbour"
    using neighbour_start nb(2) by (auto split: option.splits)
  have t: "threads ?a 2 = Some (Rreq_sender 0)"
    using searching_node(1) by (auto split: option.splits thread.splits)
  have own: "ip_address ?a = 0x0A000001" "events ?a = []" using neighbour_start by simp_all
  have sent: "Sent_broadcast bs \<in> set (drop (length (events ?a)) (events a1))"
    "Sent_unicast (ip_address ?a) rs \<in> set (drop (length (events neighbour)) (events b'))"
    using run(2,3,5,6) own nb(3) last_in_set by fastforce+
  have ne: "ip_address ?a \<noteq> ip_address neighbour" "ip_address ?a \<noteq> 0" using own nb(2) by simp_all
  from neighbour_discovery[OF quiet nb(1) ne t e run(1) sent(1) _ sent(2)] run own nb(2)
  show ?thesis by metis
qed

end
