(* ===== verification/Network.thy ===== *)
theory Network
  imports Message_Flow
begin

text \<open>
  A network of nodes while requests flood it: any number of requests, in any order, each delivered to
  any node any number of times or not at all. What a node does with a request is what its own
  callback does; the routes back to the originators are the network's. They never form a loop.
\<close>

section \<open>What a request does to the route in a slot\<close>

text \<open>
  \<open>perhaps i R\<close>: the route in slot \<open>i\<close>, if there is one, satisfies \<open>R\<close>. For a program that makes no
  entry in the slot this is what \<open>within\<close> says, so that the triples on \<open>within\<close> carry over.
\<close>

definition perhaps :: "u8 \<Rightarrow> (route \<Rightarrow> bool) \<Rightarrow> node \<Rightarrow> bool" where
  "perhaps i R s \<longleftrightarrow> (\<forall>a. routes s i = Some a \<longrightarrow> within i a R s)"

definition makes_none :: "u8 \<Rightarrow> (node, 'a) prog \<Rightarrow> bool" where
  "makes_none i m \<longleftrightarrow> (\<forall>s x s'. m s = Inr (x, s') \<longrightarrow> routes s i = None \<longrightarrow> routes s' i = None)"

lemma within_perhaps: "within i a R s \<Longrightarrow> perhaps i R s"
  by (auto simp: perhaps_def within_def only_slot_def)

lemma perhaps_mono: "perhaps i R s \<Longrightarrow> (\<And>r. R r \<Longrightarrow> R' r) \<Longrightarrow> perhaps i R' s"
  by (force simp: perhaps_def within_def)

lemma perhaps_route_at: "node_inv s \<Longrightarrow> perhaps i R s \<longleftrightarrow> (\<forall>r. route_at s i = Some r \<longrightarrow> R r)"
  using within_old by (fastforce simp: perhaps_def route_at_def within_def split: option.splits)

lemma perhaps_run:
  assumes "perhaps i R s" and run: "m s = Inr (x, s')"
    and "\<And>a. triple UNIV (within i a R) m (\<lambda>_. within i a R)" and "routes s i = None \<Longrightarrow> perhaps i R s'"
  shows "perhaps i R s'"
proof (cases "routes s i")
  case (Some a)
  with assms(1) have "within i a R s" by (simp add: perhaps_def)
  from triple_result[OF assms(3) this run] show ?thesis by (rule within_perhaps)
qed (fact assms(4))

lemma perhaps_keeps:
  assumes "perhaps i R s" and "m s = Inr (x, s')"
    and "\<And>a. triple UNIV (within i a R) m (\<lambda>_. within i a R)" and "makes_none i m"
  shows "perhaps i R s'"
  using assms(1,2,3) by (rule perhaps_run) (use assms(2,4) in \<open>simp add: makes_none_def perhaps_def\<close>)

lemma makes_none_basic:
  "makes_none i (ret x)" "makes_none i (gets g)" "makes_none i (fail f)" "makes_none i (deref p)"
  "makes_none i (write_entry p f')" "makes_none i (lookup_route ip)" "makes_none i clock_gettime"
  "makes_none i (pthread_cancel t)" "makes_none i (set_thread t th)" "makes_none i (emit ev)"
  "makes_none i (modify (\<lambda>s. s\<lparr>active_routes := k s\<rparr>))"
  "makes_none i (modify (\<lambda>s. s\<lparr>threads := h1 s, next_tid := h2 s\<rparr>))"
  "makes_none i (on_sequence_num n)" "makes_none i (on_rreq_ids n')" "makes_none i (seq_compare x1 x2)"
  by (auto simp: makes_none_def ret_def gets_def fail_def deref_def write_entry_def lookup_route_def
      clock_gettime_def modify_def pthread_cancel_def set_thread_def emit_def on_sequence_num_def
      on_rreq_ids_def zoom_def seq_compare_def Let_def split: option.splits sum.splits if_splits)

lemma makes_none_bnd: "makes_none i m \<Longrightarrow> (\<And>x. makes_none i (k x)) \<Longrightarrow> makes_none i (bnd m k)"
  unfolding makes_none_def bnd_Inr_iff by blast

lemma makes_none_sq: "makes_none i m \<Longrightarrow> makes_none i n \<Longrightarrow> makes_none i (sq m n)"
  unfolding sq_def by (rule makes_none_bnd)

lemma makes_none_if: "(b \<Longrightarrow> makes_none i m) \<Longrightarrow> (\<not> b \<Longrightarrow> makes_none i n) \<Longrightarrow> makes_none i (if b then m else n)"
  by simp

lemma makes_none_when: "makes_none i m \<Longrightarrow> makes_none i (when_p b m)"
  by (cases b) (simp_all add: makes_none_basic(1))

lemma makes_none_create:
  "slot_of ip \<noteq> i \<Longrightarrow> makes_none i (create_or_get_routing_entry ip seq v hop hops timeout)"
  by (auto simp: makes_none_def create_or_get_routing_entry_def lookup_route_def get_routing_entry_def
      find_entry_slot prog_simps clock_gettime_def malloc_entry_def add_routing_entry_def deref_def
      bnd_def split_def split: option.splits if_splits)

lemmas makes_none_rules = makes_none_basic makes_none_sq makes_none_if makes_none_when makes_none_bnd

lemma makes_none_more:
  "makes_none i (mutex_lock p)" "makes_none i (mutex_unlock p)"
  "makes_none i (at_precursors p m)" "makes_none i (at_next_hop_for p m)"
  "makes_none i (set_expiration_timer p ms)" "makes_none i (start_rreq_timer p)" "makes_none i (mark_active p)"
  "makes_none i (AddUnicastRoutingEntry d h)" "makes_none i (SendUnicast d buf n)"
  "makes_none i (SendBroadcast buf n)" "makes_none i (new_rrep flags prefix dest seq origin life)"
  "makes_none i (recv_rreq_repeated q)" "makes_none i (own_route_fresher q e)"
  unfolding mutex_lock_def mutex_unlock_def at_precursors_def at_next_hop_for_def set_expiration_timer_def
    start_rreq_timer_def mark_active_def pthread_create_def AddUnicastRoutingEntry_def SendUnicast_def
    SendBroadcast_def new_rrep_def recv_rreq_repeated_def own_route_fresher_def block.simps
  by (auto intro!: makes_none_rules split: sum.splits)

lemma makes_none_request:
  "slot_of sender_ip \<noteq> i \<Longrightarrow> makes_none i (recv_rreq_previous_hop sender_ip m)"
  "slot_of (rreq_src_ip m) \<noteq> i \<Longrightarrow> makes_none i (recv_rreq_reverse_route sender_ip m)"
  "makes_none i (send_rrep_destination m sender_ip)" "makes_none i (send_rrep_intermediate m sender_ip)"
  "makes_none i (recv_rreq_forward p m)"
  unfolding recv_rreq_previous_hop_def recv_rreq_reverse_route_def send_rrep_destination_def
    send_rrep_intermediate_def recv_rreq_forward_def Let_def block.simps
  by (auto intro!: makes_none_rules makes_none_more makes_none_create split: prod.splits)

text \<open>The routes a request makes where there was none.\<close>

definition hop_route :: "u32 \<Rightarrow> route" where
  "hop_route ip = \<lparr>r_dest_ip = ip, r_dest_seq = 0, r_seq_valid = SEQ_INVALID, r_next_hop = ip,
     r_hop_count = 0, r_status = ROUTE_VALID\<rparr>"

definition back_route :: "u32 \<Rightarrow> rreq_header \<Rightarrow> route" where
  "back_route ip m = \<lparr>r_dest_ip = rreq_src_ip m, r_dest_seq = rreq_src_seq m, r_seq_valid = SEQ_VALID,
     r_next_hop = ip, r_hop_count = ucast (rreq_hop_count m), r_status = ROUTE_VALID\<rparr>"

lemma previous_hop_new:
  assumes inv: "node_inv s" and empty: "routes s (slot_of sender_ip) = None"
    and run: "recv_rreq_previous_hop sender_ip m s = Inr ((), s')"
  shows "perhaps (slot_of sender_ip) ((=) (hop_route sender_ip)) s'"
  apply (rule create_empty_run[OF inv empty _ run[unfolded recv_rreq_previous_hop_def block.simps]])
  apply (simp only: prod.case)
  subgoal for a
    apply (rule triple_post[where Q' = "\<lambda>_. within (slot_of sender_ip) a ((=) (hop_route sender_ip))"])
     apply (rule triple_sq[OF preservesD[OF preserves_lock(1)]])
     apply (rule triple_sq[OF triple_write_route[where R' = "(=) (hop_route sender_ip)"]])
      apply (drule sym, simp add: hop_route_def)
     apply (rule preservesD)
     apply (intro preserves_rules preserves_write; simp add: route_of_def)
    by (erule within_perhaps)
  done

lemma reverse_route_new:
  assumes inv: "node_inv s" and empty: "routes s (slot_of (rreq_src_ip m)) = None"
    and run: "recv_rreq_reverse_route sender_ip m s = Inr (p, s')"
  shows "perhaps (slot_of (rreq_src_ip m)) ((=) (back_route sender_ip m)) s'"
  apply (rule create_empty_run[OF inv empty _ run[unfolded recv_rreq_reverse_route_def Let_def]])
  apply (simp only: prod.case simp_thms if_False one_neq_zero)
  apply (rule triple_post[OF recv_rreq_reverse_route_new[where R' = "(=) (back_route sender_ip m)",
      OF _ recv_rreq_reverse_route_end]])
   apply (drule sym, simp add: back_route_def)
  by (auto intro: within_perhaps)

lemma makes_none_rest: "makes_none i (request_rest own_ip sender_ip m p)"
  unfolding request_rest_def by (intro makes_none_rules makes_none_more makes_none_request)

text \<open>What a request leaves in a slot, for a network address other than the node's own.\<close>

lemma previous_hop_perhaps:
  assumes inv: "node_inv s" and run: "recv_rreq_previous_hop sender_ip m s = Inr (x, s')" and s: "perhaps i R s"
    and hop: "i = slot_of sender_ip \<Longrightarrow> keeps_validated R \<and> R (hop_route sender_ip)"
  shows "perhaps i R s'"
  using s run
proof (rule perhaps_run)
  show "triple UNIV (within i a R) (recv_rreq_previous_hop sender_ip m) (\<lambda>_. within i a R)" for a
    by (rule recv_rreq_previous_hop_route) (use hop in blast)
  assume none: "routes s i = None"
  show "perhaps i R s'"
  proof (cases "i = slot_of sender_ip")
    case True
    with previous_hop_new[OF inv] none run have "perhaps i ((=) (hop_route sender_ip)) s'" by simp
    then show ?thesis by (rule perhaps_mono) (use hop True in auto)
  next
    case False
    then have "makes_none i (recv_rreq_previous_hop sender_ip m)" by (auto intro: makes_none_request)
    with run none show ?thesis by (auto simp: makes_none_def perhaps_def)
  qed
qed

lemma reverse_route_perhaps:
  assumes inv: "node_inv s" and run: "recv_rreq_reverse_route sender_ip m s = Inr (x, s')" and s: "perhaps i R s"
    and new: "i = slot_of (rreq_src_ip m) \<Longrightarrow> R (back_route sender_ip m) \<and> (\<forall>r. R r \<longrightarrow> R (rreq_route sender_ip m r))"
  shows "perhaps i R s'"
  using s run
proof (rule perhaps_run)
  show "triple UNIV (within i a R) (recv_rreq_reverse_route sender_ip m) (\<lambda>_. within i a R)" for a
  proof (cases "i = slot_of (rreq_src_ip m)")
    case True
    then show ?thesis
      by (intro triple_post[OF recv_rreq_reverse_route_same[where R' = R]]) (use new in blast)+
  qed (rule recv_rreq_reverse_route_other)
  assume none: "routes s i = None"
  show "perhaps i R s'"
  proof (cases "i = slot_of (rreq_src_ip m)")
    case True
    with reverse_route_new[OF inv] none run have "perhaps i ((=) (back_route sender_ip m)) s'" by simp
    then show ?thesis by (rule perhaps_mono) (use new True in auto)
  next
    case False
    then have "makes_none i (recv_rreq_reverse_route sender_ip m)" by (auto intro: makes_none_request)
    with run none show ?thesis by (auto simp: makes_none_def perhaps_def)
  qed
qed

lemma recv_rreq_perhaps:
  assumes s: "reachable s" "perhaps i R s" and run: "recv_rreq sender_ip m s = Inr (v, s')"
    and hop: "i = slot_of sender_ip \<Longrightarrow> keeps_validated R \<and> R (hop_route sender_ip)"
    and new: "i = slot_of (rreq_src_ip m) \<Longrightarrow> rreq_src_ip m \<noteq> ip_address s \<Longrightarrow>
      R (back_route sender_ip (increment_hop_rreq m)) \<and> (\<forall>r. R r \<longrightarrow> R (rreq_route sender_ip (increment_hop_rreq m) r))"
  shows "perhaps i R s'"
  using run
proof (cases rule: recv_rreq_cases)
  case (3 s1 p s2)
  have "ok (held s) {} s1"
    by (rule triple_result[OF recv_rreq_previous_hop_ok[where F = UNIV] reachable_ok[OF s(1)] 3(1)]) simp
  then have inv: "node_inv s1" by (simp add: ok_iff)
  have "perhaps i R s1" by (rule previous_hop_perhaps[OF reachable_node_inv[OF s(1)] 3(1) s(2) hop])
  from reverse_route_perhaps[OF inv 3(4) this] have "perhaps i R s2" using new 3(2) by simp
  then show ?thesis using 3(5) preservesD[OF request_rest_route] makes_none_rest by (rule perhaps_keeps)
qed (auto intro: previous_hop_perhaps[OF reachable_node_inv[OF s(1)] _ s(2) hop])

section \<open>Long runs\<close>

text \<open>
  To evaluate a long run, the maps of a node are rewritten as tables after every action: they are the
  same maps.
\<close>

definition table_of :: "'a option list \<Rightarrow> nat \<Rightarrow> 'a option" where
  "table_of xs a = (if a < length xs then xs ! a else None)"

definition tidy :: "node \<Rightarrow> node" where
  "tidy s = s\<lparr>heap := table_of (map (heap s) [0..<next_addr s]),
     threads := table_of (map (threads s) [0..<next_tid s])\<rparr>"

lemma table_of_same: "(\<And>a x. f a = Some x \<Longrightarrow> a < n) \<Longrightarrow> table_of (map f [0..<n]) = f"
  by (rule ext) (metis (mono_tags, lifting) add_0 diff_zero length_map length_upt nth_map_upt
      option.exhaust table_of_def)

lemma tidy_same: "node_inv s \<Longrightarrow> tidy s = s"
  by (auto simp: tidy_def node_inv_def table_inv_def threads_inv_def intro!: node.equality table_of_same)

definition moved :: "action \<Rightarrow> node \<Rightarrow> node" where
  "moved act s = tidy (case exec act (tidy s) of Inl _ \<Rightarrow> s | Inr (_, s') \<Rightarrow> s')"

lemma moved_reachable:
  assumes "reachable s"
  shows "reachable (moved act s)"
proof -
  have "reachable (case exec act s of Inl _ \<Rightarrow> s | Inr (_, s') \<Rightarrow> s')"
    using assms reachableI(2)[OF assms, of act] by (auto simp: node_step_iff split: sum.split)
  then show ?thesis using tidy_same[OF reachable_node_inv] assms by (simp add: moved_def)
qed

section \<open>A network\<close>

text \<open>
  The nodes by their addresses, and what was ever broadcast, with its sender: a broadcast may be
  received by any node, at any time, any number of times.
\<close>

record net =
  members :: "u32 \<rightharpoonup> node"
  air :: "(u32 \<times> u8 list) set"

definition net_route :: "(u32 \<rightharpoonup> node) \<Rightarrow> u32 \<Rightarrow> u32 \<Rightarrow> route option" where
  "net_route ns i d = (case ns i of None \<Rightarrow> None | Some s \<Rightarrow> route_at s (slot_of d))"

definition same_way :: "route \<Rightarrow> route \<Rightarrow> bool" where
  "same_way r r' \<longleftrightarrow> r_dest_seq r' = r_dest_seq r \<and> r_seq_valid r' = r_seq_valid r \<and>
     r_next_hop r' = r_next_hop r \<and> r_hop_count r' = r_hop_count r"

definition same_ways :: "node \<Rightarrow> node \<Rightarrow> bool" where
  "same_ways s s' \<longleftrightarrow> (\<forall>i. rel_option same_way (route_at s i) (route_at s' i))"

definition broadcasts :: "node \<Rightarrow> node \<Rightarrow> u8 list set" where
  "broadcasts s s' = {bs. Sent_broadcast bs \<in> set (drop (length (events s)) (events s'))}"

text \<open>
  A network that requests flood. It begins with nodes that know no routes to each other; then a node
  sends a request of its own, with a hop limit that its hop count can reach, a node gets a message that was broadcast, or a node does anything
  else that leaves its routes the numbers, next hops and hop counts they have: it sends and forwards
  data, its timers run, its routes become invalid.
\<close>

inductive flooding :: "net \<Rightarrow> bool" where
  net_start: "inj_on slot_of (dom ns) \<Longrightarrow>
    (\<And>i s. ns i = Some s \<Longrightarrow> reachable s \<and> ip_address s = i \<and> (\<forall>d \<in> dom ns. routes s (slot_of d) = None)) \<Longrightarrow>
    flooding \<lparr>members = ns, air = {}\<rparr>"
| net_originate: "flooding N \<Longrightarrow> i \<in> dom (members N) \<Longrightarrow>
    rreq_type m = RREQ_TYPE \<Longrightarrow> rreq_src_ip m = i \<Longrightarrow> rreq_hop_count m = 0 \<Longrightarrow> rreq_ttl m < 256 \<Longrightarrow>
    flooding (N\<lparr>air := insert (i, encode_rreq m) (air N)\<rparr>)"
| net_deliver: "flooding N \<Longrightarrow> (src, bs) \<in> air N \<Longrightarrow> members N i = Some s \<Longrightarrow>
    exec (Control_in src bs) s = Inr ((), s') \<Longrightarrow>
    flooding \<lparr>members = (members N)(i \<mapsto> s'), air = air N \<union> {i} \<times> broadcasts s s'\<rparr>"
| net_local: "flooding N \<Longrightarrow> members N i = Some s \<Longrightarrow> exec act s = Inr ((), s') \<Longrightarrow> same_ways s s' \<Longrightarrow>
    flooding (N\<lparr>members := (members N)(i \<mapsto> s')\<rparr>)"

text \<open>
  \<open>better r q\<close>: the route \<open>q\<close> has a newer number than \<open>r\<close>, or the same and fewer hops. \<open>serves q m\<close>:
  it is as good as what the request \<open>m\<close> tells.
\<close>

definition better :: "route \<Rightarrow> route \<Rightarrow> bool" where
  "better r q \<longleftrightarrow> r_seq_valid q = SEQ_VALID \<and>
     (r_dest_seq r < r_dest_seq q \<or> r_dest_seq r = r_dest_seq q \<and> r_hop_count q < r_hop_count r)"

definition no_worse :: "route \<Rightarrow> route \<Rightarrow> bool" where
  "no_worse r q \<longleftrightarrow> r_seq_valid q = SEQ_VALID \<and>
     (r_dest_seq r < r_dest_seq q \<or> r_dest_seq r = r_dest_seq q \<and> r_hop_count q \<le> r_hop_count r)"

definition serves :: "route \<Rightarrow> rreq_header \<Rightarrow> bool" where
  "serves q m \<longleftrightarrow> r_seq_valid q = SEQ_VALID \<and> rreq_src_seq m \<le> r_dest_seq q \<and>
     (r_dest_seq q = rreq_src_seq m \<longrightarrow> r_hop_count q \<le> ucast (rreq_hop_count m))"

lemma better_trans: "better r q \<Longrightarrow> better q p \<Longrightarrow> better r p"
  by (auto simp: better_def)

lemma better_irrefl: "\<not> better r r"
  by (simp add: better_def)

lemma better_no_worse: "better r q \<Longrightarrow> no_worse q p \<Longrightarrow> better r p"
  by (auto simp: better_def no_worse_def)

lemma serves_no_worse: "serves q m \<Longrightarrow> no_worse q p \<Longrightarrow> serves p m"
  by (auto simp: serves_def no_worse_def)

lemma route_valid: "better r q \<Longrightarrow> r_seq_valid q = SEQ_VALID" "serves q m \<Longrightarrow> r_seq_valid q = SEQ_VALID"
  by (simp_all add: better_def serves_def)

lemma not_older_no_worse: "not_older r q \<Longrightarrow> no_worse r q"
  by (auto simp: not_older_def no_worse_def)

text \<open>
  The invariant: what is in the air are requests of nodes of the network, and who broadcasts a request
  of another node has a route to that node as good as the request; the next hop of a route is its
  destination, or has a better route there.
\<close>

definition leads :: "(u32 \<rightharpoonup> node) \<Rightarrow> u32 \<Rightarrow> u32 \<Rightarrow> route \<Rightarrow> bool" where
  "leads ns i d r \<longleftrightarrow> r_next_hop r = d \<or>
     r_next_hop r \<noteq> i \<and> (\<exists>q. net_route ns (r_next_hop r) d = Some q \<and> better r q)"

definition request_ok :: "(u32 \<rightharpoonup> node) \<Rightarrow> u32 \<Rightarrow> rreq_header \<Rightarrow> bool" where
  "request_ok ns i m \<longleftrightarrow> i \<in> dom ns \<and> rreq_src_ip m \<in> dom ns \<and> rreq_type m = RREQ_TYPE \<and>
     unat (rreq_hop_count m) < 255 \<and> unat (rreq_hop_count m) + unat (rreq_ttl m) < 256 \<and>
     (i \<noteq> rreq_src_ip m \<longrightarrow> (\<exists>q. net_route ns i (rreq_src_ip m) = Some q \<and> serves q m))"

definition nodes_ok :: "(u32 \<rightharpoonup> node) \<Rightarrow> bool" where
  "nodes_ok ns \<longleftrightarrow> inj_on slot_of (dom ns) \<and> (\<forall>i s. ns i = Some s \<longrightarrow> reachable s \<and> ip_address s = i) \<and>
     (\<forall>i. \<forall>d \<in> dom ns - {i}. \<forall>r. net_route ns i d = Some r \<longrightarrow> leads ns i d r)"

definition net_inv :: "net \<Rightarrow> bool" where
  "net_inv N \<longleftrightarrow> nodes_ok (members N) \<and>
     (\<forall>i bs. (i, bs) \<in> air N \<longrightarrow> (\<exists>m. bs = encode_rreq m \<and> request_ok (members N) i m))"

text \<open>One node goes on: what the others rely on stays when its routes get no worse.\<close>

definition improves :: "(u32 \<rightharpoonup> node) \<Rightarrow> u32 \<Rightarrow> node \<Rightarrow> node \<Rightarrow> bool" where
  "improves ns i s s' \<longleftrightarrow> ns i = Some s \<and> (\<forall>d \<in> dom ns - {i}. \<forall>q. route_at s (slot_of d) = Some q \<longrightarrow>
     r_seq_valid q = SEQ_VALID \<longrightarrow> (\<exists>q'. route_at s' (slot_of d) = Some q' \<and> no_worse q q'))"

lemma improves_route:
  assumes "improves ns i s s'" and "d \<in> dom ns" and "j = i \<Longrightarrow> d \<noteq> i"
    and "net_route ns j d = Some q" and "r_seq_valid q = SEQ_VALID"
  shows "\<exists>q'. net_route (ns(i \<mapsto> s')) j d = Some q' \<and> no_worse q q'"
proof (cases "j = i")
  case True
  then have "d \<in> dom ns - {i}" "route_at s (slot_of d) = Some q"
    using assms by (auto simp: net_route_def improves_def)
  with assms(1,5) True show ?thesis by (auto simp: net_route_def improves_def)
next
  case False
  then show ?thesis using assms(4,5) by (auto simp: net_route_def no_worse_def)
qed

lemma improves_leads:
  assumes "improves ns i s s'" and "d \<in> dom ns" and "leads ns j d r"
  shows "leads (ns(i \<mapsto> s')) j d r"
  using assms(3) unfolding leads_def
proof (elim disjE conjE exE)
  fix q assume q: "r_next_hop r \<noteq> j" "net_route ns (r_next_hop r) d = Some q" "better r q"
  show "r_next_hop r = d \<or> r_next_hop r \<noteq> j \<and>
      (\<exists>q. net_route (ns(i \<mapsto> s')) (r_next_hop r) d = Some q \<and> better r q)"
  proof (cases "r_next_hop r = d")
    case False
    then have "r_next_hop r = i \<Longrightarrow> d \<noteq> i" by blast
    from improves_route[OF assms(1,2) this q(2) route_valid(1)[OF q(3)]] q(1)
    show ?thesis using better_no_worse[OF q(3)] by blast
  qed simp
qed simp

lemma improves_request:
  assumes "improves ns i s s'" and "request_ok ns j m"
  shows "request_ok (ns(i \<mapsto> s')) j m"
proof -
  have dom: "dom (ns(i \<mapsto> s')) = dom ns" using assms(1) by (auto simp: improves_def)
  have "\<exists>q. net_route (ns(i \<mapsto> s')) j (rreq_src_ip m) = Some q \<and> serves q m" if "j \<noteq> rreq_src_ip m"
  proof -
    obtain q where q: "net_route ns j (rreq_src_ip m) = Some q" "serves q m" "rreq_src_ip m \<in> dom ns"
      using assms(2) \<open>j \<noteq> rreq_src_ip m\<close> by (auto simp: request_ok_def)
    from improves_route[OF assms(1) q(3) _ q(1) route_valid(2)[OF q(2)]] \<open>j \<noteq> rreq_src_ip m\<close>
    show ?thesis using serves_no_worse[OF q(2)] by blast
  qed
  with assms(2) dom show ?thesis by (simp add: request_ok_def)
qed

lemma improves_nodes:
  assumes ok: "nodes_ok ns" and step: "improves ns i s s'" and s': "reachable s'" "ip_address s' = i"
    and own: "\<And>d r. d \<in> dom ns - {i} \<Longrightarrow> route_at s' (slot_of d) = Some r \<Longrightarrow> leads ns i d r"
  shows "nodes_ok (ns(i \<mapsto> s'))"
proof -
  have dom: "dom (ns(i \<mapsto> s')) = dom ns" using step by (auto simp: improves_def)
  have "leads (ns(i \<mapsto> s')) j d r" if d: "d \<in> dom ns - {j}" "net_route (ns(i \<mapsto> s')) j d = Some r" for j d r
  proof (rule improves_leads[OF step])
    show "leads ns j d r"
    proof (cases "j = i")
      case True
      then show ?thesis using own d by (simp add: net_route_def)
    next
      case False
      then have "net_route ns j d = Some r" using d(2) by (simp add: net_route_def)
      then show ?thesis using ok d(1) by (simp add: nodes_ok_def)
    qed
  qed (use d in auto)
  with ok s' dom show ?thesis by (simp add: nodes_ok_def)
qed

text \<open>A node gets a request: its routes still lead on, got no worse, and it passes on what it knows.\<close>

lemma nodes_okD:
  assumes "nodes_ok ns"
  shows "ns i = Some s \<Longrightarrow> reachable s" "ns i = Some s \<Longrightarrow> ip_address s = i"
    "d \<in> dom ns \<Longrightarrow> d' \<in> dom ns \<Longrightarrow> slot_of d = slot_of d' \<longleftrightarrow> d = d'"
    "d \<in> dom ns \<Longrightarrow> i \<noteq> d \<Longrightarrow> net_route ns i d = Some r \<Longrightarrow> leads ns i d r"
  using assms by (auto simp: nodes_ok_def dest: inj_onD)

lemma leads_status: "leads ns i d (r\<lparr>r_status := v\<rparr>) = leads ns i d r"
  by (simp add: leads_def better_def)

lemma hops_unat: "unat (ucast (w :: u8) :: u32) = unat w"
proof -
  have "unat w < 2 ^ 8" using unsigned_less[of w] by simp
  then have "unat w < 2 ^ 32" by simp
  then show ?thesis by (simp add: unsigned_ucast_eq take_bit_nat_eq_self_iff)
qed

lemma request_leads:
  assumes m: "request_ok ns src m" and src: "src \<noteq> i"
    and r: "r_next_hop r = src" "r_dest_seq r = rreq_src_seq m" "r_hop_count r = ucast (rreq_hop_count m + 1)"
  shows "leads ns i (rreq_src_ip m) r"
proof (cases "src = rreq_src_ip m")
  case False
  with m obtain q where q: "net_route ns src (rreq_src_ip m) = Some q" "serves q m" and "unat (rreq_hop_count m) < 255"
    by (auto simp: request_ok_def)
  then have "unat (rreq_hop_count m) < unat (rreq_hop_count m + 1)" by (simp add: unat_word_ariths)
  then have "(ucast (rreq_hop_count m) :: u32) < ucast (rreq_hop_count m + 1)"
    by (simp add: word_less_nat_alt hops_unat)
  with q(2) r have "better r q" by (auto simp: serves_def better_def intro: le_less_trans)
  with q(1) r(1) src show ?thesis by (auto simp: leads_def)
qed (use r in \<open>simp add: leads_def\<close>)

lemma received_leads:
  assumes ok: "nodes_ok ns" and s: "ns i = Some s" and m: "request_ok ns src m" and src: "src \<noteq> i"
    and run: "recv_rreq src m s = Inr (v, s')" and s': "reachable s'"
    and d: "d \<in> dom ns - {i}" and r: "route_at s' (slot_of d) = Some r"
  shows "leads ns i d r"
proof -
  note node = nodes_okD(1,2)[OF ok s]
  have dom: "src \<in> dom ns" "rreq_src_ip m \<in> dom ns" using m by (simp_all add: request_ok_def)
  have "perhaps (slot_of d) (leads ns i d) s"
    using nodes_okD(4)[OF ok, of d i] d s reachable_node_inv[OF node(1)]
    by (auto simp: perhaps_route_at net_route_def)
  then have "perhaps (slot_of d) (leads ns i d) s'"
  proof (rule recv_rreq_perhaps[OF node(1) _ run])
    assume "slot_of d = slot_of src"
    then have "d = src" using nodes_okD(3)[OF ok] d dom by simp
    then show "keeps_validated (leads ns i d) \<and> leads ns i d (hop_route src)"
      by (simp add: keeps_validated_def leads_status) (simp add: leads_def hop_route_def)
  next
    assume "slot_of d = slot_of (rreq_src_ip m)"
    then have "d = rreq_src_ip m" using nodes_okD(3)[OF ok] d dom by simp
    then show "leads ns i d (back_route src (increment_hop_rreq m)) \<and>
        (\<forall>r. leads ns i d r \<longrightarrow> leads ns i d (rreq_route src (increment_hop_rreq m) r))"
      by (auto simp: rreq_route_def leads_status back_route_def increment_hop_rreq_def
          intro!: request_leads[OF m src])
  qed
  then show ?thesis using r reachable_node_inv[OF s'] by (simp add: perhaps_route_at)
qed

lemma received_improves:
  assumes "nodes_ok ns" and "ns i = Some s" and "recv_rreq src m s = Inr (v, s')"
  shows "improves ns i s s'"
  using recv_rreq_not_older[OF nodes_okD(1)[OF assms(1,2)] _ _ assms(3)] not_older_no_worse assms(2)
  unfolding improves_def by blast

lemma received_broadcasts:
  assumes ok: "nodes_ok ns" and s: "ns i = Some s" and m: "request_ok ns src m"
    and run: "recv_rreq src m s = Inr (v, s')" and bs: "bs \<in> broadcasts s s'"
  shows "\<exists>q. bs = encode_rreq q \<and> request_ok (ns(i \<mapsto> s')) i q"
proof -
  note node = nodes_okD(1,2)[OF ok s]
  obtain evs where "events s' = events s @ evs" "\<forall>ev \<in> set evs. request_event i src m ev"
    using emitsD[OF emits_recv_rreq node(2) run] by blast
  with bs have "request_event i src m (Sent_broadcast bs)" by (simp add: broadcasts_def)
  then obtain q where q: "bs = encode_rreq q" "relays m q" and i: "i \<noteq> rreq_src_ip m" and ttl: "1 < rreq_ttl m"
    by (auto simp: request_event_def)
  have "\<not> recv_rreq_previous_hop src m s = Inr ((), s')"
  proof
    assume "recv_rreq_previous_hop src m s = Inr ((), s')"
    from emitsD[OF emits_previous_hop node(2) this, of "\<lambda>ev. \<forall>b. ev \<noteq> Sent_broadcast b"] bs
    show False by (auto simp: on_messages_def broadcasts_def)
  qed
  with recv_rreq_installs[OF node(1) _ run] i node(2) obtain r where
    r: "route_at s' (slot_of (rreq_src_ip m)) = Some r" "reverse_route_ok (increment_hop_rreq m) r" by auto
  have "1 < unat (rreq_ttl m)" using ttl by (simp add: word_less_nat_alt)
  moreover from this have "unat (rreq_ttl m - 1) = unat (rreq_ttl m) - 1"
    by (metis unat_minus_one unat_0 not_less_zero)
  moreover have hop: "unat (rreq_hop_count m) < 255" "unat (rreq_hop_count m) + unat (rreq_ttl m) < 256"
    using m by (simp_all add: request_ok_def)
  then have "unat (rreq_hop_count m + 1) = unat (rreq_hop_count m) + 1" by (simp add: unat_word_ariths)
  ultimately have "unat (rreq_hop_count q) < 255" "unat (rreq_hop_count q) + unat (rreq_ttl q) < 256"
    using q(2) hop \<open>1 < unat (rreq_ttl m)\<close> by (auto simp: relays_def)
  moreover have "serves r q" using r(2) q(2)
    by (auto simp: serves_def reverse_route_ok_def relays_def increment_hop_rreq_def)
  ultimately have "request_ok (ns(i \<mapsto> s')) i q"
    using m q(2) r(1) i by (auto simp: request_ok_def relays_def net_route_def)
  with q(1) show ?thesis by blast
qed

lemma control_request:
  assumes "exec (Control_in src (encode_rreq m)) s = Inr ((), s')" and "rreq_type m = RREQ_TYPE"
  shows "src = ip_address s \<and> s' = s \<or> src \<noteq> ip_address s \<and> (\<exists>v. recv_rreq src m s = Inr (v, s'))"
proof -
  obtain v where "incoming_control_message src (encode_rreq m) s = Inr (v, s')"
    using assms(1) by (auto simp: sq_def bnd_Inr_iff ret_def)
  then show ?thesis using assms(2) incoming_control_encoded[of src m "[]" s]
    by (auto split: if_splits dest: sym)
qed

lemma step_reachable: "reachable s \<Longrightarrow> exec act s = Inr ((), s') \<Longrightarrow> reachable s'"
  by (rule reachableI(2)) (simp_all add: node_step_iff)

text \<open>No action changes the addresses of a node or takes back what it did.\<close>

lemma fixed_state:
  "fixed (modify (\<lambda>s. s\<lparr>pending := h s\<rparr>))" "fixed (modify (\<lambda>s. s\<lparr>heap := g s\<rparr>))"
  "fixed (on_sequence_num n)" "fixed (on_rreq_ids n')" "fixed (lift_sum q)"
  by (auto simp: fixed_def later_def modify_def on_sequence_num_def on_rreq_ids_def zoom_def lift_sum_def
      ret_def fail_def split: sum.splits)

lemma fixed_option: "fixed m \<Longrightarrow> (\<And>x. fixed (k x)) \<Longrightarrow> fixed (case q of None \<Rightarrow> m | Some x \<Rightarrow> k x)"
  by (cases q) simp_all

lemmas fixed_all = fixed_option fixed_rules fixed_api fixed_others fixed_lists fixed_create fixed_state

lemma fixed_parts:
  "fixed (start_rreq_timer p)" "fixed (mark_active p)" "fixed (note_precursors p x y)"
  "fixed (own_route_fresher m e)" "fixed (free_entry p)" "fixed (remove_routing_entry ip)"
  unfolding start_rreq_timer_def mark_active_def note_precursors_def own_route_fresher_def pthread_create_def
    free_entry_def free_ptr_def mutex_destroy_def remove_routing_entry_def block.simps split_def
  by (intro fixed_all)+

lemma fixed_send:
  "fixed (send_rrep_destination m ip)" "fixed (send_rrep_intermediate m ip)" "fixed (send_rreq_begin d)"
  "fixed (search_over p)" "fixed (send_rreq_end p)" "fixed (rreq_fail t a)" "fixed (rreq_net t a m k)"
  "fixed (rreq_ring t a m k)" "fixed (send_rreq_thread t a)"
  unfolding send_rrep_destination_def send_rrep_intermediate_def send_rreq_begin_def search_over_def
    send_rreq_end_def rreq_net_def rreq_ring_def send_rreq_thread_def rreq_fail_def pthread_create_def
    block.simps split_def Let_def
  by (intro fixed_all fixed_parts)+

lemma fixed_recv:
  "fixed (recv_rreq ip m)" "fixed (recv_rrep ip h)"
  unfolding recv_rreq_def recv_rreq_repeated_def recv_rreq_reverse_route_def recv_rreq_forward_def
    recv_rrep_def recv_rrep_hello_def recv_rrep_forward_def block.simps split_def Let_def
  by (intro fixed_all fixed_parts fixed_send fixed_previous_hop fixed_reply)+

lemma fixed_rerr:
  "fixed (recv_rerr_pair ip ds b v)" "fixed (recv_rerr_loop n ip ds c b v)" "fixed (recv_rerr ip bs)"
proof -
  show pair: "fixed (recv_rerr_pair ip ds b v)" for ip ds b v
    unfolding recv_rerr_pair_def block.simps split_def Let_def by (intro fixed_all fixed_parts)
  have loop: "fixed (recv_rerr_loop n ip ds c b v)" for n ip ds c b v
    by (induction n arbitrary: b v) (auto intro!: fixed_all pair)
  show "fixed (recv_rerr_loop n ip ds c b v)" by (fact loop)
  show "fixed (recv_rerr ip bs)"
    unfolding recv_rerr_def block.simps split_def Let_def
    by (intro fixed_all fixed_parts loop)
qed

lemma fixed_callbacks:
  "fixed (incoming_data_message i j)" "fixed (incoming_control_message i bs)" "fixed (outgoing_message j)"
  unfolding incoming_data_message_def incoming_control_message_def outgoing_message_def usable_route_def
    outgoing_give_up_def block.simps split_def Let_def
  by (intro fixed_all fixed_parts fixed_send fixed_recv fixed_rerr)+

lemma fixed_forward: "fixed (forwarded_messages i j)"
proof -
  have one: "fixed (forward_unreachable ip v)" for ip v
    unfolding forward_unreachable_def block.simps split_def Let_def by (intro fixed_all fixed_parts)
  have loop: "fixed (forward_unreachables ips v)" for ips v
    by (induction ips arbitrary: v) (auto intro!: fixed_all one)
  show ?thesis
    unfolding forwarded_messages_def forward_through_def forward_accept_def forward_rerr_def
      forward_no_route_def block.simps split_def Let_def
    by (intro fixed_all loop)
qed

lemma fixed_threads: "fixed (run_thread t)"
proof -
  have "fixed (case th of None \<Rightarrow> ret ()
     | Some (Expiration a) \<Rightarrow> expiration_begin t a
     | Some (Expiration_sleep a d) \<Rightarrow> asleep d (expiration_wake t a)
     | Some (Rreq_id_sleep a d) \<Rightarrow> asleep d (rreq_id_wake t a)
     | Some (Rreq_sender a) \<Rightarrow> send_rreq_thread t a
     | Some (Rreq_ring_sleep a m ttl d) \<Rightarrow> asleep d (rreq_ring t a m (ttl + TTL_INCREMENT))
     | Some (Rreq_net_sleep a m i d) \<Rightarrow> asleep d (rreq_net t a m (i + 1))
     | Some Hello \<Rightarrow> hello_begin t
     | Some (Hello_wait m) \<Rightarrow> hello_poll t m
     | Some (Hello_sleep m d) \<Rightarrow> asleep d (hello_wake t m))" for th
    unfolding asleep_def expiration_begin_def expiration_wake_def rreq_id_wake_def
      hello_begin_def hello_poll_def hello_wake_def block.simps Let_def
    by (auto intro!: fixed_all fixed_parts fixed_send split: option.split thread.split)
  then show ?thesis unfolding run_thread_def by (intro fixed_rules)
qed

lemma fixed_exec: "fixed (exec act)"
proof (cases act)
  case (Data_out d)
  show ?thesis unfolding Data_out exec.simps start_call_def
    by (rule fixed_bnd[OF fixed_callbacks(3)]) (simp add: fixed_all split: call.split)
next
  case (Run t)
  then show ?thesis by (simp add: fixed_threads)
qed (auto simp: resume_call_def intro!: fixed_all fixed_callbacks fixed_forward fixed_send)

text \<open>The invariant of the network.\<close>

lemma same_ways_improve:
  assumes "ns i = Some s" and "same_ways s s'"
  shows "improves ns i s s'"
  unfolding improves_def
proof (intro conjI ballI allI impI)
  fix d q assume "route_at s (slot_of d) = Some q" and valid: "r_seq_valid q = SEQ_VALID"
  with assms(2) obtain q' where "route_at s' (slot_of d) = Some q'" "same_way q q'"
    by (auto simp: same_ways_def option_rel_Some1 dest!: spec[of _ "slot_of d"])
  then show "\<exists>q'. route_at s' (slot_of d) = Some q' \<and> no_worse q q'"
    using valid by (auto simp: same_way_def no_worse_def)
qed (fact assms(1))

lemma net_local_inv:
  assumes N: "net_inv N" and s: "members N i = Some s" and run: "exec act s = Inr ((), s')" and same: "same_ways s s'"
  shows "net_inv (N\<lparr>members := (members N)(i \<mapsto> s')\<rparr>)"
proof -
  have ok: "nodes_ok (members N)" using N by (simp add: net_inv_def)
  note node = nodes_okD(1,2)[OF ok s] and better = same_ways_improve[of "members N" i s s', OF s same]
  have s': "reachable s'" "ip_address s' = i"
    using step_reachable[OF node(1) run] fixedD[OF fixed_exec run] node(2) by (simp_all add: later_def)
  have "leads (members N) i d r" if d: "d \<in> dom (members N) - {i}" "route_at s' (slot_of d) = Some r" for d r
  proof -
    obtain q where q: "route_at s (slot_of d) = Some q" "same_way q r"
      using same d(2) by (auto simp: same_ways_def option_rel_Some2 dest!: spec[of _ "slot_of d"])
    then have "leads (members N) i d q" using nodes_okD(4)[OF ok, of d i] d(1) s by (auto simp: net_route_def)
    with q(2) show ?thesis by (simp add: leads_def better_def same_way_def)
  qed
  with improves_nodes[OF ok better s'] have "nodes_ok ((members N)(i \<mapsto> s'))" by blast
  moreover have "\<forall>j bs. (j, bs) \<in> air N \<longrightarrow> (\<exists>m. bs = encode_rreq m \<and> request_ok ((members N)(i \<mapsto> s')) j m)"
    using N improves_request[OF better] unfolding net_inv_def by blast
  ultimately show ?thesis by (simp add: net_inv_def)
qed

lemma net_deliver_inv:
  assumes N: "net_inv N" and bs: "(src, bs) \<in> air N" and s: "members N i = Some s"
    and run: "exec (Control_in src bs) s = Inr ((), s')"
  shows "net_inv \<lparr>members = (members N)(i \<mapsto> s'), air = air N \<union> {i} \<times> broadcasts s s'\<rparr>"
proof -
  have ok: "nodes_ok (members N)" using N by (simp add: net_inv_def)
  note node = nodes_okD(1,2)[OF ok s]
  obtain m where m: "bs = encode_rreq m" "request_ok (members N) src m" using N bs unfolding net_inv_def by blast
  then have "rreq_type m = RREQ_TYPE" by (simp add: request_ok_def)
  from control_request[OF run[unfolded m(1)] this] node(2)
  consider "s' = s" | v where "src \<noteq> i" "recv_rreq src m s = Inr (v, s')" by auto
  then show ?thesis
  proof cases
    case 1
    then have "(members N)(i \<mapsto> s') = members N" "broadcasts s s' = {}"
      using s by (auto simp: broadcasts_def)
    with N show ?thesis by (simp add: net_inv_def)
  next
    case 2
    have s': "reachable s'" "ip_address s' = i"
      using step_reachable[OF node(1) run] fixedD[OF fixed_exec run] node(2) by (simp_all add: later_def)
    note better = received_improves[OF ok s 2(2)]
    have "nodes_ok ((members N)(i \<mapsto> s'))"
      using improves_nodes[OF ok better s'] received_leads[OF ok s m(2) 2 s'(1)] by blast
    moreover have "\<exists>q. b = encode_rreq q \<and> request_ok ((members N)(i \<mapsto> s')) j q"
      if "(j, b) \<in> air N \<union> {i} \<times> broadcasts s s'" for j b
      using that N improves_request[OF better] received_broadcasts[OF ok s m(2) 2(2)]
      unfolding net_inv_def by blast
    ultimately show ?thesis by (simp add: net_inv_def)
  qed
qed

lemma flooding_inv: "flooding N \<Longrightarrow> net_inv N"
proof (induction rule: flooding.induct)
  case (net_start ns)
  then have "net_route ns i d = None" if "d \<in> dom ns" for i d
    using that by (auto simp: net_route_def route_at_def split: option.splits)
  with net_start show ?case by (simp add: net_inv_def nodes_ok_def)
next
  case (net_originate N i m)
  moreover have "unat (rreq_ttl m) < 256" using net_originate.hyps(6) by (simp add: word_less_nat_alt)
  ultimately have "request_ok (members N) i m" by (auto simp: request_ok_def net_inv_def)
  with net_originate.IH have "\<exists>q. bs = encode_rreq q \<and> request_ok (members N) j q"
    if "(j, bs) \<in> insert (i, encode_rreq m) (air N)" for j bs
    using that unfolding net_inv_def by blast
  with net_originate.IH show ?case by (simp add: net_inv_def)
qed (simp_all only: net_deliver_inv net_local_inv)

section \<open>No loops\<close>

definition route_graph :: "(u32 \<rightharpoonup> node) \<Rightarrow> u32 \<Rightarrow> (u32 \<times> u32) set" where
  "route_graph ns d = {(i, j). i \<noteq> d \<and> (\<exists>r. net_route ns i d = Some r \<and> r_next_hop r = j)}"

lemma path_better:
  assumes ok: "nodes_ok ns" and d: "d \<in> dom ns" and path: "(i, j) \<in> (route_graph ns d)\<^sup>+"
  shows "i \<noteq> d \<and> (j = d \<or> (\<exists>r q. net_route ns i d = Some r \<and> net_route ns j d = Some q \<and> better r q))"
  using path
proof (induction rule: trancl_induct)
  case (base j)
  then obtain r where "i \<noteq> d" "net_route ns i d = Some r" "r_next_hop r = j" by (auto simp: route_graph_def)
  with nodes_okD(4)[OF ok d this(1,2)] show ?case by (auto simp: leads_def)
next
  case (step j k)
  then obtain r q where "j \<noteq> d" "i \<noteq> d" "net_route ns i d = Some r" "net_route ns j d = Some q" "better r q"
      "r_next_hop q = k" by (auto simp: route_graph_def)
  with nodes_okD(4)[OF ok d this(1,4)] better_trans[OF this(5)] show ?case by (auto simp: leads_def)
qed

definition distance :: "route \<Rightarrow> nat \<times> nat" where
  "distance r = (2 ^ 32 - unat (r_dest_seq r), unat (r_hop_count r))"

lemma better_distance: "better r q \<Longrightarrow> (distance q, distance r) \<in> less_than <*lex*> less_than"
  using unsigned_less[of "r_dest_seq q", where ?'a = nat]
  by (auto simp: better_def distance_def word_less_nat_alt)

lemma route_reaches:
  assumes ok: "nodes_ok ns" and d: "d \<in> dom ns"
  shows "i \<noteq> d \<Longrightarrow> net_route ns i d = Some r \<Longrightarrow> (i, d) \<in> (route_graph ns d)\<^sup>+"
proof (induction "distance r" arbitrary: i r rule: wf_induct_rule[OF wf_lex_prod[OF wf_less_than wf_less_than]])
  case 1
  then have step: "(i, r_next_hop r) \<in> route_graph ns d" by (auto simp: route_graph_def)
  show ?case
  proof (cases "r_next_hop r = d")
    case False
    then obtain q where q: "net_route ns (r_next_hop r) d = Some q" "better r q"
      using nodes_okD(4)[OF ok d 1(2,3)] by (auto simp: leads_def)
    from 1(1)[OF better_distance[OF q(2)] False q(1)] step show ?thesis by (rule trancl_into_trancl2[rotated])
  qed (use step in auto)
qed

text \<open>
  C4: However requests flood a network, the routes to a node never form a loop, and from every
  other node that has a route to it the next hops lead there.
\<close>

theorem flood_loop_free:
  assumes "flooding N" and "d \<in> dom (members N)"
  shows "acyclic (route_graph (members N) d) \<and>
    (\<forall>i r. i \<noteq> d \<longrightarrow> net_route (members N) i d = Some r \<longrightarrow> (i, d) \<in> (route_graph (members N) d)\<^sup>+)"
proof -
  have ok: "nodes_ok (members N)" using flooding_inv[OF assms(1)] by (simp add: net_inv_def)
  have "(i, i) \<notin> (route_graph (members N) d)\<^sup>+" for i
    using path_better[OF ok assms(2), of i i] better_irrefl by auto
  then show ?thesis using route_reaches[OF ok assms(2)] by (auto simp: acyclic_def)
qed

text \<open>
  Three nodes in a row: 10.0.0.1 asks for 13.0.0.1, 11.0.0.1 passes the request on, and 12.0.0.1
  gets it from there.
\<close>

definition first_request :: rreq_header where
  "first_request = sample_request\<lparr>rreq_hop_count := 0, rreq_src_ip := 0x0A000001\<rparr>"

definition second_request :: rreq_header where
  "second_request = first_request\<lparr>rreq_hop_count := 1, rreq_ttl := 4\<rparr>"

definition after_control :: "u32 \<Rightarrow> u8 list \<Rightarrow> node \<Rightarrow> node" where
  "after_control src bs s = (case exec (Control_in src bs) s of Inl _ \<Rightarrow> s | Inr (_, s') \<Rightarrow> s')"

definition row_start :: "u32 \<rightharpoonup> node" where
  "row_start = [0x0A000001 \<mapsto> main_init 0x0A000001 0x0AFFFFFF sample_world,
     0x0B000001 \<mapsto> main_init 0x0B000001 0x0AFFFFFF sample_world,
     0x0C000001 \<mapsto> main_init 0x0C000001 0x0AFFFFFF sample_world]"

definition row_b :: node where
  "row_b = after_control 0x0A000001 (encode_rreq first_request) (main_init 0x0B000001 0x0AFFFFFF sample_world)"

definition row_c :: node where
  "row_c = after_control 0x0B000001 (encode_rreq second_request) (main_init 0x0C000001 0x0AFFFFFF sample_world)"

definition row_end :: "u32 \<rightharpoonup> node" where
  "row_end = row_start(0x0B000001 \<mapsto> row_b, 0x0C000001 \<mapsto> row_c)"

lemma row_runs:
  "returns (exec (Control_in 0x0A000001 (encode_rreq first_request)) (main_init 0x0B000001 0x0AFFFFFF sample_world))"
  "returns (exec (Control_in 0x0B000001 (encode_rreq second_request)) (main_init 0x0C000001 0x0AFFFFFF sample_world))"
  "Sent_broadcast (encode_rreq second_request) \<in> set (events row_b)"
  "map_option r_next_hop (route_at row_c 0x0A) = Some 0x0B000001"
  by code_simp+

lemma after_control_run: "returns (exec (Control_in src bs) s) \<Longrightarrow> exec (Control_in src bs) s = Inr ((), after_control src bs s)"
  by (auto simp: returns_def after_control_def split: sum.splits)

lemma started:
  "reachable (main_init i bcast w)" "ip_address (main_init i bcast w) = i" "routes (main_init i bcast w) j = None"
  using reachableI(1)[OF node_initI] by (simp_all add: main_init_def create_routing_table_def create_data_header_def)

lemma row_floods: "\<exists>A. flooding \<lparr>members = row_end, air = A\<rparr>"
proof -
  have dom: "dom row_start = {0x0A000001, 0x0B000001, 0x0C000001}" by (auto simp: row_start_def)
  have "inj_on slot_of (dom row_start)" unfolding dom by (simp add: slot_of_def)
  moreover have "reachable s \<and> ip_address s = i \<and> (\<forall>d \<in> dom row_start. routes s (slot_of d) = None)"
    if "row_start i = Some s" for i s
    using that started by (auto simp: row_start_def split: if_splits)
  ultimately have "flooding \<lparr>members = row_start, air = {}\<rparr>" by (rule net_start)
  from net_originate[OF this, where i = "0x0A000001" and m = first_request]
  have one: "flooding \<lparr>members = row_start, air = {(0x0A000001, encode_rreq first_request)}\<rparr>"
    using dom by (simp add: first_request_def sample_request_def)
  obtain A where two: "flooding \<lparr>members = row_start(0x0B000001 \<mapsto> row_b), air = A\<rparr>"
    and A: "(0x0B000001, encode_rreq second_request) \<in> A"
    using net_deliver[OF one _ _ after_control_run[OF row_runs(1)], where i = "0x0B000001"] row_runs(3)
    by (force simp: row_start_def row_b_def broadcasts_def main_init_def)
  from net_deliver[OF two _ _ after_control_run[OF row_runs(2)], where i = "0x0C000001"] A show ?thesis
    by (auto simp: row_end_def row_start_def row_c_def)
qed

theorem flood_loop_free_witness:
  "acyclic (route_graph row_end 0x0A000001) \<and> (0x0C000001, 0x0A000001) \<in> (route_graph row_end 0x0A000001)\<^sup>+"
proof -
  obtain A where "flooding \<lparr>members = row_end, air = A\<rparr>" using row_floods by blast
  moreover have "(0x0A000001 :: u32) \<in> dom (members \<lparr>members = row_end, air = A\<rparr>)"
    by (simp add: row_end_def row_start_def)
  moreover obtain r where "net_route (members \<lparr>members = row_end, air = A\<rparr>) 0x0C000001 0x0A000001 = Some r"
    using row_runs(4) by (auto simp: net_route_def row_end_def slot_of_def)
  ultimately show ?thesis using flood_loop_free by fastforce
qed

end
