(* ===== verification/Mesh.thy ===== *)
theory Mesh
  imports Network
begin

text \<open>
  A network in which the nodes do all they can: searches, replies and timers included. It can reach a
  state in which two valid routes form a loop, so the freedom from loops that the requests keep
  (\<open>Network\<close>) does not survive the replies.
\<close>

section \<open>Nodes and what they call\<close>

text \<open>
  \<open>traffic\<close> are the calls to the packet API so far, with the node that made them. A node gets a
  control message only if another sent it, to all or to this node.
\<close>

record mesh =
  stations :: "u32 \<rightharpoonup> node"
  traffic :: "(u32 \<times> event) list"

fun audible :: "mesh \<Rightarrow> u32 \<Rightarrow> action \<Rightarrow> bool" where
  "audible N i (Control_in src bs) \<longleftrightarrow>
     (src, Sent_broadcast bs) \<in> set (traffic N) \<or> (src, Sent_unicast i bs) \<in> set (traffic N)"
| "audible N i act \<longleftrightarrow> True"

definition perform :: "u32 \<Rightarrow> action \<Rightarrow> mesh \<Rightarrow> mesh option" where
  "perform i act N = (case stations N i of None \<Rightarrow> None | Some s \<Rightarrow>
     if audible N i act
     then (case exec act s of Inl _ \<Rightarrow> None
       | Inr (_, s') \<Rightarrow> Some \<lparr>stations = (stations N)(i \<mapsto> s'),
           traffic = traffic N @ map (Pair i) (drop (length (events s)) (events s'))\<rparr>)
     else None)"

inductive mesh_init :: "mesh \<Rightarrow> bool" where
  mesh_initI: "(\<And>i s. ns i = Some s \<Longrightarrow> \<exists>bcast w. s = main_init i bcast w) \<Longrightarrow>
    mesh_init \<lparr>stations = ns, traffic = []\<rparr>"

inductive mesh_step :: "mesh \<Rightarrow> u32 \<times> action \<Rightarrow> mesh \<Rightarrow> bool" where
  mesh_stepI: "perform i act N = Some N' \<Longrightarrow> mesh_step N (i, act) N'"

inductive_cases mesh_initE: "mesh_init N"
inductive_cases mesh_stepE: "mesh_step N ia N'"

definition mesh_reachable :: "mesh \<Rightarrow> bool" where
  "mesh_reachable = reach mesh_init mesh_step"

text \<open>The nodes of a network are nodes: each is in a state it can reach, and keeps its address.\<close>

definition mesh_inv :: "mesh \<Rightarrow> bool" where
  "mesh_inv N \<longleftrightarrow> (\<forall>i s. stations N i = Some s \<longrightarrow> reachable s \<and> ip_address s = i)"

lemma started_at: "\<exists>bcast w. s = main_init i bcast w \<Longrightarrow> reachable s \<and> ip_address s = i"
  using started by blast

lemma mesh_inv_init: "mesh_init N \<Longrightarrow> mesh_inv N"
proof (erule mesh_initE)
  fix ns
  assume N: "N = \<lparr>stations = ns, traffic = []\<rparr>" and new: "\<And>i s. ns i = Some s \<Longrightarrow> \<exists>bcast w. s = main_init i bcast w"
  have "reachable s \<and> ip_address s = i" if "ns i = Some s" for i s
    by (rule started_at) (rule new[OF that])
  then show "mesh_inv N" by (simp add: N mesh_inv_def)
qed

lemma mesh_inv_step:
  assumes inv: "mesh_inv N" and step: "mesh_step N ia N'"
  shows "mesh_inv N'"
proof -
  obtain i act s s' where s: "stations N i = Some s" and run: "exec act s = Inr ((), s')"
    and N': "stations N' = (stations N)(i \<mapsto> s')"
    using step by (auto elim!: mesh_stepE simp: perform_def split: option.splits sum.splits if_splits)
  have "reachable s" "ip_address s = i" using inv s by (simp_all add: mesh_inv_def)
  then have "reachable s'" "ip_address s' = i"
    using step_reachable run fixedD[OF fixed_exec run] by (auto simp: later_def)
  with inv N' show ?thesis by (simp add: mesh_inv_def)
qed

interpretation mesh_sys: transition_system mesh_init mesh_step mesh_inv
  by unfold_locales (fact mesh_inv_init, fact mesh_inv_step)

section \<open>A loop\<close>

text \<open>What a network does, in order: a node acts, or gets the message of a call made before.\<close>

datatype cue = Does u32 action | Hears u32 nat

definition message_of :: "(u32 \<times> event) \<Rightarrow> action option" where
  "message_of call = (case call of (src, Sent_broadcast bs) \<Rightarrow> Some (Control_in src bs)
     | (src, Sent_unicast _ bs) \<Rightarrow> Some (Control_in src bs) | _ \<Rightarrow> None)"

primrec play :: "cue list \<Rightarrow> mesh \<Rightarrow> mesh option" where
  "play [] N = Some N"
| "play (c # cs) N = Option.bind
     (case c of Does i act \<Rightarrow> perform i act N
      | Hears i n \<Rightarrow> Option.bind (message_of (traffic N ! n)) (\<lambda>act. perform i act N)) (play cs)"

lemma play_reach: "mesh_reachable N \<Longrightarrow> play cs N = Some N' \<Longrightarrow> mesh_reachable N'"
proof (induction cs arbitrary: N)
  case (Cons c cs)
  then obtain i act M where "perform i act N = Some M" "play cs M = Some N'"
    by (auto split: cue.splits bind_splits)
  moreover from this Cons.prems(1) have "mesh_reachable M"
    unfolding mesh_reachable_def by (blast intro: reach_step mesh_stepI)
  ultimately show ?case using Cons.IH by blast
qed simp

text \<open>The same network with its maps as tables.\<close>

definition tidy_mesh :: "u32 list \<Rightarrow> u32 \<Rightarrow> mesh \<Rightarrow> mesh" where
  "tidy_mesh ips i N = N\<lparr>stations := (\<lambda>j. Option.bind (map_of (map (\<lambda>k. (k,
     if k = i then map_option tidy (stations N k) else stations N k)) ips) j) id)\<rparr>"

primrec play_tidy :: "u32 list \<Rightarrow> cue list \<Rightarrow> mesh \<Rightarrow> mesh option" where
  "play_tidy ips [] N = Some N"
| "play_tidy ips (c # cs) N = (case c of
      Does i act \<Rightarrow> Option.bind (perform i act N) (\<lambda>N'. play_tidy ips cs (tidy_mesh ips i N'))
    | Hears i n \<Rightarrow> Option.bind (message_of (traffic N ! n)) (\<lambda>act.
        Option.bind (perform i act N) (\<lambda>N'. play_tidy ips cs (tidy_mesh ips i N'))))"

lemma tidy_mesh_same:
  assumes "mesh_inv N" and "dom (stations N) \<subseteq> set ips"
  shows "tidy_mesh ips i N = N"
proof -
  have "map_option tidy (stations N k) = stations N k" for k
    using assms(1) tidy_same[OF reachable_node_inv] by (cases "stations N k") (auto simp: mesh_inv_def)
  moreover have "stations N k = None" if "k \<notin> set ips" for k using assms(2) that by (auto simp: subset_iff domIff)
  ultimately have "(\<lambda>j. Option.bind (map_of (map (\<lambda>k. (k, if k = i then map_option tidy (stations N k) else stations N k)) ips) j) id)
      = stations N"
    by (intro ext) (auto simp: map_of_map_restrict restrict_map_def)
  then show ?thesis by (simp add: tidy_mesh_def)
qed

lemma perform_dom: "perform i act N = Some N' \<Longrightarrow> dom (stations N') = dom (stations N)"
  by (auto simp: perform_def split: option.splits sum.splits if_splits)

lemma play_tidy_same:
  "mesh_inv N \<Longrightarrow> dom (stations N) \<subseteq> set ips \<Longrightarrow> play_tidy ips cs N = play cs N"
proof (induction cs arbitrary: N)
  case (Cons c cs)
  have "play_tidy ips cs (tidy_mesh ips i N') = play cs N'" if "perform i act N = Some N'" for i act N'
    using mesh_inv_step[OF Cons.prems(1) mesh_stepI[OF that]] perform_dom[OF that] Cons.prems(2)
      tidy_mesh_same[of N' ips i] Cons.IH[of N'] by simp
  then have "Option.bind (perform i act N) (\<lambda>N'. play_tidy ips cs (tidy_mesh ips i N')) =
      Option.bind (perform i act N) (play cs)" for i act
    by (cases "perform i act N") simp_all
  then show ?case by (cases c) (simp_all add: bind_assoc)
qed simp

text \<open>
  10.0.0.1 and 11.0.0.1 find a route to 13.0.0.1, which is next to 11.0.0.1. The route of 11.0.0.1
  expires. Then 12.0.0.1, on the other side of 11.0.0.1, asks for 13.0.0.1: its request says that it
  knows no number, so 10.0.0.1 answers with the number 11.0.0.1 knows already, and 11.0.0.1 takes the
  answer. The gratuitous reply for 12.0.0.1 does the same to the route of 11.0.0.1 to its neighbour.
\<close>

definition corner :: mesh where
  "corner = \<lparr>stations =
     [0x0A000001 \<mapsto> main_init 0x0A000001 0x0AFFFFFF sample_world,
      0x0B000001 \<mapsto> main_init 0x0B000001 0x0AFFFFFF sample_world,
      0x0C000001 \<mapsto> main_init 0x0C000001 0x0AFFFFFF sample_world,
      0x0D000001 \<mapsto> main_init 0x0D000001 0x0AFFFFFF sample_world], traffic = []\<rparr>"

definition find_route :: "cue list" where
  "find_route = [Does 0x0A000001 (Data_out 0x0D000001), Does 0x0A000001 (Run 2), Does 0x0A000001 (Run 2),
     Hears 0x0B000001 1, Hears 0x0D000001 4, Hears 0x0B000001 7, Hears 0x0A000001 11]"

definition ask_again :: "cue list" where
  "ask_again = [Does 0x0B000001 (Run 6), Does 0x0B000001 (Run 6),
     Does 0x0C000001 (Data_out 0x0D000001), Does 0x0C000001 (Run 2), Does 0x0C000001 (Run 2),
     Hears 0x0B000001 17, Hears 0x0A000001 20, Hears 0x0B000001 23, Hears 0x0B000001 24]"

definition valid_graph :: "(u32 \<rightharpoonup> node) \<Rightarrow> u32 \<Rightarrow> (u32 \<times> u32) set" where
  "valid_graph ns d = {(i, j). i \<noteq> d \<and> (\<exists>r. net_route ns i d = Some r \<and> r_status r = ROUTE_VALID \<and>
     r_seq_valid r = SEQ_VALID \<and> r_next_hop r = j)}"

definition hop_to :: "mesh \<Rightarrow> u32 \<Rightarrow> u32 \<Rightarrow> u32 option" where
  "hop_to N i d = (case net_route (stations N) i d of None \<Rightarrow> None
     | Some r \<Rightarrow> if r_status r = ROUTE_VALID \<and> r_seq_valid r = SEQ_VALID then Some (r_next_hop r) else None)"

definition passes :: "mesh \<Rightarrow> u32 \<Rightarrow> u32 \<Rightarrow> u32 \<Rightarrow> bool" where
  "passes N i src d = (case stations N i of None \<Rightarrow> False
     | Some s \<Rightarrow> (case forwarded_messages src d s of Inl _ \<Rightarrow> False | Inr (v, _) \<Rightarrow> v = PACKET_ACCEPT))"

lemma hop_to_graph: "hop_to N i d = Some j \<Longrightarrow> i \<noteq> d \<Longrightarrow> (i, j) \<in> valid_graph (stations N) d"
  by (auto simp: hop_to_def valid_graph_def split: option.splits if_splits)

definition corner_ips :: "u32 list" where
  "corner_ips = [0x0A000001, 0x0B000001, 0x0C000001, 0x0D000001]"

lemma corner_loop:
  "case play_tidy corner_ips (find_route @ ask_again) corner of None \<Rightarrow> False
   | Some N \<Rightarrow> hop_to N 0x0A000001 0x0D000001 = Some 0x0B000001 \<and> hop_to N 0x0B000001 0x0D000001 = Some 0x0A000001 \<and>
       hop_to N 0x0A000001 0x0C000001 = Some 0x0B000001 \<and> hop_to N 0x0B000001 0x0C000001 = Some 0x0A000001 \<and>
       passes N 0x0A000001 0x0C000001 0x0D000001 \<and> passes N 0x0B000001 0x0C000001 0x0D000001"
  by code_simp

lemma corner_reachable: "mesh_reachable corner"
  unfolding mesh_reachable_def corner_def
  by (intro reach_init mesh_initI) (auto split: if_splits)

text \<open>
  C6: Replies can make routes into a loop: four nodes that start afresh can reach a state where
  10.0.0.1 and 11.0.0.1 each have a valid route to 13.0.0.1 over the other, and accept to forward a
  packet for it, and the same for 12.0.0.1, although 11.0.0.1 is the neighbour of both.
\<close>

theorem replies_make_loops:
  "\<exists>N. mesh_reachable N \<and>
     (0x0A000001, 0x0A000001) \<in> (valid_graph (stations N) 0x0D000001)\<^sup>+ \<and>
     (0x0A000001, 0x0A000001) \<in> (valid_graph (stations N) 0x0C000001)\<^sup>+ \<and>
     passes N 0x0A000001 0x0C000001 0x0D000001 \<and> passes N 0x0B000001 0x0C000001 0x0D000001"
proof -
  have start: "mesh_inv corner" "dom (stations corner) \<subseteq> set corner_ips"
    using mesh_sys.reach_inv corner_reachable
    by (auto simp: mesh_reachable_def corner_def corner_ips_def split: if_splits)
  obtain N where N: "play (find_route @ ask_again) corner = Some N"
    and hops: "hop_to N 0x0A000001 0x0D000001 = Some 0x0B000001" "hop_to N 0x0B000001 0x0D000001 = Some 0x0A000001"
      "hop_to N 0x0A000001 0x0C000001 = Some 0x0B000001" "hop_to N 0x0B000001 0x0C000001 = Some 0x0A000001"
      "passes N 0x0A000001 0x0C000001 0x0D000001" "passes N 0x0B000001 0x0C000001 0x0D000001"
    using corner_loop[unfolded play_tidy_same[OF start]] by (auto split: option.splits)
  have "(0x0A000001, 0x0B000001) \<in> valid_graph (stations N) 0x0D000001"
    "(0x0B000001, 0x0A000001) \<in> valid_graph (stations N) 0x0D000001"
    "(0x0A000001, 0x0B000001) \<in> valid_graph (stations N) 0x0C000001"
    "(0x0B000001, 0x0A000001) \<in> valid_graph (stations N) 0x0C000001"
    by (rule hop_to_graph, use hops in simp_all)+
  with play_reach[OF corner_reachable N] hops(5,6) show ?thesis by (blast intro: trancl.intros)
qed

end
