(* ===== verification/Error_Flow.thy ===== *)
theory Error_Flow
  imports Network
begin

text \<open>
  What an error makes a node send: at most one message, which names only destinations whose route the
  node lost to this error.
\<close>

section \<open>The pairs of an error message\<close>

text \<open>
  A pair \<open>(d, q)\<close> is \<open>lost\<close>: the error names an address of the slot of \<open>d\<close> with the number \<open>q\<close>, and
  the node had a valid route to \<open>d\<close> over the sender.
\<close>

definition lost :: "node \<Rightarrow> u32 \<Rightarrow> u8 list \<Rightarrow> nat \<Rightarrow> u32 \<times> u32 \<Rightarrow> bool" where
  "lost s sender_ip pairs n p \<longleftrightarrow> (\<exists>j ip r. j < n \<and> read_word pairs (2 * j) = Inr ip \<and>
     read_word pairs (2 * j + 1) = Inr (snd p) \<and> route_at s (slot_of ip) = Some r \<and> through sender_ip r \<and>
     r_dest_ip r = fst p)"

definition noted :: "rerr_loop \<Rightarrow> (u32 \<times> u32) list" where
  "noted v = map (\<lambda>k. (dest_ip_seq_pairs v ! (2 * k), dest_ip_seq_pairs v ! (2 * k + 1)))
     [0..<unat (num_dests v) div 2]"

definition error_message :: "(u32 \<times> u32) list \<Rightarrow> u8 list" where
  "error_message ps = encode_rerr \<lparr>rerr_dest_count = of_nat (length ps), rerr_reserved = 0, rerr_n = 0,
     rerr_type = RERR_TYPE\<rparr> @ bytes_of_words (concat (map (\<lambda>(d, q). [d, q]) ps))"

section \<open>One round of the loop\<close>

text \<open>What is valid now was valid at the start, and as it is now.\<close>

definition valid_since :: "node \<Rightarrow> node \<Rightarrow> bool" where
  "valid_since s t \<longleftrightarrow> (\<forall>i r. route_at t i = Some r \<longrightarrow> r_status r = ROUTE_VALID \<longrightarrow> route_at s i = Some r)"

lemma makes_none_pair: "makes_none i (recv_rerr_pair sender_ip bs k v)"
  unfolding recv_rerr_pair_def note_precursors_def DeleteEntry_def block.simps split_def lift_sum_def
  by (auto intro!: makes_none_rules makes_none_more split: sum.split)

lemma pair_valid:
  assumes inv: "node_inv t" and run: "recv_rerr_pair sender_ip bs k v t = Inr (v', t')"
  shows "valid_since t t'"
  unfolding valid_since_def
proof (intro allI impI)
  fix i r
  assume r: "route_at t' i = Some r" "r_status r = ROUTE_VALID"
  have "routes t' i = None" if "routes t i = None"
    using makes_none_pair[of i] run that unfolding makes_none_def by blast
  with r(1) have "routes t i \<noteq> None" by (cases "routes t i = None") (simp_all add: route_at_def)
  then have "route_at t i \<noteq> None"
    using inv by (fastforce simp: route_at_def node_inv_def table_inv_def)
  then obtain q where q: "route_at t i = Some q" by blast
  have "\<exists>r'. route_at t' i = Some r' \<and> withdrawn sender_ip q r'"
    by (rule route_after[OF inv q _ recv_rerr_pair_route[OF withdrawn_closed] run]) (simp add: withdrawn_def)
  with r have "withdrawn sender_ip q r" by simp
  with r(2) q show "route_at t i = Some r" by (auto simp: withdrawn_def same_path_def)
qed

text \<open>A round leaves the variables alone, or notes the destination of a valid route over the sender.\<close>

lemma pair_noted:
  assumes run: "recv_rerr_pair sender_ip bs i v t = Inr (v', t')" and v': "v' \<noteq> v"
  shows "\<exists>ip q r. read_word bs (2 * unat i) = Inr ip \<and> read_word bs (2 * unat i + 1) = Inr q \<and>
    route_at t (slot_of ip) = Some r \<and> through sender_ip r \<and> num_dests v' = num_dests v + 2 \<and>
    dest_ip_seq_pairs v' = (dest_ip_seq_pairs v)[unat (num_dests v) := r_dest_ip r, unat (num_dests v) + 1 := q]"
proof -
  obtain ip where ip: "read_word bs (2 * unat i) = Inr ip"
    using run by (auto simp: recv_rerr_pair_def bnd_Inr_iff lift_sum_def fail_def mult.commute split: sum.splits)
  obtain a e where e: "routes t (slot_of ip) = Some a" "heap t a = Some e" "next_hop e = sender_ip" "status e = ROUTE_VALID"
    using run ip v'
    by (auto simp: recv_rerr_pair_def bnd_Inr_iff lift_sum_def prog_simps mult.commute lookup_route_def
        get_routing_entry_def find_entry_slot deref_def split: if_splits option.splits)
  have "num_dests v' = num_dests v + 2 \<and> (\<exists>q. read_word bs (2 * unat i + 1) = Inr q \<and>
      dest_ip_seq_pairs v' = (dest_ip_seq_pairs v)[unat (num_dests v) := dest_ip e, unat (num_dests v) + 1 := q])"
    using run ip v' e
    by (auto simp: recv_rerr_pair_def bnd_Inr_iff lift_sum_def prog_simps mult.commute lookup_route_def
        get_routing_entry_def find_entry_slot deref_def put_word_def split: if_splits sum.splits)
  then obtain q where q: "num_dests v' = num_dests v + 2" "read_word bs (2 * unat i + 1) = Inr q"
    "dest_ip_seq_pairs v' = (dest_ip_seq_pairs v)[unat (num_dests v) := dest_ip e, unat (num_dests v) + 1 := q]"
    by blast
  have "route_at t (slot_of ip) = Some (route_of e)" "through sender_ip (route_of e)" "r_dest_ip (route_of e) = dest_ip e"
    using e by (simp_all add: route_at_def through_def route_of_def)
  with ip q show ?thesis by metis
qed

section \<open>The loop\<close>

lemma noted_pair:
  assumes "rerr_vars n i v" and "i < n"
    and "num_dests v' = num_dests v + 2"
    and "dest_ip_seq_pairs v' = (dest_ip_seq_pairs v)[unat (num_dests v) := d, unat (num_dests v) + 1 := q]"
  shows "set (noted v') \<subseteq> insert (d, q) (set (noted v))"
proof -
  obtain m where m: "unat (num_dests v) = 2 * m" "m \<le> i" "length (dest_ip_seq_pairs v) = 2 * n"
    using assms(1) by (auto simp: rerr_vars_def elim!: evenE)
  have "unat (num_dests v') div 2 \<le> Suc m"
    using m(1) unsigned_less[of "num_dests v", where ?'a = nat] by (simp add: assms(3) unat_word_ariths)
  then have "set (noted v') \<subseteq> (\<lambda>k. (dest_ip_seq_pairs v' ! (2 * k), dest_ip_seq_pairs v' ! (2 * k + 1))) ` {..m}"
    by (auto simp: noted_def)
  moreover have "(dest_ip_seq_pairs v' ! (2 * k), dest_ip_seq_pairs v' ! (2 * k + 1)) \<in> insert (d, q) (set (noted v))"
    if "k \<le> m" for k
  proof (cases "k = m")
    case True
    then show ?thesis using m assms(2) by (simp add: assms(4))
  next
    case False
    then show ?thesis using that m by (auto simp: assms(4) noted_def nth_list_update)
  qed
  ultimately show ?thesis by blast
qed

lemma lost_since:
  assumes "valid_since s t" and "route_at t (slot_of ip) = Some r" and "through sender_ip r"
    and "read_word pairs (2 * j) = Inr ip" and "read_word pairs (2 * j + 1) = Inr q" and "j < n"
  shows "lost s sender_ip pairs n (r_dest_ip r, q)"
  using assms unfolding lost_def valid_since_def through_def by auto

lemma loop_noted:
  assumes "node_inv t" and "rerr_vars (unat count) (unat i) v" and "i \<le> count" and "unat count < fuel + unat i"
    and "recv_rerr_loop fuel sender_ip bs count i v t = Inr (v', t')"
    and "valid_since s t" and "list_all (lost s sender_ip bs (unat count)) (noted v)"
  shows "list_all (lost s sender_ip bs (unat count)) (noted v') \<and> rerr_vars (unat count) (unat count) v'"
  using assms
proof (induction fuel arbitrary: i v t)
  case 0
  then show ?case by (simp add: word_le_nat_alt)
next
  case (Suc fuel)
  show ?case
  proof (cases "i < count")
    case False
    with Suc.prems(3) have "i = count" by simp
    with Suc.prems show ?thesis by (simp add: prog_simps)
  next
    case True
    then have i: "unat i < unat count" by (simp add: word_less_nat_alt)
    have next_i: "unat (i + 1) = Suc (unat i)"
      using i unsigned_less[of count, where ?'a = nat] by (simp add: unat_word_ariths)
    obtain v1 t1 where run: "recv_rerr_pair sender_ip bs i v t = Inr (v1, t1)"
      and rest: "recv_rerr_loop fuel sender_ip bs count (i + 1) v1 t1 = Inr (v', t')"
      using Suc.prems(5) True by (auto simp: bnd_Inr_iff)
    have "ok (held t) {} t" using Suc.prems(1) by (simp add: ok_iff)
    from triple_result[OF recv_rerr_pair_ok[where F = UNIV, OF _ _ Suc.prems(2) i] this run]
    have inv: "node_inv t1" and vars: "rerr_vars (unat count) (Suc (unat i)) v1" by (simp_all add: ok_iff)
    have since: "valid_since s t1"
      using Suc.prems(6) pair_valid[OF Suc.prems(1) run] by (simp add: valid_since_def)
    have "list_all (lost s sender_ip bs (unat count)) (noted v1)"
    proof (cases "v1 = v")
      case False
      from pair_noted[OF run False] obtain ip q r where *: "read_word bs (2 * unat i) = Inr ip"
        "read_word bs (2 * unat i + 1) = Inr q" "route_at t (slot_of ip) = Some r" "through sender_ip r"
        "num_dests v1 = num_dests v + 2"
        "dest_ip_seq_pairs v1 = (dest_ip_seq_pairs v)[unat (num_dests v) := r_dest_ip r, unat (num_dests v) + 1 := q]"
        by blast
      from noted_pair[OF Suc.prems(2) i *(5,6)] lost_since[OF Suc.prems(6) *(3,4,1,2) i] Suc.prems(7)
      show ?thesis by (auto simp: list_all_iff)
    qed (use Suc.prems(7) in simp)
    then show ?thesis
      using Suc.IH[OF inv _ _ _ rest since] vars Suc.prems(4) True next_i by (simp add: inc_le)
  qed
qed

section \<open>The message\<close>

lemma noted_words:
  assumes "unat (num_dests v) = 2 * m" and "2 * m \<le> length (dest_ip_seq_pairs v)"
  shows "concat (map (\<lambda>(d, q). [d, q]) (noted v)) = take (2 * m) (dest_ip_seq_pairs v)"
proof -
  have "concat (map (\<lambda>(d, q). [d, q]) (map (\<lambda>k. (xs ! (2 * k), xs ! (2 * k + 1))) [0..<m])) = take (2 * m) xs"
    if "2 * m \<le> length xs" for xs :: "u32 list"
    using that
  proof (induction m)
    case (Suc m)
    then show ?case by (simp add: take_Suc_conv_app_nth)
  qed simp
  from this[OF assms(2)] assms(1) show ?thesis by (simp add: noted_def)
qed

lemma error_packet:
  assumes v: "rerr_vars n n v" and n0: "num_dests v \<noteq> 0"
    and gen: "generate_rerr_message_buff 0 (num_dests v div 2) (dest_ip_seq_pairs v) = Inr (Some (buf, len))"
  shows "read_block junk buf (4 + 4 * unat (num_dests v)) = error_message (noted v) \<and> noted v \<noteq> []"
proof -
  obtain m where m: "unat (num_dests v) = 2 * m" "2 * m \<le> length (dest_ip_seq_pairs v)"
    using v by (auto simp: rerr_vars_def elim!: evenE)
  have "unat (num_dests v div 2) = m" using m(1) by (simp add: unat_div)
  then have count: "num_dests v div 2 = of_nat (length (noted v))" and noted: "length (noted v) = m"
    using m(1) by (auto simp: noted_def)
  have "m \<noteq> 0" using n0 m(1) unsigned_eq_0_iff[of "num_dests v"] by auto
  moreover have "buf = error_message (noted v)"
    using gen noted_words[OF m] \<open>unat (num_dests v div 2) = m\<close> count
    by (auto simp: generate_rerr_message_buff_def error_message_def Let_def split: if_splits)
  moreover have "length (error_message (noted v)) = 4 + 4 * unat (num_dests v)"
    using noted_words[OF m] m by (simp add: error_message_def rerr_fmt.length_encode sizeof_rerr_def)
  ultimately show ?thesis using read_block_exact[of junk buf] noted by auto
qed

lemma emits_pair: "emits own (\<lambda>ev. \<exists>d. ev = Deleted_route d sender_ip) (recv_rerr_pair sender_ip bs k v)"
proof -
  have words: "emits own P (lift_sum q)" for P and q :: "fault + 'a"
    by (cases q) (simp_all add: lift_sum_def emits_basic)
  have delete: "emits own (\<lambda>ev. \<exists>d. ev = Deleted_route d sender_ip) (DeleteEntry d h)" if "h = sender_ip" for d h
    unfolding DeleteEntry_def that by (intro emits_rules emits_emit exI) (rule refl)
  have noting: "emits own P (note_precursors p x y)" for P p x y
    unfolding note_precursors_def by (intro emits_rules)
  show ?thesis
    unfolding recv_rerr_pair_def block.simps split_def
    by (intro emits_rules words noting delete) simp_all
qed

lemma emits_loop:
  "emits own (\<lambda>ev. \<exists>d. ev = Deleted_route d sender_ip) (recv_rerr_loop fuel sender_ip bs count k v)"
  by (induction fuel arbitrary: k v) (auto intro!: emits_rules emits_pair)

text \<open>The end of the handler: the message, if a destination was noted.\<close>

definition error_end :: "rerr_loop \<Rightarrow> (node, verdict) prog" where
  "error_end w =
     (if num_dests w = 0 then ret LOGGING
     else
       bnd (lift_sum (generate_rerr_message_buff 0 (num_dests w div 2) (dest_ip_seq_pairs w))) (\<lambda>r.
       case r of None \<Rightarrow> fail Null_deref
       | Some (rerr_buff, _) \<Rightarrow>
           sq (if single_rerr w \<noteq> 0 \<and> broadcast_rerr w = 0
               then SendUnicast (single_rerr w) rerr_buff (4 + 4 * unat (num_dests w))
               else SendBroadcast rerr_buff (4 + 4 * unat (num_dests w)))
           (ret LOGGING)))"

lemma error_sent:
  assumes "rerr_vars n n w" and "num_dests w \<noteq> 0" and "error_end w t = Inr (v, s')"
  shows "noted w \<noteq> [] \<and> (\<exists>ev. events s' = events t @ [ev] \<and>
    (ev = Sent_broadcast (error_message (noted w)) \<or> (\<exists>ip. ev = Sent_unicast ip (error_message (noted w)))))"
proof -
  from rerr_vars_message[OF assms(1,2)] obtain buf len where
    gen: "generate_rerr_message_buff 0 (num_dests w div 2) (dest_ip_seq_pairs w) = Inr (Some (buf, len))" by blast
  note packet = error_packet[OF assms(1,2) gen]
  then show ?thesis
    using assms(2,3) gen
    by (auto simp: error_end_def lift_sum_def prog_simps SendUnicast_def SendBroadcast_def emit_def split: if_splits)
qed


text \<open>
  A node with a route to 12.0.0.1 that answered a request of 14.0.0.1 for it: the error of the next hop
  goes on to 14.0.0.1.
\<close>

definition relied :: node where
  "relied = moved (Control_in 0x0E000001 (encode_rreq (sample_request\<lparr>rreq_flags := 1,
     rreq_dest_ip := 0x0C000001, rreq_src_ip := 0x0E000001, rreq_hop_count := 0\<rparr>))) heard"

lemma relied_reachable: "reachable relied"
  unfolding relied_def by (rule moved_reachable[OF heard_reachable])

lemma relied_error:
  "case recv_rerr 0x0B000001 sample_error relied of Inl _ \<Rightarrow> False
   | Inr (v, s') \<Rightarrow> drop (length (events relied)) (events s') =
       [Deleted_route 0x0C000001 0x0B000001, Sent_unicast 0x0E000001 (error_message [(0x0C000001, 12)])]"
  by code_simp


end
