(* ===== verification/Expiry.thy ===== *)
theory Expiry
  imports Network
begin

text \<open>
  The timers of the routes: when an expiration thread wakes up, and what the count of active routes
  becomes when routes expire.
\<close>

section \<open>When a route expires\<close>

text \<open>A timer just set: the thread and the time-out of the entry.\<close>

lemma timer_set:
  assumes "set_expiration_timer (Some a) ms s = Inr ((), s1)" and "ms \<noteq> 0"
  shows "threads s1 (next_tid s) = Some (Expiration a) \<and> ticks s1 = Suc (ticks s) \<and> world s1 = world s \<and>
    (\<exists>e. heap s1 a = Some e \<and> time_out e = add_time_ms (clock (world s) (ticks s)) ms)"
  using assms
  by (auto simp: set_expiration_timer_def pthread_create_def prog_simps bnd_Inr_iff deref_def write_entry_def
      clock_gettime_def pthread_cancel_def when_p_def split: option.splits if_splits)

text \<open>
  C25: A route expires when it should: the thread that \<open>set_expiration_timer\<close> starts sleeps, from the
  moment it runs, for what is left of the given milliseconds, to the nanosecond. The one exception: a
  time-out of a full second, left as 1000000000 nanoseconds, is no valid time for \<open>nanosleep\<close> when
  the thread runs at a full second too.
\<close>

theorem timer_exact:
  assumes "set_expiration_timer (Some a) ms s = Inr ((), s1)" and "ms \<noteq> 0"
    and "run_thread (next_tid s) s1 = Inr ((), s2)"
    and "c0 = clock (world s) (ticks s)" and "c1 = clock (world s) (Suc (ticks s))"
    and "normalised c0" and "normalised c1"
    and "total_ns c0 \<le> total_ns c1" and "total_ns c1 \<le> total_ns c0 + uint ms * 1000000"
  shows "\<exists>d. threads s2 (next_tid s) = Some (Expiration_sleep a d) \<and>
    total_ns c1 + total_ns d = total_ns c0 + uint ms * 1000000 \<and> (nanosleep_ok d \<or> tv_nsec c1 = 0)"
proof -
  let ?until = "add_time_ms c0 ms"
  have t: "threads s1 (next_tid s) = Some (Expiration a)" "ticks s1 = Suc (ticks s)" "world s1 = world s"
    and e: "\<exists>e. heap s1 a = Some e \<and> time_out e = ?until"
    using timer_set[OF assms(1,2)] assms(4) by auto
  have "threads s2 (next_tid s) = Some (Expiration_sleep a (subtract_time c1 ?until))"
    using assms(3) t e
    by (auto simp: run_thread_def expiration_begin_def prog_simps bnd_Inr_iff deref_def clock_gettime_def
        set_thread_def assms(5) split: option.splits)
  moreover have total: "total_ns ?until = total_ns c0 + uint ms * 1000000" by (rule add_time_ms_total)
  moreover have range: "0 \<le> tv_nsec ?until" "tv_nsec ?until \<le> 1000000000"
    using add_time_ms_range[OF assms(6)] by auto
  have "total_ns c1 + total_ns (subtract_time c1 ?until) = total_ns ?until \<and>
      (nanosleep_ok (subtract_time c1 ?until) \<or> tv_nsec c1 = 0)"
  proof (cases "tv_sec ?until < tv_sec c1")
    case True
    then have "total_ns ?until \<le> total_ns c1" using range assms(7) by (simp add: total_ns_def normalised_def)
    then show ?thesis
      using subtract_time_earlier[OF True] total assms(9) by (simp add: total_ns_def nanosleep_ok_def normalised_def)
  next
    case False
    then have "total_ns c1 + total_ns (subtract_time c1 ?until) = total_ns ?until" by (simp add: subtract_time_later)
    moreover have "nanosleep_ok (subtract_time c1 ?until) \<or> tv_nsec c1 = 0"
      using False range assms(7,9) total
      by (auto simp: subtract_time_def Let_def nanosleep_ok_def normalised_def total_ns_def)
    ultimately show ?thesis by simp
  qed
  ultimately show ?thesis by simp
qed

lemma heard_timer:
  "case set_expiration_timer (Some 1) 3000 heard of Inl _ \<Rightarrow> False
   | Inr (_, s1) \<Rightarrow> returns (run_thread (next_tid heard) s1)"
  by code_simp

lemma fixed_run: "fixed (run as)"
  by (induction as) (auto intro: fixed_rules fixed_exec)

lemma heard_clock: "clock (world heard) n = \<lparr>tv_sec = int n, tv_nsec = 0\<rparr>"
proof -
  have "world (after as) = sample_world" for as
    using fixedD[OF fixed_run, of as sample_node]
    by (auto simp: after_def later_def sample_node_def main_init_def split: sum.split)
  then show ?thesis by (simp add: heard_def sample_world_def)
qed

theorem timer_exact_witness:
  "case set_expiration_timer (Some 1) 3000 heard of Inl _ \<Rightarrow> False
   | Inr (_, s1) \<Rightarrow> (case run_thread (next_tid heard) s1 of Inl _ \<Rightarrow> False
     | Inr (_, s2) \<Rightarrow> \<exists>d. threads s2 (next_tid heard) = Some (Expiration_sleep 1 d) \<and> total_ns d = 2000000000)"
proof -
  obtain s1 s2 where "set_expiration_timer (Some 1) 3000 heard = Inr ((), s1)" "run_thread (next_tid heard) s1 = Inr ((), s2)"
    using heard_timer by (auto dest!: returnsD split: sum.splits)
  with timer_exact[OF this(1) _ this(2) refl refl] show ?thesis
    by (auto simp: heard_clock normalised_def total_ns_def)
qed

section \<open>The count of active routes\<close>

text \<open>
  A request for this node of 12.0.0.1, that makes the route back active, and another one after the
  route expired.
\<close>

definition asking :: "u32 \<Rightarrow> rreq_header" where
  "asking n = sample_request\<lparr>rreq_dest_ip := 0x0A000001, rreq_rreq_id := n, rreq_src_seq := n\<rparr>"

definition active_again :: node where
  "active_again = moved (Run 1) (moved (Control_in 0x0B000001 (encode_rreq (asking 8)))
     (moved (Run 4) (moved (Run 4) (moved (Control_in 0x0B000001 (encode_rreq (asking 7))) sample_node))))"

lemma active_again_reachable: "reachable active_again"
proof -
  have "reachable sample_node" unfolding sample_node_def by (rule started)
  then show ?thesis unfolding active_again_def by (intro moved_reachable)
qed

lemma active_again_state:
  "active_routes active_again = 0 \<and>
   (case threads active_again 1 of Some (Hello_wait m) \<Rightarrow> True | _ \<Rightarrow> False) \<and>
   (case heap active_again 1 of None \<Rightarrow> False | Some e \<Rightarrow> status e = ROUTE_VALID \<and> active_route e = 1)"
  by code_simp

lemma hello_waits:
  "threads s 1 = Some (Hello_wait m) \<Longrightarrow> active_routes s = 0 \<Longrightarrow> run_thread 1 s = Inr ((), s)"
  by (simp add: run_thread_def hello_poll_def prog_simps)

text \<open>
  C26: Active routes are not counted right: a node can reach a state in which a route is valid and marked
  active, and yet the count of active routes is 0, so that the hello thread waits for ever. An entry
  keeps its mark when its route expires, and is not counted again when the route comes back.
\<close>

theorem active_routes_undercount:
  "\<exists>s. reachable s \<and> active_routes s = 0 \<and>
     (\<exists>a e. heap s a = Some e \<and> status e = ROUTE_VALID \<and> active_route e = 1) \<and>
     (\<exists>m. threads s 1 = Some (Hello_wait m)) \<and> run_thread 1 s = Inr ((), s)"
proof -
  obtain m e where "threads active_again 1 = Some (Hello_wait m)" "heap active_again 1 = Some e"
    "status e = ROUTE_VALID" "active_route e = 1" "active_routes active_again = 0"
    using active_again_state by (auto split: option.splits thread.splits)
  with active_again_reachable hello_waits show ?thesis by blast
qed

end
