(* ===== verification/Command_Infrastructure.thy ===== *)
theory Command_Infrastructure
  imports Prelude
begin

text \<open>
  The program of the test bed (\<open>command_infrastructure.c\<close>): it runs beside the daemon, sends a file
  to another node over TCP when it is told to, stores the files other nodes send, and logs the timing
  lines the daemon sends it over UDP. The sockets are given by what their calls return, the file
  system by what the files hold and which of them can be opened for writing.
\<close>

section \<open>Strings of the C library\<close>

type_synonym bytes = "u8 list"

text \<open>
  The string at the start of a buffer; \<open>sprintf\<close> with \<open>%ld\<close>; \<open>atoi\<close>. A string without its NUL
  is read past the end of the buffer. A value out of the range of \<open>int\<close> is undefined in \<open>atoi\<close>.
\<close>

definition c_string :: "bytes \<Rightarrow> fault + bytes" where
  "c_string buf = (if 0 \<in> set buf then Inr (takeWhile (\<lambda>b. b \<noteq> 0) buf) else Inl Out_of_bounds)"

fun digits :: "nat \<Rightarrow> bytes" where
  "digits n = (if n < 10 then [48 + of_nat n] else digits (n div 10) @ [48 + of_nat (n mod 10)])"

declare digits.simps [simp del]

definition sprintf_ld :: "int \<Rightarrow> bytes" where
  "sprintf_ld i = (if i < 0 then 45 # digits (nat (- i)) else digits (nat i))"

definition is_digit :: "u8 \<Rightarrow> bool" where
  "is_digit b \<longleftrightarrow> 48 \<le> b \<and> b \<le> 57"

definition is_space :: "u8 \<Rightarrow> bool" where
  "is_space b \<longleftrightarrow> b = 32 \<or> (9 \<le> b \<and> b \<le> 13)"

primrec atoi_digits :: "int \<Rightarrow> bytes \<Rightarrow> fault + int" where
  "atoi_digits acc [] = Inl Out_of_bounds"
| "atoi_digits acc (b # bs) = (if is_digit b then atoi_digits (10 * acc + (uint b - 48)) bs else Inr acc)"

definition atoi :: "bytes \<Rightarrow> fault + int" where
  "atoi buf = (case dropWhile is_space buf of
       [] \<Rightarrow> Inl Out_of_bounds
     | b # bs \<Rightarrow>
         (case (if b = 45 \<or> b = 43 then atoi_digits 0 bs else atoi_digits 0 (b # bs)) of
            Inl f \<Rightarrow> Inl f
          | Inr i \<Rightarrow> let i = (if b = 45 then - i else i) in
              if in_int32 i then Inr i else Inl Signed_overflow))"

section \<open>What a socket returns\<close>

text \<open>A call of \<open>recv\<close> or \<open>read\<close>: some bytes, 0 at the end of the stream, or -1.\<close>

datatype received = Got bytes | Eof | Failed

definition recv_into :: "received \<Rightarrow> nat \<Rightarrow> bytes \<Rightarrow> bytes" where
  "recv_into r n buf = (case r of Got bs \<Rightarrow> take n bs @ drop (length (take n bs)) buf | _ \<Rightarrow> buf)"

definition write_at :: "bytes \<Rightarrow> nat \<Rightarrow> bytes \<Rightarrow> bytes" where
  "write_at file i bs = take i file @ bs @ drop (i + length bs) file"

section \<open>Sending a file (the loop of \<open>main\<close>)\<close>

text \<open>
  The paths of a session that started at a time: the folder, the capture, the log, the output of the
  daemon.
\<close>

definition session_paths :: "int \<Rightarrow> bytes \<times> bytes \<times> bytes \<times> bytes" where
  "session_paths now =
     (let folder = sprintf_ld now @ [47];
          path = (\<lambda>name. folder @ map (of_nat \<circ> of_char) name)
      in (folder, path ''capture.pcap'', path ''log.txt'', path ''AODV.txt''))"

text \<open>
  \<open>scanf\<close> reads the name into 100 bytes without a bound. A file that cannot be opened is a null
  pointer, which the test \<open>fopen(...) < 0\<close> lets through. \<open>ack\<close> is what the 30 bytes of that
  buffer held before. The result are the three blocks that are sent.
\<close>

definition send_file :: "bytes \<Rightarrow> bytes \<Rightarrow> bytes option \<Rightarrow> fault + bytes list" where
  "send_file ack name file =
     (if 100 \<le> length name then Inl Out_of_bounds
      else case file of None \<Rightarrow> Inl Null_deref
      | Some contents \<Rightarrow>
          let ack = write_at ack 0 (sprintf_ld (int (length contents)) @ [0])
          in Inr [ack, name @ [0], contents])"

section \<open>Receiving files (\<open>net_input_thread\<close>)\<close>

text \<open>
  \<open>read_amount\<close> is set nowhere, not for the thread and not for a connection. A connection returns
  \<open>False\<close> when the thread waits for more than the given calls return.
\<close>

record receiver =
  r_buffer :: bytes
  read_amount :: int
  r_files :: "(bytes \<times> bytes) list"

primrec read_loop :: "received list \<Rightarrow> int \<Rightarrow> int \<Rightarrow> bytes \<Rightarrow> fault + (int \<times> bytes) option" where
  "read_loop [] file_size amount file =
     Inr (if amount < file_size then None else Some (amount, file))"
| "read_loop (r # rs) file_size amount file =
     (if amount < file_size then
        case r of
          Got bs \<Rightarrow>
            (let bs = take (nat file_size) bs in
             if 0 \<le> amount \<and> nat amount + length bs \<le> length file
             then read_loop rs file_size (amount + int (length bs)) (write_at file (nat amount) bs)
             else Inl Out_of_bounds)
        | Eof \<Rightarrow> read_loop rs file_size amount file
        | Failed \<Rightarrow> read_loop rs file_size (amount - 1) file
      else Inr (Some (amount, file)))"

text \<open>
  One round of the loop, with the results of its calls of \<open>recv\<close> and \<open>read\<close>, what \<open>malloc\<close> left
  in the memory it returns, and the names that can be opened. A negative size makes \<open>malloc\<close>
  return a null pointer.
\<close>

definition net_input_connection ::
  "(nat \<Rightarrow> u8) \<Rightarrow> (bytes \<Rightarrow> bool) \<Rightarrow> received list \<Rightarrow> (receiver, bool) prog" where
  "net_input_connection junk openable rs =
     (case rs of [] \<Rightarrow> ret False
      | r # rs \<Rightarrow>
        sq (modify (\<lambda>s. s\<lparr>r_buffer := recv_into r 99 (r_buffer s)\<rparr>))
        (bnd (gets r_buffer) (\<lambda>buffer.
         bnd (lift_sum (atoi buffer)) (\<lambda>file_size.
         case rs of [] \<Rightarrow> ret False
         | r # rs \<Rightarrow>
           sq (modify (\<lambda>s. s\<lparr>r_buffer := recv_into r 99 (r_buffer s)\<rparr>))
           (bnd (gets r_buffer) (\<lambda>buffer.
            bnd (lift_sum (c_string buffer)) (\<lambda>name.
            if file_size < 0 then fail Null_deref
            else
              bnd (gets read_amount) (\<lambda>amount.
              bnd (lift_sum (read_loop rs file_size amount (map junk [0..<nat file_size]))) (\<lambda>result.
              case result of None \<Rightarrow> ret False
              | Some (amount, file) \<Rightarrow>
                  sq (modify (\<lambda>s. s\<lparr>read_amount := amount\<rparr>))
                  (if openable name
                   then sq (modify (\<lambda>s. s\<lparr>r_files := r_files s @ [(name, file)]\<rparr>)) (ret True)
                   else fail Null_deref))))))))))"

section \<open>Logging (\<open>timing_thread\<close>)\<close>

text \<open>
  The message buffer keeps what earlier datagrams left in it. \<open>printf\<close> is called with the message as
  its format.
\<close>

record logger =
  l_message :: bytes
  l_lines :: "bytes list"

fun printf :: "bytes \<Rightarrow> fault + bytes" where
  "printf [] = Inr []"
| "printf (b # bs) =
     (if b = 37 then (case bs of [] \<Rightarrow> Inl Format_argument
        | c # cs \<Rightarrow> if c = 37 then map_sum id ((#) 37) (printf cs) else Inl Format_argument)
      else map_sum id ((#) b) (printf bs))"

definition timing_datagram :: "bytes \<Rightarrow> (logger, unit) prog" where
  "timing_datagram datagram =
     sq (modify (\<lambda>s. s\<lparr>l_message := recv_into (Got datagram) 1024 (l_message s)\<rparr>))
     (when_p (datagram \<noteq> [])
        (bnd (gets l_message) (\<lambda>message.
         when_p (message ! 0 = 0x5b)
           (sq (modify (\<lambda>s. s\<lparr>l_message := (l_message s)[81 := 0]\<rparr>))
           (bnd (gets l_message) (\<lambda>message.
            bnd (lift_sum (c_string message)) (\<lambda>format.
            bnd (lift_sum (printf format)) (\<lambda>line.
            modify (\<lambda>s. s\<lparr>l_lines := l_lines s @ [line]\<rparr>)))))))))"

primrec timing_datagrams :: "bytes list \<Rightarrow> (logger, unit) prog" where
  "timing_datagrams [] = ret ()"
| "timing_datagrams (d # ds) = sq (timing_datagram d) (timing_datagrams ds)"

section \<open>Numbers as text\<close>

lemma digit_char:
  assumes "k < 10"
  shows "is_digit (48 + of_nat k)" and "uint (48 + of_nat k :: u8) = 48 + int k"
proof -
  have "uint (48 + word_of_nat k :: u8) = 48 + int k"
    using assms by (simp add: uint_word_ariths unsigned_of_nat take_bit_nat_eq_self)
  then show "uint (48 + of_nat k :: u8) = 48 + int k" "is_digit (48 + of_nat k)"
    using assms by (simp_all add: is_digit_def word_le_def)
qed

lemma atoi_digits_append:
  "atoi_digits acc (digits n @ bs) = atoi_digits (acc * 10 ^ length (digits n) + int n) bs"
proof (induction n arbitrary: acc bs rule: digits.induct)
  case (1 n)
  show ?case
  proof (cases "n < 10")
    case True
    then show ?thesis by (simp add: digits.simps[of n] digit_char mult.commute)
  next
    case False
    have "int n = 10 * int (n div 10) + int (n mod 10)"
      using mult_div_mod_eq[of 10 n] by linarith
    then have step: "10 * (acc * 10 ^ length (digits (n div 10)) + int (n div 10)) + int (n mod 10) =
        acc * 10 ^ length (digits n) + int n"
      using False by (simp only: digits.simps[of n] if_False) (simp add: algebra_simps)
    have "digits n @ bs = digits (n div 10) @ (48 + of_nat (n mod 10)) # bs"
      using False by (simp add: digits.simps[of n])
    then have "atoi_digits acc (digits n @ bs) =
        atoi_digits (acc * 10 ^ length (digits (n div 10)) + int (n div 10)) ((48 + of_nat (n mod 10)) # bs)"
      using "1"[OF False] by (simp only:)
    also have "\<dots> = atoi_digits (acc * 10 ^ length (digits n) + int n) bs"
      unfolding step[symmetric] using digit_char[of "n mod 10"] by simp
    finally show ?thesis .
  qed
qed

lemma digits_first: "\<exists>b bs. digits n = b # bs \<and> is_digit b"
proof (induction n rule: digits.induct)
  case (1 n)
  then show ?case by (cases "n < 10") (auto simp: digits.simps[of n] digit_char)
qed

lemma digit_no_prefix: "is_digit b \<Longrightarrow> \<not> is_space b \<and> b \<noteq> 45 \<and> b \<noteq> 43"
  by (auto simp: is_digit_def is_space_def word_le_nat_alt)

lemma atoi_printed:
  assumes "int n < 2 ^ 31"
  shows "atoi (digits n @ 0 # rest) = Inr (int n)"
proof -
  obtain b bs where d: "digits n = b # bs" "is_digit b" using digits_first by blast
  have "atoi_digits 0 (b # bs @ 0 # rest) = Inr (int n)"
    using atoi_digits_append[of 0 n "0 # rest"] d(1) by (simp add: is_digit_def)
  then show ?thesis
    using digit_no_prefix[OF d(2)] assms by (simp add: atoi_def d(1) in_int32_def)
qed

lemma length_digits: "n < 10 ^ Suc k \<Longrightarrow> length (digits n) \<le> Suc k"
proof (induction k arbitrary: n)
  case 0
  then show ?case by (simp add: digits.simps[of n])
next
  case (Suc k)
  then have "n div 10 < 10 ^ Suc k" by (simp add: less_mult_imp_div_less mult.commute)
  from Suc.IH[OF this] show ?case by (simp add: digits.simps[of n])
qed

section \<open>A file from one node to another\<close>

lemma write_at_prefix:
  "i + length bs \<le> length file \<Longrightarrow> take (i + length bs) (write_at file i bs) = take i file @ bs"
  by (cases bs) (auto simp: write_at_def min_def)

lemma length_write_at: "i + length bs \<le> length file \<Longrightarrow> length (write_at file i bs) = length file"
  by (simp add: write_at_def)

lemma read_loop_chunks:
  "i + length (concat chunks) = length buf \<Longrightarrow>
     read_loop (map Got chunks) (int (length buf)) (int i) buf =
       Inr (Some (int (length buf), take i buf @ concat chunks))"
proof (induction chunks arbitrary: i buf)
  case Nil
  then show ?case by simp
next
  case (Cons c chunks)
  show ?case
  proof (cases "i < length buf")
    case False
    then have "c = []" "concat chunks = []" using Cons.prems by (cases c; cases "concat chunks"; simp)+
    then show ?thesis using False Cons.prems by simp
  next
    case True
    have fits: "i + length c \<le> length buf" using Cons.prems by simp
    have "take (length buf) c = c" using fits by simp
    moreover have "read_loop (map Got chunks) (int (length buf)) (int i + int (length c)) (write_at buf i c) =
        Inr (Some (int (length buf), take i buf @ c @ concat chunks))"
      using Cons.IH[of "i + length c" "write_at buf i c"] Cons.prems
      by (simp add: length_write_at[OF fits] write_at_prefix[OF fits])
    ultimately show ?thesis using True fits by simp
  qed
qed

text \<open>The blocks of a sender, and the first two of them in the buffer of the receiver.\<close>

lemma send_file_blocks:
  assumes "send_file ack name (Some contents) = Inr blocks"
  shows "length name < 100 \<and>
    blocks = [write_at ack 0 (digits (length contents) @ [0]), name @ [0], contents]"
  using assms by (simp add: send_file_def sprintf_ld_def Let_def split: if_splits)

lemma size_received:
  assumes "length contents < 2 ^ 31" and "length ack = 30"
  shows "atoi (recv_into (Got (write_at ack 0 (digits (length contents) @ [0]))) 99 buf) =
    Inr (int (length contents))"
proof -
  have "length (digits (length contents)) \<le> Suc 9"
    by (rule length_digits) (use assms(1) in simp)
  then have "recv_into (Got (write_at ack 0 (digits (length contents) @ [0]))) 99 buf =
      digits (length contents) @ 0 # (drop (Suc (length (digits (length contents)))) ack @ drop 30 buf)"
    using assms(2) by (simp add: recv_into_def write_at_def)
  then show ?thesis using atoi_printed[of "length contents"] assms(1) by simp
qed

lemma name_received:
  assumes "length name < 99" and "0 \<notin> set name"
  shows "c_string (recv_into (Got (name @ [0])) 99 buf) = Inr name"
proof -
  have "takeWhile (\<lambda>b. b \<noteq> 0) (name @ 0 # rest) = name" for rest
    using assms(2) by (induction name) auto
  then show ?thesis using assms by (simp add: c_string_def recv_into_def)
qed

text \<open>A connection on which the first two calls return the first two blocks.\<close>

lemma connection_received:
  assumes "send_file ack name (Some contents) = Inr [b1, b2, b3]"
    and "length ack = 30" and "0 \<notin> set name" and "length name < 99" and "length contents < 2 ^ 31"
    and "openable name"
    and "read_loop rs (int (length contents)) (read_amount s) (map junk [0..<length contents]) =
      Inr (Some (amount, received))"
  shows "net_input_connection junk openable (Got b1 # Got b2 # rs) s =
    Inr (True, s\<lparr>r_buffer := recv_into (Got b2) 99 (recv_into (Got b1) 99 (r_buffer s)),
      read_amount := amount, r_files := r_files s @ [(name, received)]\<rparr>)"
proof -
  have b: "b1 = write_at ack 0 (digits (length contents) @ [0])" "b2 = name @ [0]"
    using send_file_blocks[OF assms(1)] by simp_all
  show ?thesis
    using assms(6,7) size_received[OF assms(5,2), folded b(1)] name_received[OF assms(4,3), folded b(2)]
    by (simp add: net_input_connection_def prog_simps lift_sum_def)
qed

lemma file_received:
  assumes "send_file ack name (Some contents) = Inr [b1, b2, b3]"
    and "length ack = 30" and "0 \<notin> set name" and "length name < 99" and "length contents < 2 ^ 31"
    and "openable name" and "concat chunks = b3" and "read_amount s = 0"
  shows "\<exists>s'. net_input_connection junk openable (Got b1 # Got b2 # map Got chunks) s = Inr (True, s') \<and>
    r_files s' = r_files s @ [(name, contents)] \<and> read_amount s' = int (length contents)"
proof -
  have "concat chunks = contents" using send_file_blocks[OF assms(1)] assms(7) by simp
  then have "read_loop (map Got chunks) (int (length contents)) (read_amount s) (map junk [0..<length contents]) =
      Inr (Some (int (length contents), contents))"
    using read_loop_chunks[of 0 chunks "map junk [0..<length contents]"] assms(8) by simp
  from connection_received[where openable = openable and junk = junk, OF assms(1-6) this] show ?thesis by simp
qed


text \<open>Samples: a file \<open>a\<close> of the bytes 1, 2, 3, its blocks, and a thread that has received nothing.\<close>

definition sample_receiver :: receiver where
  "sample_receiver = \<lparr>r_buffer = replicate 100 7, read_amount = 0, r_files = []\<rparr>"

lemma sample_blocks:
  "send_file (replicate 30 9) [97] (Some [1, 2, 3]) = Inr [[51, 0] @ replicate 28 9, [97, 0], [1, 2, 3]]"
  by (simp add: send_file_def sprintf_ld_def digits.simps[of 3] Let_def write_at_def)


text \<open>
  C28: \<open>read_amount\<close> is not set back: after one file, a file that is no longer than it is stored as
  what \<open>malloc\<close> left in memory, and none of the bytes that were sent for it are read.
\<close>

theorem second_file_lost:
  assumes "send_file ack name (Some contents) = Inr [b1, b2, b3]"
    and "length ack = 30" and "0 \<notin> set name" and "length name < 99" and "length contents < 2 ^ 31"
    and "openable name" and "int (length contents) \<le> read_amount s"
  shows "\<exists>s'. net_input_connection junk openable (Got b1 # Got b2 # rs) s = Inr (True, s') \<and>
    r_files s' = r_files s @ [(name, map junk [0..<length contents])] \<and> read_amount s' = read_amount s"
proof -
  have "read_loop rs (int (length contents)) (read_amount s) (map junk [0..<length contents]) =
      Inr (Some (read_amount s, map junk [0..<length contents]))"
    using assms(7) by (cases rs) simp_all
  from connection_received[where openable = openable and junk = junk, OF assms(1-6) this] show ?thesis by simp
qed

theorem second_file_lost_witness:
  "\<exists>s'. net_input_connection (\<lambda>_. 5) (\<lambda>_. True)
     (Got ([51, 0] @ replicate 28 9) # Got [97, 0] # [Got [1, 2, 3]]) (sample_receiver\<lparr>read_amount := 4\<rparr>) =
       Inr (True, s') \<and>
   r_files s' = [([97], [5, 5, 5])]"
proof -
  have "\<exists>s'. net_input_connection (\<lambda>_. 5) (\<lambda>_. True)
      (Got ([51, 0] @ replicate 28 9) # Got [97, 0] # [Got [1, 2, 3]]) (sample_receiver\<lparr>read_amount := 4\<rparr>) =
        Inr (True, s') \<and>
    r_files s' = r_files (sample_receiver\<lparr>read_amount := 4\<rparr>) @
      [([97], map (\<lambda>_. 5) [0..<length [1, 2, 3 :: u8]])] \<and>
    read_amount s' = read_amount (sample_receiver\<lparr>read_amount := 4\<rparr>)"
    by (rule second_file_lost[OF sample_blocks]) simp_all
  then show ?thesis by (auto simp: sample_receiver_def upt_rec)
qed

section \<open>The log\<close>

lemma printf_plain: "37 \<notin> set bs \<Longrightarrow> printf bs = Inr bs"
  by (induction bs) auto

lemma timing_datagram_line:
  assumes "length (l_message s) = 1024" and "length d \<le> 1024" and "d \<noteq> []"
    and "hd d = 0x5b \<Longrightarrow> 0 \<in> set (take 81 d) \<and> 37 \<notin> set (takeWhile (\<lambda>b. b \<noteq> 0) d)"
  shows "\<exists>msg. timing_datagram d s = Inr ((), s\<lparr>l_message := msg, l_lines := l_lines s @
      (if hd d = 0x5b then [takeWhile (\<lambda>b. b \<noteq> 0) d] else [])\<rparr>) \<and> length msg = 1024"
proof -
  let ?m = "d @ drop (length d) (l_message s)"
  have m: "recv_into (Got d) 1024 (l_message s) = ?m" "length ?m = 1024" "?m ! 0 = hd d"
    using assms(1-3) by (auto simp: recv_into_def hd_conv_nth nth_append)
  show ?thesis
  proof (cases "hd d = 0x5b")
    case False
    then show ?thesis using m assms(3)
      by (intro exI[of _ ?m]) (simp add: timing_datagram_def prog_simps)
  next
    case True
    have "0 \<in> set (take 81 d)" and plain: "37 \<notin> set (takeWhile (\<lambda>b. b \<noteq> 0) d)"
      using assms(4)[OF True] by simp_all
    then obtain i where i: "i < 81" "i < length d" "d ! i = 0" by (auto simp: in_set_conv_nth)
    have "take (Suc i) (?m[81 := 0]) = take (Suc i) d" using i by simp
    then obtain rest where rest: "?m[81 := 0] = take (Suc i) d @ rest"
      by (metis append_take_drop_id)
    have z: "0 \<in> set (take (Suc i) d)" using i by (auto simp: in_set_conv_nth intro!: exI[of _ i])
    have "takeWhile (\<lambda>b. b \<noteq> 0) (take (Suc i) d @ xs) = takeWhile (\<lambda>b. b \<noteq> 0) (take (Suc i) d)" for xs
      by (rule takeWhile_append1[OF z]) simp
    from this[of rest] this[of "drop (Suc i) d"]
    have "takeWhile (\<lambda>b. b \<noteq> 0) (?m[81 := 0]) = takeWhile (\<lambda>b. b \<noteq> 0) d"
      unfolding rest by simp
    then have "c_string (?m[81 := 0]) = Inr (takeWhile (\<lambda>b. b \<noteq> 0) d)"
      using z rest by (simp add: c_string_def)
    then show ?thesis
      using m True assms(3) printf_plain[OF plain]
      by (intro exI[of _ "?m[81 := 0]"]) (simp add: timing_datagram_def prog_simps lift_sum_def)
  qed
qed

text \<open>
  The log holds the texts of the datagrams that start with a bracket, in the order they came: each
  without what earlier ones left in the buffer, if it ends within 81 bytes and has no percent sign.
\<close>

theorem timing_log:
  assumes "length (l_message s) = 1024"
    and "\<And>d. d \<in> set ds \<Longrightarrow> d \<noteq> [] \<and> length d \<le> 1024 \<and>
      (hd d = 0x5b \<longrightarrow> 0 \<in> set (take 81 d) \<and> 37 \<notin> set (takeWhile (\<lambda>b. b \<noteq> 0) d))"
  shows "\<exists>s'. timing_datagrams ds s = Inr ((), s') \<and>
    l_lines s' = l_lines s @ map (takeWhile (\<lambda>b. b \<noteq> 0)) (filter (\<lambda>d. hd d = 0x5b) ds)"
  using assms
proof (induction ds arbitrary: s)
  case Nil
  then show ?case by (simp add: prog_simps)
next
  case (Cons d ds)
  have d: "length d \<le> 1024" "d \<noteq> []" "hd d = 0x5b \<Longrightarrow> 0 \<in> set (take 81 d) \<and> 37 \<notin> set (takeWhile (\<lambda>b. b \<noteq> 0) d)"
    using Cons.prems(2)[of d] by simp_all
  obtain msg where msg: "length msg = 1024" "timing_datagram d s = Inr ((), s\<lparr>l_message := msg,
      l_lines := l_lines s @ (if hd d = 0x5b then [takeWhile (\<lambda>b. b \<noteq> 0) d] else [])\<rparr>)" (is "_ = Inr ((), ?s)")
    using timing_datagram_line[OF Cons.prems(1) d] by blast
  have "length (l_message ?s) = 1024" using msg(1) by simp
  from Cons.IH[OF this] Cons.prems(2) obtain s' where "timing_datagrams ds ?s = Inr ((), s')"
    "l_lines s' = l_lines ?s @ map (takeWhile (\<lambda>b. b \<noteq> 0)) (filter (\<lambda>d. hd d = 0x5b) ds)" by auto
  then show ?case using msg(2) by (simp add: prog_simps)
qed

theorem timing_log_witness:
  "\<exists>s'. timing_datagrams [[0x5b, 65, 0], [1, 2], [0x5b, 0]] \<lparr>l_message = replicate 1024 9, l_lines = []\<rparr> =
     Inr ((), s') \<and> l_lines s' = [[0x5b, 65], [0x5b]]"
proof -
  have "\<exists>s'. timing_datagrams [[0x5b, 65, 0], [1, 2], [0x5b, 0]] \<lparr>l_message = replicate 1024 9, l_lines = []\<rparr> =
      Inr ((), s') \<and> l_lines s' = l_lines \<lparr>l_message = replicate 1024 9, l_lines = []\<rparr> @
        map (takeWhile (\<lambda>b. b \<noteq> 0)) (filter (\<lambda>d. hd d = 0x5b) [[0x5b, 65, 0], [1, 2], [0x5b, 0]])"
    by (rule timing_log) auto
  then show ?thesis by simp
qed

end
