(* ===== verification/File_Exchange.thy ===== *)
theory File_Exchange
  imports Command_Infrastructure
begin

text \<open>
  The test bed program as a whole: how a session starts, the loop in which \<open>main\<close> sends files, the
  logging thread with its ends, and a transfer between two nodes, with both sides and the stream between
  them.
\<close>

section \<open>Starting a session\<close>

text \<open>
  What a process does until it reaches the loop. \<open>fork\<close> returns 0 in the child, which runs its command
  and then goes on like its parent: nothing ends it.
\<close>

datatype os_call = Mkdir bytes | Run_capture bytes | Run_daemon bytes | Log_to bytes | Start_timing | Start_net_input

definition start_session :: "int \<Rightarrow> bool \<Rightarrow> bool \<Rightarrow> bool \<Rightarrow> os_call list" where
  "start_session now folder_exists first_child second_child =
     (let (folder, pcap_path, output_path, aodv_path) = session_paths now in
      (if folder_exists then [] else [Mkdir folder]) @
      (if first_child then [Run_capture pcap_path] else []) @
      (if second_child then [Run_daemon aodv_path] else []) @
      [Log_to output_path, Start_timing, Start_net_input])"

text \<open>The processes there are when both commands have ended: every fork has returned twice.\<close>

definition session_processes :: "int \<Rightarrow> bool \<Rightarrow> os_call list list" where
  "session_processes now folder_exists = map (\<lambda>(first_child, second_child).
     start_session now folder_exists first_child second_child)
     [(False, False), (False, True), (True, False), (True, True)]"

lemma children_go_on:
  "length (filter (\<lambda>p. Start_net_input \<in> set p) (session_processes now folder_exists)) = 4"
  "length (filter (\<lambda>p. \<exists>f. Run_daemon f \<in> set p) (session_processes now folder_exists)) = 2"
  by (simp_all add: session_processes_def start_session_def split_def Let_def)

section \<open>The loop of \<open>main\<close>\<close>

definition text_of :: "string \<Rightarrow> bytes" where
  "text_of = map (of_nat \<circ> of_char)"

definition CLOCKS_PER_SEC :: int where
  "CLOCKS_PER_SEC = 1000000"

record sender =
  s_ack :: bytes
  s_sent :: "bytes list"
  s_log :: "bytes list"

definition send_block :: "bytes \<Rightarrow> (sender, unit) prog" where
  "send_block bs = modify (\<lambda>s. s\<lparr>s_sent := s_sent s @ [bs]\<rparr>)"

definition log_line :: "bytes \<Rightarrow> (sender, unit) prog" where
  "log_line bs = modify (\<lambda>s. s\<lparr>s_log := s_log s @ [bs]\<rparr>)"

definition recv_ack :: "received \<Rightarrow> (sender, unit) prog" where
  "recv_ack r = modify (\<lambda>s. s\<lparr>s_ack := recv_into r 30 (s_ack s)\<rparr>)"

text \<open>\<open>connect\<close> is called until it succeeds; \<open>False\<close>: it has not yet.\<close>

primrec connect_loop :: "bool list \<Rightarrow> (sender, bool) prog" where
  "connect_loop [] = ret False"
| "connect_loop (ok # oks) =
     (if ok then ret True else sq (log_line (text_of ''Initial Connection Failed'')) (connect_loop oks))"

text \<open>
  One round: what \<open>scanf\<close> reads, what the calls of \<open>connect\<close> return, how \<open>inet_ntoa\<close> prints the
  address, what the file holds, what the two calls of \<open>recv\<close> return, and the two readings of \<open>clock\<close>.
\<close>

record round =
  addr_buffer :: bytes
  file_name :: bytes
  connects :: "bool list"
  peer :: bytes
  contents :: "bytes option"
  first_ack :: received
  last_ack :: received
  start :: int
  stop :: int

definition main_round :: "round \<Rightarrow> (sender, bool) prog" where
  "main_round i =
     (if 100 \<le> length (addr_buffer i) \<or> 100 \<le> length (file_name i) then fail Out_of_bounds
      else
        bnd (connect_loop (connects i)) (\<lambda>connected.
        if \<not> connected then ret False
        else
          sq (log_line (text_of ''Connected to '' @ peer i))
          (case contents i of None \<Rightarrow> fail Null_deref
           | Some file \<Rightarrow>
             let file_size = int (length file); diff = stop i - start i;
                 msec = diff * 1000 sdiv CLOCKS_PER_SEC in
             sq (modify (\<lambda>s. s\<lparr>s_ack := write_at (s_ack s) 0 (sprintf_ld file_size @ [0])\<rparr>))
             (bnd (gets s_ack) (\<lambda>ack.
              sq (send_block ack)
              (sq (send_block (file_name i @ [0]))
              (sq (recv_ack (first_ack i))
              (sq (send_block file)
              (sq (recv_ack (last_ack i))
              (bnd (gets s_ack) (\<lambda>ack.
               bnd (lift_sum (c_string ack)) (\<lambda>_.
               sq (log_line (text_of ''Time taken for '' @ sprintf_ld file_size @ text_of ''Bytes file '' @
                     sprintf_ld diff @ text_of ''/'' @ sprintf_ld CLOCKS_PER_SEC @ text_of '' s''))
               (sq (log_line (text_of ''Total Time = '' @ sprintf_ld msec @ text_of ''ms''))
               (ret True))))))))))))))"

section \<open>The logging thread\<close>

datatype thread_end = No_socket | No_bind | Read_error | Waiting_still

primrec timing_loop :: "received list \<Rightarrow> (logger, thread_end) prog" where
  "timing_loop [] = ret Waiting_still"
| "timing_loop (r # rs) = (case r of
       Failed \<Rightarrow> ret Read_error
     | Got d \<Rightarrow> sq (timing_datagram d) (timing_loop rs)
     | Eof \<Rightarrow> sq (timing_datagram []) (timing_loop rs))"

definition timing_thread :: "bool \<Rightarrow> bool \<Rightarrow> received list \<Rightarrow> (logger, thread_end) prog" where
  "timing_thread socket_ok bind_ok rs =
     (if \<not> socket_ok then ret No_socket
      else if \<not> bind_ok then ret No_bind
      else timing_loop rs)"

section \<open>What a round does\<close>

lemma connect_loop_run:
  "connect_loop oks s = Inr (True \<in> set oks, s\<lparr>s_log := s_log s @
     replicate (length (takeWhile Not oks)) (text_of ''Initial Connection Failed'')\<rparr>)"
  by (induction oks arbitrary: s) (simp_all add: prog_simps log_line_def)

text \<open>The blocks of a round are those of \<open>send_file\<close>.\<close>

lemma main_round_blocks:
  assumes "main_round i s = Inr (True, s')"
  shows "\<exists>blocks. send_file (s_ack s) (file_name i) (contents i) = Inr blocks \<and> s_sent s' = s_sent s @ blocks"
proof (cases "contents i")
  case None
  with assms show ?thesis
    by (simp add: main_round_def bnd_eqs connect_loop_run prog_simps log_line_def split: if_splits)
next
  case (Some cs)
  with assms show ?thesis
    by (auto simp: main_round_def bnd_eqs connect_loop_run prog_simps log_line_def send_block_def recv_ack_def
        Let_def lift_sum_def c_string_def send_file_def split: if_splits)
qed

section \<open>Both sides\<close>

text \<open>
  A transfer of the blocks \<open>bs\<close> to the thread of another node. \<open>sent\<close> and \<open>answered\<close>: the calls of
  \<open>send\<close> and \<open>recv\<close> the sender has done; \<open>stream\<close>: the bytes on their way; \<open>results\<close>: what the calls of
  the receiver returned; \<open>acks\<close>: the acknowledgements it sent; \<open>replies\<close>: their bytes on their way back.
\<close>

record exchange =
  sent :: nat
  answered :: nat
  stream :: bytes
  results :: "received list"
  acks :: nat
  replies :: bytes

definition exchange_start :: exchange where
  "exchange_start = \<lparr>sent = 0, answered = 0, stream = [], results = [], acks = 0, replies = []\<rparr>"

text \<open>What the receiver has come to, and how many bytes it asks for next.\<close>

definition receiver_state :: "(bytes \<Rightarrow> bool) \<Rightarrow> receiver \<Rightarrow> exchange \<Rightarrow> fault + bool" where
  "receiver_state openable r x = map_sum id fst (net_input_connection (\<lambda>_. 0) openable (results x) r)"

definition asks_for :: "receiver \<Rightarrow> exchange \<Rightarrow> nat" where
  "asks_for r x = (if length (results x) < 2 then 99
     else case results x of [] \<Rightarrow> 99 | first # _ \<Rightarrow>
       (case atoi (recv_into first 99 (r_buffer r)) of Inl _ \<Rightarrow> 0 | Inr n \<Rightarrow> nat n))"

text \<open>
  The steps. A call of \<open>recv\<close> returns any number of the bytes that are there. The receiver sends its first
  acknowledgement after two calls, the second one when it has the file; then it closes the connection,
  and \<open>recv\<close> returns 0.
\<close>

inductive exchange_step :: "bytes list \<Rightarrow> (bytes \<Rightarrow> bool) \<Rightarrow> receiver \<Rightarrow> exchange \<Rightarrow> exchange \<Rightarrow> bool"
  for bs :: "bytes list" and openable :: "bytes \<Rightarrow> bool" and r :: receiver
where
  send_next: "sent x < 2 \<or> sent x = 2 \<and> answered x = 1 \<Longrightarrow>
    exchange_step bs openable r x (x\<lparr>sent := Suc (sent x), stream := stream x @ bs ! sent x\<rparr>)"
| get_answer: "sent x = answered x + 2 \<Longrightarrow> 0 < k \<Longrightarrow> k \<le> 30 \<Longrightarrow> k \<le> length (replies x) \<Longrightarrow>
    exchange_step bs openable r x (x\<lparr>answered := Suc (answered x), replies := drop k (replies x)\<rparr>)"
| get_end: "sent x = answered x + 2 \<Longrightarrow> replies x = [] \<Longrightarrow> acks x = 2 \<Longrightarrow>
    exchange_step bs openable r x (x\<lparr>answered := Suc (answered x)\<rparr>)"
| receive: "receiver_state openable r x = Inr False \<Longrightarrow> length (results x) < 2 \<or> acks x = 1 \<Longrightarrow>
    0 < k \<Longrightarrow> k \<le> asks_for r x \<Longrightarrow> k \<le> length (stream x) \<Longrightarrow>
    exchange_step bs openable r x (x\<lparr>results := results x @ [Got (take k (stream x))], stream := drop k (stream x)\<rparr>)"
| acknowledge: "length (results x) = 2 \<Longrightarrow> acks x = 0 \<Longrightarrow> receiver_state openable r x = Inr b \<Longrightarrow>
    exchange_step bs openable r x (x\<lparr>acks := 1, replies := replies x @ text_of ''Acknowledged'' @ [0]\<rparr>)"
| finish: "acks x = 1 \<Longrightarrow> receiver_state openable r x = Inr True \<Longrightarrow>
    exchange_step bs openable r x (x\<lparr>acks := 2, replies := replies x @ text_of ''Acknowledged'' @ [0]\<rparr>)"

inductive exchanges :: "bytes list \<Rightarrow> (bytes \<Rightarrow> bool) \<Rightarrow> receiver \<Rightarrow> exchange \<Rightarrow> bool"
  for bs :: "bytes list" and openable :: "bytes \<Rightarrow> bool" and r :: receiver
where
  exchange_begin: "exchanges bs openable r exchange_start"
| exchange_next: "exchanges bs openable r x \<Longrightarrow> exchange_step bs openable r x y \<Longrightarrow> exchanges bs openable r y"

text \<open>
  C22: A transfer can come to a stop for ever: if the first \<open>recv\<close> of the receiver returns the size and the
  name together, which a stream may do when both fit into its 99 bytes, neither side can go on; the
  sender waits for the acknowledgement, the receiver for the name.
\<close>

theorem exchange_deadlock:
  assumes "send_file ack name (Some file) = Inr [b1, b2, b3]" and "length ack = 30" and "length name \<le> 68"
    and "length file < 2 ^ 31"
  shows "\<exists>x. exchanges [b1, b2, b3] openable r x \<and> results x = [Got (b1 @ b2)] \<and> answered x = 0 \<and>
    (\<forall>y. \<not> exchange_step [b1, b2, b3] openable r x y)"
proof -
  have b: "b1 = write_at ack 0 (digits (length file) @ [0])" "b2 = name @ [0]"
    using send_file_blocks[OF assms(1)] by simp_all
  have "length (digits (length file)) \<le> Suc 9" by (rule length_digits) (use assms(4) in simp)
  then have len: "0 < length (b1 @ b2)" "length (b1 @ b2) \<le> 99"
    using assms(2,3) by (simp_all add: b write_at_def)
  let ?x0 = exchange_start
  let ?x1 = "?x0\<lparr>sent := 1, stream := b1\<rparr>"
  let ?x2 = "?x0\<lparr>sent := Suc (Suc 0), stream := b1 @ b2\<rparr>"
  let ?x3 = "?x0\<lparr>sent := Suc (Suc 0), results := [Got (b1 @ b2)]\<rparr>"
  have "exchange_step [b1, b2, b3] openable r ?x0 ?x1"
    using send_next[of ?x0 "[b1, b2, b3]"] by (simp add: exchange_start_def)
  moreover have "exchange_step [b1, b2, b3] openable r ?x1 ?x2"
    using send_next[of ?x1 "[b1, b2, b3]"] by (simp add: exchange_start_def)
  moreover have "exchange_step [b1, b2, b3] openable r ?x2 ?x3"
    using receive[of openable r ?x2 "length (b1 @ b2)"] len
    by (simp add: exchange_start_def receiver_state_def net_input_connection_def prog_simps asks_for_def)
  ultimately have "exchanges [b1, b2, b3] openable r ?x3" by (blast intro: exchanges.intros)
  moreover have "\<not> exchange_step [b1, b2, b3] openable r ?x3 y" for y
    by (auto simp: exchange_start_def elim!: exchange_step.cases)
  ultimately show ?thesis by (intro exI[of _ ?x3]) (simp add: exchange_start_def)
qed

theorem exchange_deadlock_witness:
  "\<exists>x. exchanges [[51, 0] @ replicate 28 9, [97, 0], [1, 2, 3]] (\<lambda>_. True) sample_receiver x \<and> answered x = 0 \<and>
    (\<forall>y. \<not> exchange_step [[51, 0] @ replicate 28 9, [97, 0], [1, 2, 3]] (\<lambda>_. True) sample_receiver x y)"
  using exchange_deadlock[OF sample_blocks, of "\<lambda>_. True" sample_receiver] by auto

section \<open>Transfers that keep the boundaries\<close>

definition keeps_blocks :: "bytes list \<Rightarrow> exchange \<Rightarrow> bool" where
  "keeps_blocks bs x \<longleftrightarrow> take 2 (results x) = map Got (take (length (take 2 (results x))) bs)"

inductive kept_exchanges :: "bytes list \<Rightarrow> (bytes \<Rightarrow> bool) \<Rightarrow> receiver \<Rightarrow> exchange \<Rightarrow> bool"
  for bs :: "bytes list" and openable :: "bytes \<Rightarrow> bool" and r :: receiver
where
  kept_begin: "kept_exchanges bs openable r exchange_start"
| kept_next: "kept_exchanges bs openable r x \<Longrightarrow> exchange_step bs openable r x y \<Longrightarrow> keeps_blocks bs y \<Longrightarrow>
    kept_exchanges bs openable r y"

definition exchange_inv :: "bytes list \<Rightarrow> (bytes \<Rightarrow> bool) \<Rightarrow> receiver \<Rightarrow> exchange \<Rightarrow> bool" where
  "exchange_inv bs openable r x \<longleftrightarrow>
     answered x \<le> sent x - 1 \<and> sent x \<le> answered x + 2 \<and> sent x \<le> 3 \<and> keeps_blocks bs x \<and>
     (\<exists>cs. results x = map Got cs \<and> concat cs @ stream x = concat (take (sent x) bs)) \<and>
     acks x \<le> 2 \<and> (acks x = 0 \<longrightarrow> answered x = 0 \<and> replies x = [] \<and> length (results x) \<le> 2) \<and>
     (0 < acks x \<longrightarrow> 2 \<le> length (results x)) \<and> (acks x = 1 \<and> answered x = 0 \<longrightarrow> replies x \<noteq> []) \<and>
     (acks x = 2 \<longrightarrow> receiver_state openable r x = Inr True)"

lemma exchange_inv_step:
  assumes "exchange_inv [b1, b2, b3] openable r x" and "exchange_step [b1, b2, b3] openable r x y"
    and "keeps_blocks [b1, b2, b3] y"
  shows "exchange_inv [b1, b2, b3] openable r y"
  using assms(2)
proof cases
  case send_next
  then have "concat (take (Suc (sent x)) [b1, b2, b3]) = concat (take (sent x) [b1, b2, b3]) @ [b1, b2, b3] ! sent x"
    by (auto simp: less_2_cases_iff take_Suc_conv_app_nth)
  with assms(1,3) send_next show ?thesis
    by (auto simp: exchange_inv_def receiver_state_def simp flip: append_assoc)
next
  case (get_answer k)
  with assms(1,3) show ?thesis by (auto simp: exchange_inv_def receiver_state_def)
next
  case get_end
  with assms(1,3) show ?thesis by (auto simp: exchange_inv_def receiver_state_def)
next
  case (receive k)
  obtain cs where cs: "results x = map Got cs" "concat cs @ stream x = concat (take (sent x) [b1, b2, b3])"
    using assms(1) by (auto simp: exchange_inv_def)
  then have "results y = map Got (cs @ [take k (stream x)]) \<and>
      concat (cs @ [take k (stream x)]) @ stream y = concat (take (sent y) [b1, b2, b3])"
    using receive(1) by simp
  then have some: "\<exists>cs. results y = map Got cs \<and> concat cs @ stream y = concat (take (sent y) [b1, b2, b3])" by blast
  have "acks x \<noteq> 2" using assms(1) receive(2) by (auto simp: exchange_inv_def)
  then have "answered y \<le> sent y - 1" "sent y \<le> answered y + 2" "sent y \<le> 3" "acks y \<le> 2" "acks y \<noteq> 2"
    "acks y = 0 \<longrightarrow> answered y = 0 \<and> replies y = [] \<and> length (results y) \<le> 2"
    "0 < acks y \<longrightarrow> 2 \<le> length (results y)" "acks y = 1 \<and> answered y = 0 \<longrightarrow> replies y \<noteq> []"
    using assms(1) receive(1,3) by (simp_all add: exchange_inv_def) (auto simp: exchange_inv_def)
  with some assms(3) show ?thesis by (simp add: exchange_inv_def)
next
  case (acknowledge b)
  with assms(1,3) show ?thesis by (auto simp: exchange_inv_def receiver_state_def)
next
  case finish
  with assms(1,3) show ?thesis by (auto simp: exchange_inv_def receiver_state_def)
qed

lemma kept_inv: "kept_exchanges [b1, b2, b3] openable r x \<Longrightarrow> exchange_inv [b1, b2, b3] openable r x"
proof (induction rule: kept_exchanges.induct)
  case kept_begin
  show ?case by (simp add: exchange_inv_def exchange_start_def keeps_blocks_def)
next
  case (kept_next x y)
  then show ?case by (blast intro: exchange_inv_step)
qed

lemma read_loop_waits:
  "i + length (concat chunks) < length buf \<Longrightarrow> read_loop (map Got chunks) (int (length buf)) (int i) buf = Inr None"
proof (induction chunks arbitrary: i buf)
  case (Cons c chunks)
  have fits: "i + length c \<le> length buf" "take (length buf) c = c" using Cons.prems by simp_all
  with Cons.IH[of "i + length c" "write_at buf i c"] Cons.prems show ?case
    by (simp add: length_write_at)
qed simp

text \<open>What the receiver has come to after the first two blocks and some pieces of the file.\<close>

lemma receiver_two_blocks:
  assumes "send_file ack name (Some file) = Inr [b1, b2, b3]" and "length ack = 30" and "0 \<notin> set name"
    and "length name < 99" and "length file < 2 ^ 31" and "openable name" and "read_amount r = 0"
    and "concat cs @ rest = file"
  shows "map_sum id fst (net_input_connection junk openable (Got b1 # Got b2 # map Got cs) r) = Inr (rest = [])"
proof (cases "rest = []")
  case True
  then have "concat cs = b3" using assms(8) send_file_blocks[OF assms(1)] by simp
  from file_received[where openable = openable and junk = junk, OF assms(1-6) this assms(7)] True show ?thesis by auto
next
  case False
  let ?buf = "map junk [0..<length file]"
  have "0 + length (concat cs) < length ?buf" using False assms(8) by auto
  from read_loop_waits[OF this] have "read_loop (map Got cs) (int (length file)) 0 ?buf = Inr None" by simp
  moreover have "b1 = write_at ack 0 (digits (length file) @ [0])" "b2 = name @ [0]"
    using send_file_blocks[OF assms(1)] by simp_all
  ultimately show ?thesis
    using assms(6,7) size_received[OF assms(5,2)] name_received[OF assms(4,3)] False
    by (simp add: net_input_connection_def prog_simps lift_sum_def)
qed

lemma receiver_one_block:
  assumes "send_file ack name (Some file) = Inr [b1, b2, b3]" and "length ack = 30" and "length file < 2 ^ 31"
  shows "map_sum id fst (net_input_connection junk openable [Got b1] r) = Inr False"
  using send_file_blocks[OF assms(1)] size_received[OF assms(3,2)]
  by (simp add: net_input_connection_def prog_simps lift_sum_def)

text \<open>The results of the receiver in a transfer that keeps the boundaries.\<close>

lemma kept_results:
  assumes "kept_exchanges [b1, b2, b3] openable r x"
  obtains cs where "results x = map Got cs" and "concat cs @ stream x = concat (take (sent x) [b1, b2, b3])"
    and "take 2 cs = take (length (take 2 cs)) [b1, b2, b3]"
    and "\<And>y. results y = results x \<Longrightarrow> keeps_blocks [b1, b2, b3] y"
proof -
  let ?bs = "[b1, b2, b3]"
  note inv = kept_inv[OF assms]
  obtain cs where cs: "results x = map Got cs" "concat cs @ stream x = concat (take (sent x) ?bs)"
    using inv unfolding exchange_inv_def by blast
  have "map Got (take 2 cs) = map Got (take (length (take 2 cs)) ?bs)"
    using inv cs(1) by (simp add: exchange_inv_def keeps_blocks_def take_map)
  moreover have "inj Got" by (simp add: inj_def)
  ultimately have "take 2 cs = take (length (take 2 cs)) ?bs" by (simp only: inj_map_eq_map)
  moreover have "keeps_blocks ?bs y" if "results y = results x" for y
    using inv that by (simp add: exchange_inv_def keeps_blocks_def)
  ultimately show thesis using that cs by blast
qed

lemma block_lengths:
  assumes "send_file ack name (Some file) = Inr [b1, b2, b3]" and "length ack = 30" and "length name < 99"
    and "length file < 2 ^ 31"
  shows "length b1 = 30" and "0 < length b2" and "length b2 \<le> 99" and "b3 = file"
    and "b1 = write_at ack 0 (digits (length file) @ [0])"
proof -
  have "length (digits (length file)) \<le> Suc 9" by (rule length_digits) (use assms(4) in simp)
  then show "length b1 = 30" "0 < length b2" "length b2 \<le> 99" "b3 = file"
    "b1 = write_at ack 0 (digits (length file) @ [0])"
    using send_file_blocks[OF assms(1)] assms(2,3) by (simp_all add: write_at_def)
qed

text \<open>The receiver goes on while the sender waits for its first acknowledgement.\<close>

lemma goes_on_first:
  assumes "send_file ack name (Some file) = Inr [b1, b2, b3]" and "length ack = 30" and "0 \<notin> set name"
    and "length name < 99" and "length file < 2 ^ 31" and "openable name" and "read_amount r = 0"
    and "kept_exchanges [b1, b2, b3] openable r x"
    and "sent x = 2" and "answered x = 0" and "acks x = 0"
  shows "\<exists>y. exchange_step [b1, b2, b3] openable r x y \<and> keeps_blocks [b1, b2, b3] y"
proof -
  let ?bs = "[b1, b2, b3]"
  obtain cs where cs: "results x = map Got cs" "concat cs @ stream x = concat (take (sent x) ?bs)"
    "take 2 cs = take (length (take 2 cs)) ?bs" and keep: "\<And>y. results y = results x \<Longrightarrow> keeps_blocks ?bs y"
    by (rule kept_results[OF assms(8)]) blast
  note len = block_lengths[OF assms(1,2,4,5)]
  have "length cs \<le> 2" using kept_inv[OF assms(8)] assms(11) cs(1) by (auto simp: exchange_inv_def)
  with cs(2,3) assms(9) consider "cs = []" "stream x = b1 @ b2" | "cs = [b1]" "stream x = b2" | "cs = [b1, b2]"
    by (cases cs; cases "tl cs") auto
  then show ?thesis
  proof cases
    case 1
    then show ?thesis
      using receive[of openable r x 30 ?bs] cs(1) len
      by (intro exI[of _ "x\<lparr>results := [Got b1], stream := b2\<rparr>"])
        (simp add: receiver_state_def net_input_connection_def prog_simps asks_for_def keeps_blocks_def)
  next
    case 2
    then show ?thesis
      using receive[of openable r x "length b2" ?bs] cs(1) len receiver_one_block[OF assms(1,2,5)]
      by (intro exI[of _ "x\<lparr>results := [Got b1, Got b2], stream := []\<rparr>"])
        (simp add: receiver_state_def asks_for_def keeps_blocks_def)
  next
    case 3
    have "\<exists>b. receiver_state openable r x = Inr b"
      using receiver_two_blocks[where junk = "\<lambda>_. 0" and openable = openable and r = r and cs = "[]" and rest = "file",
          OF assms(1-7)] cs(1) 3 by (simp add: receiver_state_def)
    then show ?thesis using acknowledge[of x openable r _ ?bs] assms(11) cs(1) 3 keep by fastforce
  qed
qed

text \<open>The receiver has its first two blocks once it has acknowledged them.\<close>

lemma acknowledged:
  assumes "send_file ack name (Some file) = Inr [b1, b2, b3]" and "length ack = 30" and "0 \<notin> set name"
    and "length name < 99" and "length file < 2 ^ 31" and "openable name" and "read_amount r = 0"
    and "kept_exchanges [b1, b2, b3] openable r x" and "0 < acks x"
  obtains ds where "results x = Got b1 # Got b2 # map Got ds"
    and "\<exists>rest. concat ds @ rest = file" and "sent x = 3 \<Longrightarrow> concat ds @ stream x = file"
    and "sent x = 3 \<Longrightarrow> receiver_state openable r x = Inr (stream x = [])"
proof -
  let ?bs = "[b1, b2, b3]"
  obtain cs where cs: "results x = map Got cs" "concat cs @ stream x = concat (take (sent x) ?bs)"
    "take 2 cs = take (length (take 2 cs)) ?bs"
    by (rule kept_results[OF assms(8)]) blast
  note len = block_lengths[OF assms(1,2,4,5)]
  have "2 \<le> length cs" "sent x \<le> 3" using kept_inv[OF assms(8)] cs(1) assms(9) by (auto simp: exchange_inv_def)
  with cs(3) obtain ds where ds: "cs = b1 # b2 # ds" by (cases cs; cases "tl cs") auto
  from \<open>sent x \<le> 3\<close> consider "sent x = 0" | "sent x = 1" | "sent x = 2" | "sent x = 3" by linarith
  then have "concat ds = [] \<or> concat ds @ stream x = file"
    using cs(2) ds len by cases (auto simp: numeral_2_eq_2 numeral_3_eq_3)
  then have "\<exists>rest. concat ds @ rest = file" by force
  moreover have whole: "concat ds @ stream x = file" if "sent x = 3" using cs(2) ds len(4) that by simp
  moreover have "receiver_state openable r x = Inr (stream x = [])" if "sent x = 3"
    using receiver_two_blocks[where junk = "\<lambda>_. 0" and openable = openable and r = r, OF assms(1-7) whole[OF that]]
      cs(1) ds by (simp add: receiver_state_def)
  ultimately show thesis using that cs(1) ds by simp
qed

text \<open>The receiver goes on while the sender waits for its second acknowledgement.\<close>

lemma goes_on_second:
  assumes "send_file ack name (Some file) = Inr [b1, b2, b3]" and "length ack = 30" and "0 \<notin> set name"
    and "length name < 99" and "length file < 2 ^ 31" and "openable name" and "read_amount r = 0"
    and "kept_exchanges [b1, b2, b3] openable r x" and "sent x = 3" and "acks x = 1"
  shows "\<exists>y. exchange_step [b1, b2, b3] openable r x y \<and> keeps_blocks [b1, b2, b3] y"
proof -
  let ?bs = "[b1, b2, b3]"
  have keep: "\<And>y. results y = results x \<Longrightarrow> keeps_blocks ?bs y" by (rule kept_results[OF assms(8)]) blast
  have "0 < acks x" using assms(10) by simp
  from acknowledged[OF assms(1-8) this] assms(9) obtain ds
    where ds: "results x = Got b1 # Got b2 # map Got ds" "concat ds @ stream x = file"
      "receiver_state openable r x = Inr (stream x = [])" by metis
  show ?thesis
  proof (cases "stream x = []")
    case True
    then show ?thesis using finish[of x openable r ?bs] assms(10) ds(3) keep by fastforce
  next
    case False
    have "asks_for r x = length file"
      using size_received[OF assms(5,2)] block_lengths(5)[OF assms(1,2,4,5)] ds(1) by (simp add: asks_for_def)
    moreover have "0 < length (stream x)" "0 < length file" using False arg_cong[OF ds(2), of length] by auto
    ultimately show ?thesis
      using receive[of openable r x 1 ?bs] assms(10) ds(1,3) False
      by (intro exI[of _ "x\<lparr>results := results x @ [Got (take 1 (stream x))], stream := drop 1 (stream x)\<rparr>"])
        (simp add: Suc_le_eq keeps_blocks_def)
  qed
qed

text \<open>What the receiver has done when it sends its second acknowledgement.\<close>

lemma stored_at_end:
  assumes "send_file ack name (Some file) = Inr [b1, b2, b3]" and "length ack = 30" and "0 \<notin> set name"
    and "length name < 99" and "length file < 2 ^ 31" and "openable name" and "read_amount r = 0"
    and "kept_exchanges [b1, b2, b3] openable r x" and "acks x = 2"
  shows "\<exists>s'. net_input_connection (\<lambda>_. 0) openable (results x) r = Inr (True, s') \<and>
    r_files s' = r_files r @ [(name, file)]"
proof -
  have "0 < acks x" using assms(9) by simp
  from acknowledged[OF assms(1-8) this] obtain ds rest
    where ds: "results x = Got b1 # Got b2 # map Got ds" "concat ds @ rest = file" by metis
  have "receiver_state openable r x = Inr True" using kept_inv[OF assms(8)] assms(9) by (simp add: exchange_inv_def)
  with receiver_two_blocks[where junk = "\<lambda>_. 0" and openable = openable and r = r, OF assms(1-7) ds(2)] ds(1)
  have "rest = []" by (simp add: receiver_state_def)
  then have "concat ds = b3" using ds(2) block_lengths(4)[OF assms(1,2,4,5)] by simp
  from file_received[where openable = openable and junk = "\<lambda>_. 0", OF assms(1-6) this assms(7)] show ?thesis
    using ds(1) by auto
qed



end
