(* ===== verification/Path_Discovery.thy ===== *)
theory Path_Discovery
  imports Network
begin

text \<open>
  Finding a route over any number of nodes: the request goes from node to node to the destination, its
  reply comes back the same way. No handler fails on the way, every node has the routes to both ends
  afterwards, and packets of the one for the other are forwarded.
\<close>

section \<open>The messages of a step\<close>

primrec is_message :: "event \<Rightarrow> bool" where
  "is_message (Sent_unicast ip bs) = True"
| "is_message (Sent_broadcast bs) = True"
| "is_message (Added_route d h) = False"
| "is_message (Deleted_route d h) = False"

definition said :: "node \<Rightarrow> node \<Rightarrow> event list" where
  "said s s' = filter is_message (drop (length (events s)) (events s'))"

definition silent :: "node \<Rightarrow> node \<Rightarrow> bool" where
  "silent s s' \<longleftrightarrow> ip_address s' = ip_address s \<and> (\<exists>evs. events s' = events s @ evs \<and> filter is_message evs = [])"

lemma silent_run:
  assumes "\<And>own P. on_messages P \<Longrightarrow> emits own P m" and "m s = Inr (x, s')"
  shows "silent s s'"
proof -
  have "on_messages (\<lambda>ev. \<not> is_message ev)" by (simp add: on_messages_def)
  from emitsD[OF assms(1)[OF this] refl assms(2)] show ?thesis
    by (auto simp: silent_def filter_empty_conv)
qed

lemma silent_same: "ip_address s' = ip_address s \<Longrightarrow> events s' = events s \<Longrightarrow> silent s s'"
  by (simp add: silent_def)

lemma silent_trans: "silent s t \<Longrightarrow> silent t u \<Longrightarrow> silent s u"
  by (auto simp: silent_def)

lemma said_one:
  assumes "silent s t" and "events u = events t @ [ev]" and "silent u s'" and "is_message ev"
  shows "said s s' = [ev]"
  using assms by (auto simp: said_def silent_def)

text \<open>A message in a buffer of its own length.\<close>

lemma send_run:
  "SendBroadcast (encode_rreq q) sizeof_rreq s = Inr ((), s\<lparr>events := events s @ [Sent_broadcast (encode_rreq q)]\<rparr>)"
  "SendUnicast ip (encode_rrep h) sizeof_rrep s = Inr ((), s\<lparr>events := events s @ [Sent_unicast ip (encode_rrep h)]\<rparr>)"
  using read_block_exact[of _ "encode_rrep h"]
  by (simp_all add: SendBroadcast_rreq SendUnicast_def emit_def prog_simps rrep_fmt.length_encode)

section \<open>A node gets a request\<close>

text \<open>
  A node is \<open>ready\<close> for a request \<open>m\<close> from the neighbour \<open>p\<close>: it has not heard its id, nor can the
  memory of a new entry hold it by chance; and a route it has to the originator is older, or goes
  over \<open>p\<close> with as many hops as the request made.
\<close>

definition goes_over :: "u32 \<Rightarrow> u8 \<Rightarrow> route \<Rightarrow> bool" where
  "goes_over hop hops r \<longleftrightarrow> r_status r = ROUTE_VALID \<and> r_seq_valid r = SEQ_VALID \<and> r_next_hop r = hop \<and>
     r_hop_count r = ucast hops"

definition over :: "u32 \<Rightarrow> rreq_header \<Rightarrow> route \<Rightarrow> bool" where
  "over p m = goes_over p (rreq_hop_count m)"

definition no_number :: "u32 \<Rightarrow> node \<Rightarrow> bool" where
  "no_number d s \<longleftrightarrow> (\<forall>r. route_at s (slot_of d) = Some r \<longrightarrow> r_seq_valid r = SEQ_INVALID)"

definition ready :: "u32 \<Rightarrow> rreq_header \<Rightarrow> node \<Rightarrow> bool" where
  "ready p m s \<longleftrightarrow> reach node_init quiet_step s \<and> ip_address s \<notin> {p, rreq_src_ip m} \<and>
     unheard (slot_of (rreq_src_ip m)) (rreq_rreq_id m) s \<and>
     (\<forall>r. route_at s (slot_of (rreq_src_ip m)) = Some r \<longrightarrow>
        over p (increment_hop_rreq m) (rreq_route p (increment_hop_rreq m) r))"

lemma keeps_previous_hop: "keeps (recv_rreq_previous_hop sender_ip m)"
  unfolding recv_rreq_previous_hop_def block.simps
  by (auto intro!: keeps_rules keeps_more keeps_write split: prod.splits)

lemma not_repeated:
  assumes "unheard (slot_of (rreq_src_ip m)) (rreq_rreq_id m) s" and "recv_rreq_repeated m s = Inr (b, s')"
  shows "\<not> b"
  using assms by (auto simp: unheard_def recv_rreq_repeated_def lookup_route_def get_routing_entry_def find_entry_slot
      prog_simps bnd_Inr_iff deref_def split: option.splits if_splits)

lemma quiet_reachable: "reach node_init quiet_step s \<Longrightarrow> reachable s"
  by (induction rule: reach.induct) (auto simp: quiet_step_iff intro: reachableI node_stepI)

lemma increment_rreq_more [simp]:
  "rreq_rreq_id (increment_hop_rreq m) = rreq_rreq_id m" "rreq_type (increment_hop_rreq m) = rreq_type m"
  by (simp_all add: increment_hop_rreq_def)

text \<open>A route the update leaves good is good as it is, once it is no older than the request.\<close>

lemma over_settled: "reverse_route_ok m r \<Longrightarrow> over p m (rreq_route p m r) \<Longrightarrow> over p m r"
  by (auto simp: reverse_route_ok_def over_def goes_over_def rreq_route_def split: if_splits)

lemma over_again: "over p m (rreq_route p m r) \<Longrightarrow> over p m (rreq_route p m (rreq_route p m r))"
  by (auto simp: over_def goes_over_def rreq_route_def split: if_splits)

lemma over_back: "over p m (rreq_route p m (back_route p m))" "over p m (rreq_route p m (hop_route ip))"
  by (auto simp: over_def goes_over_def rreq_route_def back_route_def hop_route_def)

lemma over_valid: "rreq_route p m (r\<lparr>r_status := ROUTE_VALID\<rparr>) = rreq_route p m r"
  by (simp add: rreq_route_def)

lemma request_received:
  assumes "ready p m s" and "rreq_flag m RREQ_UNKNOWN"
  obtains s1 orig s2 v s' where "recv_rreq_previous_hop p m s = Inr ((), s1)"
    and "recv_rreq_reverse_route p (increment_hop_rreq m) s1 = Inr (orig, s2)"
    and "request_rest (ip_address s) p (increment_hop_rreq m) orig s2 = Inr (v, s')"
    and "recv_rreq p m s = Inr (v, s')" and "ok {} {} s1"
    and "\<exists>r. route_at s' (slot_of (rreq_src_ip m)) = Some r \<and> over p (increment_hop_rreq m) r"
proof -
  let ?i = "slot_of (rreq_src_ip m)" and ?m = "increment_hop_rreq m"
  let ?R = "\<lambda>r. over p ?m (rreq_route p ?m r)"
  have s: "reachable s" "ok {} {} s" "node_inv s" "rreq_src_ip m \<noteq> ip_address s"
    and un: "unheard ?i (rreq_rreq_id m) s"
    using assms(1) quiet_sys.reach_inv[of s] quiet_reachable[of s] by (auto simp: ready_def ok_iff)
  obtain v s' where run: "recv_rreq p m s = Inr (v, s')"
    using triple_returns[OF recv_rreq_ok[where F = "{}"] s(2)] assms(2) by blast
  have fresh: "recv_rreq_repeated m t \<noteq> Inr (True, u)" if "recv_rreq_previous_hop p m s = Inr ((), t)" for t u
  proof -
    have "triple UNIV (unheard ?i (rreq_rreq_id m)) (recv_rreq_previous_hop p m) (\<lambda>_. unheard ?i (rreq_rreq_id m))"
      using keeps_previous_hop by (simp add: keeps_def)
    from not_repeated[OF triple_result[OF this un that]] show ?thesis by blast
  qed
  have "perhaps ?i ?R s" unfolding perhaps_route_at[OF s(3)] using assms(1) by (simp add: ready_def)
  from recv_rreq_perhaps[OF s(1) this run]
  have "perhaps ?i ?R s'" by (simp add: keeps_validated_def over_valid over_back over_again)
  moreover from recv_rreq_installs[OF s(1,4) run] fresh
  obtain r where r: "route_at s' ?i = Some r" "reverse_route_ok ?m r" by blast
  moreover have "node_inv s'" using triple_result[OF recv_rreq_ok[where F = UNIV] s(2) run] by (simp add: ok_iff)
  ultimately have end_route: "\<exists>r. route_at s' ?i = Some r \<and> over p ?m r"
    by (auto simp: perhaps_route_at dest: over_settled)
  from run show thesis
  proof (cases rule: recv_rreq_cases)
    case (3 t orig u)
    have "ok {} {} t" by (rule triple_result[OF recv_rreq_previous_hop_ok[where F = UNIV] s(2) 3(1)]) simp
    with 3 run end_route show thesis by (intro that)
  qed (use s(4) fresh in blast)+
qed

text \<open>What the handler has when it comes to the request itself: it has called no other node, and no number.\<close>

lemma request_in_between:
  assumes "recv_rreq_previous_hop p m s = Inr ((), s1)" and "recv_rreq_reverse_route p m' s1 = Inr (orig, s2)"
    and "node_inv s" and "node_inv s1" and "no_number d s"
    and "slot_of d \<noteq> slot_of (rreq_src_ip m')"
  shows "silent s s2 \<and> perhaps (slot_of d) (\<lambda>r. r_seq_valid r = SEQ_INVALID) s2"
proof -
  let ?R = "\<lambda>r. r_seq_valid r = SEQ_INVALID"
  have "perhaps (slot_of d) ?R s" using assms(3,5) by (simp add: perhaps_route_at no_number_def)
  then have "perhaps (slot_of d) ?R s1"
    by (rule previous_hop_perhaps[OF assms(3,1)]) (simp add: keeps_validated_def hop_route_def)
  then have "perhaps (slot_of d) ?R s2"
    by (rule reverse_route_perhaps[OF assms(4,2)]) (use assms(6) in simp)
  moreover have "silent s s1" by (rule silent_run[OF emits_previous_hop assms(1)])
  moreover have "silent s1 s2" by (rule silent_run[OF emits_reverse_route assms(2)])
  ultimately show ?thesis using silent_trans by blast
qed

text \<open>A node that is not the destination, and knows no number of it, passes the request on.\<close>

definition passed_on :: "rreq_header \<Rightarrow> rreq_header" where
  "passed_on m = (increment_hop_rreq m)\<lparr>rreq_ttl := rreq_ttl m - 1\<rparr>"

lemma relay_rest:
  assumes "perhaps (slot_of (rreq_dest_ip m)) (\<lambda>r. r_seq_valid r = SEQ_INVALID) s" and "1 < rreq_ttl m"
    and "own \<noteq> rreq_dest_ip m" and "request_rest own p m orig s = Inr (v, s')"
  shows "\<exists>t. silent s t \<and> s' = t\<lparr>events := events t @ [Sent_broadcast (encode_rreq (m\<lparr>rreq_ttl := rreq_ttl m - 1\<rparr>))]\<rparr>"
proof -
  let ?i = "slot_of (rreq_dest_ip m)"
  obtain t where t: "mutex_unlock orig s = Inr ((), t)"
    and rest: "bnd (lookup_route (rreq_dest_ip m)) (\<lambda>destination.
         bnd (if \<not> rreq_flag m RREQ_DEST_ONLY \<and> destination \<noteq> None then
                bnd (deref destination) (\<lambda>e.
                if status e = ROUTE_VALID \<and> seq_valid e = SEQ_VALID
                then own_route_fresher m e else ret False)
              else ret False) (\<lambda>answer.
         if answer then sq (send_rrep_intermediate m p) (ret LOGGING)
         else recv_rreq_forward destination m)) t = Inr (v, s')"
    using assms(3,4) by (auto simp: request_rest_def sq_def bnd_Inr_iff[of "mutex_unlock orig"])
  have "perhaps ?i (\<lambda>r. r_seq_valid r = SEQ_INVALID) t"
    by (rule perhaps_keeps[OF assms(1) t preservesD[OF preserves_lock(2)] makes_none_more(2)])
  then have entry: "\<exists>e. heap t a = Some e \<and> seq_valid e = SEQ_INVALID" if "routes t ?i = Some a" for a
    using that by (auto simp: perhaps_def within_def)
  have ttl: "\<not> rreq_ttl m \<le> 1" using assms(2) by simp
  have "s' = t\<lparr>events := events t @ [Sent_broadcast (encode_rreq (m\<lparr>rreq_ttl := rreq_ttl m - 1\<rparr>))]\<rparr>"
  proof (cases "routes t ?i")
    case None
    with rest show ?thesis
      by (simp add: lookup_route_def get_routing_entry_def find_entry_slot prog_simps recv_rreq_forward_def Let_def ttl send_run
          del: not_le)
  next
    case (Some a)
    with entry obtain e where "heap t a = Some e" "seq_valid e = SEQ_INVALID" by blast
    with Some rest show ?thesis
      by (simp add: lookup_route_def get_routing_entry_def find_entry_slot prog_simps recv_rreq_forward_def Let_def ttl send_run
          deref_def del: not_le split: if_splits)
  qed
  moreover have "silent s t" by (rule silent_run[OF emits_locks(2) t])
  ultimately show ?thesis by blast
qed

lemma request_relayed:
  assumes "ready p m s" and "rreq_type m = RREQ_TYPE" and "rreq_flag m RREQ_UNKNOWN" and "1 < rreq_ttl m"
    and "ip_address s \<noteq> rreq_dest_ip m" and "no_number (rreq_dest_ip m) s"
    and "slot_of (rreq_dest_ip m) \<noteq> slot_of (rreq_src_ip m)"
  shows "\<exists>v s'. incoming_control_message p (encode_rreq m) s = Inr (v, s') \<and>
    said s s' = [Sent_broadcast (encode_rreq (passed_on m))] \<and> reach node_init quiet_step s' \<and>
    ip_address s' = ip_address s \<and> no_number (rreq_dest_ip m) s' \<and>
    (\<exists>r. route_at s' (slot_of (rreq_src_ip m)) = Some r \<and> over p (increment_hop_rreq m) r)"
proof -
  let ?m = "increment_hop_rreq m" and ?d = "rreq_dest_ip m"
  have s: "reach node_init quiet_step s" "node_inv s" "ip_address s \<noteq> p"
    using assms(1) quiet_sys.reach_inv[of s] by (auto simp: ready_def ok_iff)
  obtain s1 orig s2 v s' where run: "recv_rreq_previous_hop p m s = Inr ((), s1)"
      "recv_rreq_reverse_route p ?m s1 = Inr (orig, s2)"
      "request_rest (ip_address s) p ?m orig s2 = Inr (v, s')" "recv_rreq p m s = Inr (v, s')" "ok {} {} s1"
    and r: "\<exists>r. route_at s' (slot_of (rreq_src_ip m)) = Some r \<and> over p ?m r"
    by (rule request_received[OF assms(1,3)])
  from request_in_between[OF run(1,2) s(2) _ assms(6)] run(5) assms(7)
  have s2: "silent s s2" "perhaps (slot_of ?d) (\<lambda>r. r_seq_valid r = SEQ_INVALID) s2" by (simp_all add: ok_iff)
  from relay_rest[OF _ _ _ run(3)] s2(2) assms(4,5)
  obtain t where t: "silent s2 t" "s' = t\<lparr>events := events t @ [Sent_broadcast (encode_rreq (passed_on m))]\<rparr>"
    by (auto simp: passed_on_def)
  have "said s s' = [Sent_broadcast (encode_rreq (passed_on m))]"
    by (rule said_one[OF silent_trans[OF s2(1) t(1)], where u = s']) (simp_all add: t(2) silent_def)
  moreover have control: "incoming_control_message p (encode_rreq m) s = Inr (v, s')"
    using run(4) s(3) assms(2) incoming_control_encoded[of p m "[]" s] by simp
  moreover from control have "quiet_step s (Control_in p (encode_rreq m)) s'"
    by (auto simp: quiet_step_iff sq_def bnd_Inr_iff ret_def)
  then have quiet: "reach node_init quiet_step s'" by (rule reach_step[OF s(1)])
  moreover have "ip_address s' = ip_address s" using s2(1) t by (simp add: silent_def)
  moreover have "perhaps (slot_of ?d) (\<lambda>r. r_seq_valid r = SEQ_INVALID) s'"
    by (rule perhaps_keeps[OF s2(2) run(3) preservesD[OF request_rest_route] makes_none_rest])
  then have "no_number ?d s'"
    using quiet_sys.reach_inv[OF quiet] by (simp add: perhaps_route_at ok_iff no_number_def)
  ultimately show ?thesis using r by blast
qed

text \<open>The destination answers the neighbour the request came from.\<close>

definition answer_of :: "u32 \<Rightarrow> rreq_header \<Rightarrow> rrep_header \<Rightarrow> bool" where
  "answer_of d m h \<longleftrightarrow> rrep_type h = RREP_TYPE \<and> rrep_dest_ip h = d \<and> rrep_src_ip h = rreq_src_ip m \<and>
     rrep_hop_count h = 0"

lemma destination_rest:
  assumes "rreq_flag m RREQ_UNKNOWN" and "own = rreq_dest_ip m" and "ip_address s = own"
    and "request_rest own p m orig s = Inr (v, s')"
  shows "\<exists>t h. silent s t \<and> answer_of own m h \<and> s' = t\<lparr>events := events t @ [Sent_unicast p (encode_rrep h)]\<rparr>"
proof -
  obtain t1 t2 t3 n where t: "mark_active orig s = Inr ((), t1)" "mutex_unlock orig t1 = Inr ((), t2)"
    "on_sequence_num read_safe t2 = Inr (n, t3)"
    and rest: "sq (on_sequence_num (write_safe (n + 1)))
      (bnd (gets ip_address) (\<lambda>own_ip.
       bnd (new_rrep 0 0 own_ip (n + 1) (rreq_src_ip m) MY_ROUTE_TIMEOUT) (\<lambda>rrep_buf.
       SendUnicast p (encode_rrep rrep_buf) sizeof_rrep))) t3 = Inr ((), s')"
    using assms(1,2,4)
    by (auto simp: request_rest_def send_rrep_destination_def Let_def sq_def bnd_Inr_iff[of "mark_active orig"]
        bnd_Inr_iff[of "mutex_unlock orig"] bnd_Inr_iff[of "on_sequence_num read_safe"] bnd_Inr_iff ret_def)
  then obtain t4 h t5 where t4: "on_sequence_num (write_safe (n + 1)) t3 = Inr ((), t4)"
    and h: "new_rrep 0 0 (ip_address t4) (n + 1) (rreq_src_ip m) MY_ROUTE_TIMEOUT t4 = Inr (h, t5)"
    and s': "s' = t5\<lparr>events := events t5 @ [Sent_unicast p (encode_rrep h)]\<rparr>"
    by (auto simp: sq_def bnd_Inr_iff gets_def send_run)
  have "silent s t1" "silent t1 t2" "silent t2 t3" "silent t3 t4" "silent t4 t5"
    by (rule silent_run[OF emits_timers(4) t(1)] silent_run[OF emits_locks(2) t(2)]
        silent_run[OF emits_basic(14) t(3)] silent_run[OF emits_basic(14) t4] silent_run[OF emits_new_rrep h])+
  then have silent: "silent s t4" "silent s t5" using silent_trans by blast+
  moreover have "answer_of own m h"
    using h assms(3) silent(1)
    by (auto simp: new_rrep_def bnd_Inr_iff prog_simps generate_rrep_message_def answer_of_def silent_def)
  ultimately show ?thesis using s' by blast
qed

lemma request_answered:
  assumes "ready p m s" and "rreq_type m = RREQ_TYPE" and "rreq_flag m RREQ_UNKNOWN"
    and "ip_address s = rreq_dest_ip m"
  shows "\<exists>v s' h. incoming_control_message p (encode_rreq m) s = Inr (v, s') \<and>
    said s s' = [Sent_unicast p (encode_rrep h)] \<and> answer_of (ip_address s) m h \<and> ip_address s' = ip_address s \<and>
    (\<exists>r. route_at s' (slot_of (rreq_src_ip m)) = Some r \<and> over p (increment_hop_rreq m) r)"
proof -
  let ?m = "increment_hop_rreq m"
  obtain s1 orig s2 v s' where run: "recv_rreq_previous_hop p m s = Inr ((), s1)"
      "recv_rreq_reverse_route p ?m s1 = Inr (orig, s2)"
      "request_rest (ip_address s) p ?m orig s2 = Inr (v, s')" "recv_rreq p m s = Inr (v, s')" "ok {} {} s1"
    and r: "\<exists>r. route_at s' (slot_of (rreq_src_ip m)) = Some r \<and> over p ?m r"
    by (rule request_received[OF assms(1,3)])
  have s2: "silent s s2"
    by (rule silent_trans[OF silent_run[OF emits_previous_hop run(1)] silent_run[OF emits_reverse_route run(2)]])
  from destination_rest[OF _ _ _ run(3)] s2 assms(3,4) obtain t h where t: "silent s2 t"
    "answer_of (ip_address s) m h" "s' = t\<lparr>events := events t @ [Sent_unicast p (encode_rrep h)]\<rparr>"
    by (auto simp: silent_def answer_of_def)
  have "said s s' = [Sent_unicast p (encode_rrep h)]"
    by (rule said_one[OF silent_trans[OF s2 t(1)], where u = s']) (simp_all add: t(3) silent_def)
  moreover have "incoming_control_message p (encode_rreq m) s = Inr (v, s')"
    using run(4) assms(1,2) incoming_control_encoded[of p m "[]" s] by (auto simp: ready_def)
  moreover have "ip_address s' = ip_address s" using s2 t by (simp add: silent_def)
  ultimately show ?thesis using t(2) r by blast
qed

section \<open>A node gets the reply\<close>

text \<open>The neighbour a reply came from has a valid route afterwards, and no number by this.\<close>

lemma reply_hop_valid:
  "triple UNIV node_inv (recv_rrep_previous_hop q h)
    (\<lambda>_ s. \<exists>a. within (slot_of q) a (\<lambda>r. r_status r = ROUTE_VALID) s)"
proof -
  have "triple UNIV (within (slot_of q) a (\<lambda>_. True)) (block
       [mutex_lock (Some a),
        write_entry (Some a) (\<lambda>e. e\<lparr>status := ROUTE_VALID\<rparr>),
        AddUnicastRoutingEntry q q,
        bnd (at_next_hop_for (Some a) (is_in_list (rrep_dest_ip h))) (\<lambda>b.
          when_p (b = 0) (at_next_hop_for (Some a) (add_entry_to_list (rrep_dest_ip h)))),
        when_p (n = 0)
          (bnd clock_gettime (\<lambda>now.
           write_entry (Some a) (\<lambda>e. e\<lparr>time_out := add_time_ms now ACTIVE_ROUTE_TIMEOUT\<rparr>))),
        set_expiration_timer (Some a) 0,
        mutex_unlock (Some a)]) (\<lambda>_ s. \<exists>a. within (slot_of q) a (\<lambda>r. r_status r = ROUTE_VALID) s)" for a n
    unfolding block.simps
    apply (rule triple_sq[OF preservesD[OF preserves_lock(1)]])
    apply (rule triple_sq[OF triple_write_route[where R' = "\<lambda>r. r_status r = ROUTE_VALID"]], simp)
    apply (rule triple_post[where Q' = "\<lambda>_. within (slot_of q) a (\<lambda>r. r_status r = ROUTE_VALID)"])
     apply (rule preservesD)
     apply (intro preserves_rules preserves_write; simp add: route_of_def)
    by blast
  note body = this
  have new: "triple UNIV (within (slot_of q) a R) m Q" if "triple UNIV (within (slot_of q) a (\<lambda>_. True)) m Q"
    for a R Q and m :: "(node, unit) prog"
    by (rule triple_weaken[OF that]) (auto simp: within_def)
  show ?thesis
    unfolding recv_rrep_previous_hop_def
    by (rule triple_create_slot) (simp_all only: prod.case body new[OF body])
qed

lemma reply_hop_number:
  assumes inv: "node_inv s" and run: "recv_rrep_previous_hop q h s = Inr ((), s')"
    and s: "perhaps i (\<lambda>r. r_seq_valid r = SEQ_INVALID) s"
  shows "perhaps i (\<lambda>r. r_seq_valid r = SEQ_INVALID) s'"
  using s run
proof (rule perhaps_run)
  let ?R = "\<lambda>r. r_seq_valid r = SEQ_INVALID"
  show "triple UNIV (within i a ?R) (recv_rrep_previous_hop q h) (\<lambda>_. within i a ?R)" for a
    by (rule recv_rrep_previous_hop_route) (simp add: keeps_validated_def)
  assume none: "routes s i = None"
  show "perhaps i ?R s'"
  proof (cases "slot_of q = i")
    case True
    with none have empty: "routes s (slot_of q) = None" by simp
    show ?thesis
      apply (rule create_empty_run[OF inv empty _ run[unfolded recv_rrep_previous_hop_def block.simps]])
      apply (simp only: prod.case)
      subgoal for a
        apply (rule triple_post[where Q' = "\<lambda>_. within (slot_of q) a ?R"])
         apply (rule triple_sq[OF preservesD[OF preserves_lock(1)]])
         apply (rule triple_sq[OF triple_write_route[where R' = ?R]], drule sym, simp)
         apply (rule preservesD)
         apply (intro preserves_rules preserves_write; simp add: route_of_def)
        by (simp add: True within_perhaps)
      done
  next
    case False
    have "makes_none i (recv_rrep_previous_hop q h)"
      unfolding recv_rrep_previous_hop_def block.simps
      by (auto intro!: makes_none_rules makes_none_more makes_none_create[OF False] split: prod.splits)
    with run none show ?thesis by (auto simp: makes_none_def perhaps_def)
  qed
qed

text \<open>The forward route is made without comparing numbers if the node knows none.\<close>

lemma forward_entry:
  assumes "ok {} {} s" and "perhaps (slot_of ip) (\<lambda>r. r_seq_valid r = SEQ_INVALID) s"
  shows "\<exists>a n t e. create_or_get_routing_entry ip seq v hop hops timeout s = Inr ((Some a, n), t) \<and>
    heap t a = Some e \<and> \<not> entry_mutex e \<and> (n = 1 \<or> seq_valid e = SEQ_INVALID)"
proof (cases "routes s (slot_of ip)")
  case None
  then show ?thesis
    by (auto simp: create_or_get_routing_entry_def lookup_route_def get_routing_entry_def
        find_entry_slot prog_simps clock_gettime_def malloc_entry_def add_routing_entry_def
        deref_def bnd_def split_def)
next
  case (Some a)
  then obtain e where e: "heap s a = Some e" "seq_valid e = SEQ_INVALID"
    using assms(2) by (auto simp: perhaps_def within_def)
  moreover have "\<not> entry_mutex e" using assms(1) e(1) by (auto simp: ok_def held_def)
  ultimately show ?thesis using Some
    by (auto simp: create_or_get_routing_entry_def lookup_route_def get_routing_entry_def find_entry_slot prog_simps)
qed

lemma forward_route_total:
  assumes s: "ok {} {} s" and none: "perhaps (slot_of (rrep_dest_ip m)) (\<lambda>r. r_seq_valid r = SEQ_INVALID) s"
  shows "\<exists>p s'. recv_rrep_forward_route q m s = Inr (p, s') \<and> locked {} {} (slot_of (rrep_dest_ip m)) p s'"
proof -
  let ?i = "slot_of (rrep_dest_ip m)"
  let ?make = "create_or_get_routing_entry (rrep_dest_ip m) (rrep_dest_seq m) SEQ_VALID q
    (ucast (rrep_hop_count m)) (rrep_lifetime m)"
  let ?rest = "\<lambda>destination. sq (block
      [write_entry destination (\<lambda>e. e\<lparr>status := ROUTE_VALID, seq_valid := SEQ_VALID,
         next_hop := q, hop_count := ucast (rrep_hop_count m)\<rparr>),
       set_expiration_timer destination (rrep_lifetime m),
       write_entry destination (\<lambda>e. e\<lparr>dest_seq := rrep_dest_seq m\<rparr>),
       AddUnicastRoutingEntry (rrep_dest_ip m) q])
     (sq (block
       [write_entry destination (\<lambda>e. e\<lparr>status := ROUTE_VALID\<rparr>),
        AddUnicastRoutingEntry (rrep_dest_ip m) q,
        mark_active destination])
     (ret destination))"
  obtain a n t e where t: "?make s = Inr ((Some a, n), t)" "heap t a = Some e" "\<not> entry_mutex e"
    and new: "n = 1 \<or> seq_valid e = SEQ_INVALID"
    using forward_entry[OF s none] by blast
  let ?u = "t\<lparr>heap := (heap t)(a \<mapsto> e\<lparr>entry_mutex := True\<rparr>)\<rparr>"
  have lock: "mutex_lock (Some a) t = Inr ((), ?u)"
    using t(2,3) by (simp add: mutex_lock_def deref_def write_entry_def prog_simps)
  have "rrep_updates n m (e\<lparr>entry_mutex := True\<rparr>) ?u = Inr (True, ?u)"
    using new by (auto simp: rrep_updates_def prog_simps)
  then have run: "recv_rrep_forward_route q m s = ?rest (Some a) ?u"
    by (simp add: recv_rrep_forward_route_def t(1) lock deref_def prog_simps del: block.simps)
  have "triple {} (ok {} {}) (bnd ?make (\<lambda>(p, n). sq (mutex_lock p) (ret (p, n))))
      (\<lambda>(p, n) u. \<exists>b. p = Some b \<and> ok {b} {(b, ?i)} u)"
    by (rule triple_create, simp only: prod.case, rule triple_lock, simp, simp, rule triple_ret, simp)
  moreover have "bnd ?make (\<lambda>(p, n). sq (mutex_lock p) (ret (p, n))) s = Inr ((Some a, n), ?u)"
    by (simp add: t(1) lock prog_simps)
  ultimately have "ok {a} {(a, ?i)} ?u" using s unfolding triple_def by fastforce
  moreover have "triple {} (ok (insert a {}) (insert (a, ?i) {})) (?rest (Some a)) (locked {} {} ?i)"
    unfolding block.simps
    by (rule mark_active_ok handler_rules | assumption | simp only: prod.case | (simp; fail) | blast)+
  ultimately show ?thesis unfolding run using triple_returns[of "ok {a} {(a, ?i)}" "?rest (Some a)"] by simp
qed

text \<open>The route to the destination that a reply leaves: over the neighbour it came from.\<close>

definition led :: "u32 \<Rightarrow> rrep_header \<Rightarrow> route \<Rightarrow> bool" where
  "led q m = goes_over q (rrep_hop_count m)"

lemma forward_route_led:
  assumes inv: "node_inv s" and none: "perhaps (slot_of (rrep_dest_ip m)) (\<lambda>r. r_seq_valid r = SEQ_INVALID) s"
    and run: "recv_rrep_forward_route q m s = Inr (p, s')"
  shows "\<exists>a. within (slot_of (rrep_dest_ip m)) a (led q m) s'"
proof (cases "routes s (slot_of (rrep_dest_ip m))")
  case (Some a)
  with none have a: "within (slot_of (rrep_dest_ip m)) a (\<lambda>r. r_seq_valid r = SEQ_INVALID) s" by (simp add: perhaps_def)
  have "triple UNIV (within (slot_of (rrep_dest_ip m)) a (\<lambda>r. r_seq_valid r = SEQ_INVALID))
      (recv_rrep_forward_route q m) (\<lambda>p s. within (slot_of (rrep_dest_ip m)) a (led q m) s \<and> p = Some a)"
    by (rule recv_rrep_forward_route_same[OF refl]) (simp add: rrep_route_def led_def goes_over_def)
  from triple_result[OF this a run] show ?thesis by blast
next
  case None
  have update: "rrep_updates 1 m e = ret True" for e by (simp add: rrep_updates_def)
  show ?thesis
    apply (rule create_empty_run[OF inv None _ run[unfolded recv_rrep_forward_route_def block.simps]])
    apply (simp only: prod.case)
    subgoal for a
      apply (rule triple_sq[OF preservesD[OF preserves_lock(1)]])
      apply (rule triple_bnd[OF preservesD[OF preserves_basic(5)]])
      apply (simp only: update bnd_ret if_True)
      apply (rule triple_sq[OF rrep_write[where R = "led q m"]], simp add: led_def goes_over_def)
      apply (rule triple_post[where Q' = "\<lambda>_. within (slot_of (rrep_dest_ip m)) a (led q m)"])
       apply (rule triple_sq[OF triple_sq[OF triple_write_route[where R' = "led q m"]]], simp add: led_def goes_over_def)
        apply (rule preservesD, intro preserves_rules mark_active_route)
       apply (rule triple_ret)
      by blast+
    done
qed

text \<open>On the way back to the originator the reply goes to the next hop of the route there.\<close>

lemma forward_sends:
  assumes run: "recv_rrep_forward p m s = Inr ((), s')" and own: "ip_address s \<noteq> rrep_src_ip m"
    and origin: "within (slot_of (rrep_src_ip m)) a ((=) r) s"
  shows "\<exists>t u. silent s t \<and> ip_address u = ip_address t \<and>
    events u = events t @ [Sent_unicast (r_next_hop r) (encode_rrep m)] \<and> silent u s'"
proof -
  have a: "routes s (slot_of (rrep_src_ip m)) = Some a" using origin by (simp add: within_def only_slot_def)
  let ?before = "sq (mutex_lock (Some a)) (sq (mark_active (Some a))
    (sq (bnd (deref p) (\<lambda>e. at_precursors (Some a) (add_entry_to_list (next_hop e))))
      (bnd (deref (Some a)) (\<lambda>e. at_precursors p (add_entry_to_list (next_hop e))))))"
  obtain t4 e t5 where t4: "?before s = Inr ((), t4)" and e: "heap t4 a = Some e"
    and t5: "SendUnicast (next_hop e) (encode_rrep m) sizeof_rrep t4 = Inr ((), t5)"
    and unlock: "mutex_unlock (Some a) t5 = Inr ((), s')"
    using run own a
    by (auto simp: recv_rrep_forward_def lookup_route_def get_routing_entry_def find_entry_slot prog_simps
        sq_def bnd_Inr_iff deref_def[of "Some a"] ret_def gets_def split: option.splits)
  have "preserves ?before" by (intro preserves_rules mark_active_route)
  from triple_result[OF preservesD[OF this] origin t4] e have hop: "next_hop e = r_next_hop r"
    by (auto simp: within_def)
  have "silent s t4" 
    by (rule silent_run[where m = ?before, OF _ t4]) (intro emits_rules)
  moreover have "ip_address t5 = ip_address t4" "events t5 = events t4 @ [Sent_unicast (r_next_hop r) (encode_rrep m)]"
    using t5 hop by (auto simp: send_run)
  moreover have "silent t5 s'" by (rule silent_run[OF emits_locks(2) unlock])
  ultimately show ?thesis by blast
qed

text \<open>The handler of a reply by its parts; none of them fails.\<close>

lemma reply_parts:
  assumes s: "ok {} {} s" and none: "perhaps (slot_of (rrep_dest_ip h)) (\<lambda>r. r_seq_valid r = SEQ_INVALID) s"
    and src: "rrep_src_ip h \<noteq> 0" and slots: "slot_of (rrep_src_ip h) \<noteq> slot_of (rrep_dest_ip h)"
  obtains s0 s1 b s2 s3 s' where "recv_rrep_stop_search h s = Inr ((), s0)" and "node_inv s0"
    and "recv_rrep_previous_hop q h s0 = Inr ((), s1)" and "node_inv s1"
    and "perhaps (slot_of (rrep_dest_ip h)) (\<lambda>r. r_seq_valid r = SEQ_INVALID) s1"
    and "recv_rrep_forward_route q (increment_hop_rrep h) s1 = Inr (Some b, s2)"
    and "recv_rrep_forward (Some b) (increment_hop_rrep h) s2 = Inr ((), s3)"
    and "mutex_unlock (Some b) s3 = Inr ((), s')" and "recv_rrep q h s = Inr (LOGGING, s')" and "ok {} {} s'"
proof -
  let ?d = "slot_of (rrep_dest_ip h)" and ?R = "\<lambda>r. r_seq_valid r = SEQ_INVALID" and ?h = "increment_hop_rrep h"
  have parts: "triple {} (ok {} {}) (recv_rrep_stop_search h) (\<lambda>_. ok {} {})"
    "triple {} (ok {} {}) (recv_rrep_previous_hop q h) (\<lambda>_. ok {} {})"
    by (rule recv_rrep_stop_search_ok recv_rrep_previous_hop_ok, simp)+
  obtain s0 where s0: "recv_rrep_stop_search h s = Inr ((), s0)" "ok {} {} s0"
    using triple_returns[OF parts(1) s] by auto
  have "makes_none ?d (recv_rrep_stop_search h)"
    unfolding recv_rrep_stop_search_def block.simps by (intro makes_none_rules makes_none_more)
  from perhaps_keeps[OF none s0(1) preservesD[OF recv_rrep_stop_search_route] this]
  have none0: "perhaps ?d ?R s0" .
  obtain s1 where s1: "recv_rrep_previous_hop q h s0 = Inr ((), s1)" "ok {} {} s1"
    using triple_returns[OF parts(2) s0(2)] by auto
  have inv: "node_inv s0" "node_inv s1" using s0(2) s1(2) by (simp_all add: ok_iff)
  have none1: "perhaps ?d ?R s1" by (rule reply_hop_number[OF inv(1) s1(1) none0])
  from forward_route_total[OF s1(2), of ?h q] none1 obtain b s2 where
    s2: "recv_rrep_forward_route q ?h s1 = Inr (Some b, s2)" "ok {b} {(b, slot_of (rrep_dest_ip ?h))} s2"
    by (auto simp: locked_def)
  have "triple {} (ok (insert b {}) (insert (b, slot_of (rrep_dest_ip ?h)) {})) (recv_rrep_forward (Some b) ?h)
      (\<lambda>_. ok (insert b {}) (insert (b, slot_of (rrep_dest_ip ?h)) {}))"
    by (rule recv_rrep_forward_ok) (use slots in simp_all)
  from triple_returns[OF this s2(2)] obtain s3 where
    s3: "recv_rrep_forward (Some b) ?h s2 = Inr ((), s3)" "ok {b} {(b, slot_of (rrep_dest_ip ?h))} s3" by auto
  have "triple {} (ok (insert b {}) {(b, slot_of (rrep_dest_ip ?h))}) (mutex_unlock (Some b))
      (\<lambda>_. ok {} {(b, slot_of (rrep_dest_ip ?h))})"
    by (rule triple_unlock_last) simp_all
  from triple_returns[OF this s3(2)] obtain s' where s': "mutex_unlock (Some b) s3 = Inr ((), s')"
    "ok {} {(b, slot_of (rrep_dest_ip ?h))} s'" by auto
  have "recv_rrep q h s = Inr (LOGGING, s')"
    using src by (simp add: recv_rrep_def Let_def s0(1) s1(1) s2(1) s3(1) s'(1) prog_simps)
  with s0(1) inv(1) s1(1) inv(2) none1 s2(1) s3(1) s'(1) show thesis
    by (rule that) (use ok_mono[OF s'(2)] in simp)
qed

lemma emits_reply_silent:
  "recv_rrep_stop_search h s = Inr ((), s0) \<Longrightarrow> recv_rrep_previous_hop q h s0 = Inr ((), s1) \<Longrightarrow>
     recv_rrep_forward_route q h' s1 = Inr (p, s2) \<Longrightarrow> silent s s2"
  by (blast intro: silent_trans silent_run[OF emits_reply_parts(1)] silent_run[OF emits_reply_parts(3)]
      silent_run[OF emits_reply_parts(4)])

lemma reply_leaves:
  assumes none: "perhaps (slot_of (rrep_dest_ip h)) (\<lambda>r. r_seq_valid r = SEQ_INVALID) s1"
    and inv: "node_inv s0" "node_inv s1" and s1: "recv_rrep_previous_hop q h s0 = Inr ((), s1)"
    and s2: "recv_rrep_forward_route q (increment_hop_rrep h) s1 = Inr (p, s2)"
    and s3: "recv_rrep_forward p (increment_hop_rrep h) s2 = Inr ((), s3)"
    and s': "mutex_unlock p s3 = Inr ((), s')"
  shows "\<exists>a. within (slot_of (rrep_dest_ip h)) a (goes_over q (rrep_hop_count h + 1)) s'"
    and "\<exists>b. within (slot_of q) b (\<lambda>r. r_status r = ROUTE_VALID) s'"
proof -
  let ?d = "slot_of (rrep_dest_ip h)"
  have later: "within i c R s'" if "within i c R s2" for i c R
    using triple_result[OF preservesD[OF preserves_lock(2)] triple_result[OF preservesD[OF recv_rrep_forward_to_origin] that s3] s'] .
  from forward_route_led[OF inv(2) _ s2] none
  obtain a where a: "within ?d a (goes_over q (rrep_hop_count h + 1)) s2"
    by (auto simp: led_def increment_hop_rrep_def)
  then show "\<exists>a. within ?d a (goes_over q (rrep_hop_count h + 1)) s'" using later by blast
  obtain b where b: "within (slot_of q) b (\<lambda>r. r_status r = ROUTE_VALID) s1"
    using triple_result[OF reply_hop_valid inv(1) s1] by blast
  show "\<exists>b. within (slot_of q) b (\<lambda>r. r_status r = ROUTE_VALID) s'"
  proof (cases "slot_of q = ?d")
    case True
    have "within (slot_of q) a (\<lambda>r. r_status r = ROUTE_VALID) s2" using a True by (auto simp: within_def goes_over_def)
    then show ?thesis using later by blast
  next
    case False
    have "triple UNIV (within (slot_of q) b (\<lambda>r. r_status r = ROUTE_VALID))
        (recv_rrep_forward_route q (increment_hop_rrep h)) (\<lambda>_. within (slot_of q) b (\<lambda>r. r_status r = ROUTE_VALID))"
      by (rule recv_rrep_forward_route_other) (use False in simp)
    from later[OF triple_result[OF this b s2]] show ?thesis by blast
  qed
qed

text \<open>With both routes a packet is forwarded.\<close>

lemma packet_forwarded:
  assumes "ok {} {} s" and "within (slot_of d) a (goes_over q n) s" and "within (slot_of q) b (\<lambda>r. r_status r = ROUTE_VALID) s"
    and "slot_of o' \<noteq> slot_of d"
  shows "\<exists>t. forwarded_messages o' d s = Inr (PACKET_ACCEPT, t)"
proof -
  obtain e where e: "heap s a = Some e" "status e = ROUTE_VALID" "next_hop e = q" "get_routing_entry (routes s) d = Some a"
    using assms(2) by (auto simp: within_def goes_over_def only_slot_def get_routing_entry_def find_entry_slot)
  obtain h where h: "heap s b = Some h" "status h = ROUTE_VALID" "get_routing_entry (routes s) (next_hop e) = Some b"
    using assms(3) e(3) by (auto simp: within_def only_slot_def get_routing_entry_def find_entry_slot)
  have "get_routing_entry (routes s) o' \<noteq> Some a"
    using assms(2,4) by (auto simp: within_def only_slot_def get_routing_entry_def find_entry_slot)
  with forward_valid[OF assms(1) e(4,1,2) h(3,1,2), of o'] show ?thesis by auto
qed

lemma reply_relayed:
  assumes s: "reach node_init quiet_step s" "q \<noteq> ip_address s" "no_number (rrep_dest_ip h) s"
    and h: "rrep_type h = RREP_TYPE" "rrep_src_ip h \<noteq> 0" "rrep_src_ip h \<noteq> ip_address s"
    and slots: "slot_of (rrep_src_ip h) \<notin> {slot_of (rrep_dest_ip h), slot_of q}"
    and r: "route_at s (slot_of (rrep_src_ip h)) = Some r"
  shows "\<exists>v s'. incoming_control_message q (encode_rrep h) s = Inr (v, s') \<and>
    said s s' = [Sent_unicast (r_next_hop r) (encode_rrep (increment_hop_rrep h))] \<and>
    ip_address s' = ip_address s \<and> route_at s' (slot_of (rrep_src_ip h)) = Some r \<and>
    (\<exists>rd. route_at s' (slot_of (rrep_dest_ip h)) = Some rd \<and> goes_over q (rrep_hop_count h + 1) rd) \<and>
    (\<exists>t. forwarded_messages (rrep_src_ip h) (rrep_dest_ip h) s' = Inr (PACKET_ACCEPT, t))"
proof -
  let ?i = "slot_of (rrep_src_ip h)" and ?d = "slot_of (rrep_dest_ip h)" and ?h = "increment_hop_rrep h"
  have ok: "ok {} {} s" and inv: "node_inv s" using quiet_sys.reach_inv[OF s(1)] by (simp_all add: ok_iff)
  have "perhaps ?d (\<lambda>r. r_seq_valid r = SEQ_INVALID) s" using s(3) inv by (simp add: perhaps_route_at no_number_def)
  from reply_parts[OF ok this h(2)] slots obtain s0 s1 b s2 s3 s' where s0: "recv_rrep_stop_search h s = Inr ((), s0)"
    and inv0: "node_inv s0" and s1: "recv_rrep_previous_hop q h s0 = Inr ((), s1)" and inv1: "node_inv s1"
    and none: "perhaps ?d (\<lambda>r. r_seq_valid r = SEQ_INVALID) s1"
    and s2: "recv_rrep_forward_route q ?h s1 = Inr (Some b, s2)"
    and s3: "recv_rrep_forward (Some b) ?h s2 = Inr ((), s3)" and s': "mutex_unlock (Some b) s3 = Inr ((), s')"
    and run: "recv_rrep q h s = Inr (LOGGING, s')" and ok': "ok {} {} s'"
    by (metis insert_iff)
  obtain a where "within ?i a ((=) r) s" using route_at_within[OF inv r] by blast
  from triple_result[OF preservesD[OF recv_rrep_stop_search_route] this s0] have "within ?i a ((=) r) s0" .
  from triple_result[OF recv_rrep_previous_hop_route this s1] have "within ?i a ((=) r) s1" using slots by simp
  from triple_result[OF recv_rrep_forward_route_other this s2] have a: "within ?i a ((=) r) s2" using slots by simp
  from triple_result[OF preservesD[OF recv_rrep_forward_to_origin] this s3] have "within ?i a ((=) r) s3" .
  from triple_result[OF preservesD[OF preserves_lock(2)] this s'] have route: "route_at s' ?i = Some r"
    by (auto dest: within_route_at)
  have silent: "silent s s2" by (rule emits_reply_silent[OF s0 s1 s2])
  then have "ip_address s2 \<noteq> rrep_src_ip ?h" using h(3) by (simp add: silent_def)
  from forward_sends[OF s3 this, of a r] a obtain t u where t: "silent s2 t" "ip_address u = ip_address t"
    "events u = events t @ [Sent_unicast (r_next_hop r) (encode_rrep ?h)]" "silent u s3" by auto
  have "said s s' = [Sent_unicast (r_next_hop r) (encode_rrep ?h)]"
    by (rule said_one[OF silent_trans[OF silent t(1)] t(3) silent_trans[OF t(4) silent_run[OF emits_locks(2) s']]]) simp
  moreover have "ip_address s' = ip_address s"
    using silent t silent_run[OF emits_locks(2) s'] by (simp add: silent_def)
  moreover have "incoming_control_message q (encode_rrep h) s = Inr (LOGGING, s')"
    using run s(2) h(1) incoming_control_encoded[of q _ "[]" s h] by (simp add: packet_types)
  moreover from reply_leaves[OF none inv0 inv1 s1 s2 s3 s'] obtain c c' where
    c: "within ?d c (goes_over q (rrep_hop_count h + 1)) s'" "within (slot_of q) c' (\<lambda>r. r_status r = ROUTE_VALID) s'" by blast
  from packet_forwarded[OF ok' c] slots have "\<exists>t. forwarded_messages (rrep_src_ip h) (rrep_dest_ip h) s' = Inr (PACKET_ACCEPT, t)"
    by simp
  ultimately show ?thesis using route within_route_at[OF c(1)] by blast
qed

text \<open>The originator of the request: its search has succeeded, and it can use the route.\<close>

lemma reply_arrives:
  assumes a: "reach node_init quiet_step a" "q \<noteq> ip_address a" "no_number (rrep_dest_ip h) a"
    and entry: "get_routing_entry (routes a) (rrep_dest_ip h) = Some e"
    and h: "rrep_type h = RREP_TYPE" "rrep_src_ip h = ip_address a" "ip_address a \<noteq> 0"
    and slots: "slot_of (ip_address a) \<noteq> slot_of (rrep_dest_ip h)"
  shows "\<exists>v a'. incoming_control_message q (encode_rrep h) a = Inr (v, a') \<and>
    (\<exists>t. outgoing_message (rrep_dest_ip h) a' = Inr (Returned PACKET_ACCEPT, t)) \<and> outcome_at e SEARCH_FOUND a'"
proof -
  let ?d = "slot_of (rrep_dest_ip h)"
  have ok: "ok {} {} a" and inv: "node_inv a" using quiet_sys.reach_inv[OF a(1)] by (simp_all add: ok_iff)
  have none: "perhaps ?d (\<lambda>r. r_seq_valid r = SEQ_INVALID) a" using a(3) inv by (simp add: perhaps_route_at no_number_def)
  have src: "rrep_src_ip h \<noteq> 0" "slot_of (rrep_src_ip h) \<noteq> ?d" using h slots by simp_all
  obtain s0 s1 b s2 s3 a' where s1: "recv_rrep_previous_hop q h s0 = Inr ((), s1)" and inv': "node_inv s0" "node_inv s1"
    and none1: "perhaps ?d (\<lambda>r. r_seq_valid r = SEQ_INVALID) s1"
    and s2: "recv_rrep_forward_route q (increment_hop_rrep h) s1 = Inr (Some b, s2)"
    and s3: "recv_rrep_forward (Some b) (increment_hop_rrep h) s2 = Inr ((), s3)"
    and a': "mutex_unlock (Some b) s3 = Inr ((), a')" and run: "recv_rrep q h a = Inr (LOGGING, a')"
    and ok': "ok {} {} a'"
    by (rule reply_parts[OF ok none src])
  from reply_leaves[OF none1 inv' s1 s2 s3 a'] obtain c c' where
    c: "within ?d c (goes_over q (rrep_hop_count h + 1)) a'" "within (slot_of q) c' (\<lambda>r. r_status r = ROUTE_VALID) a'" by blast
  then have "usable_at a' (rrep_dest_ip h)"
    by (auto simp: usable_at_def within_def only_slot_def goes_over_def get_routing_entry_def find_entry_slot)
  then have "\<exists>t. outgoing_message (rrep_dest_ip h) a' = Inr (Returned PACKET_ACCEPT, t)" by (rule outgoing_usable[OF ok'])
  moreover have "outcome_at e SEARCH_FOUND a'" by (rule reply_finds[OF ok entry h(2,3) run])
  moreover have "incoming_control_message q (encode_rrep h) a = Inr (LOGGING, a')"
    using run a(2) h(1) incoming_control_encoded[of q _ "[]" a h] by (simp add: packet_types)
  ultimately show ?thesis by blast
qed

section \<open>Any number of nodes\<close>

text \<open>
  \<open>discover ss d p bs\<close>: the node \<open>p\<close> broadcasts the request \<open>bs\<close>. It goes over the nodes \<open>ss\<close>, each
  of which gets what the one before it broadcast, to the node \<open>d\<close>; what \<open>d\<close> sends goes back over
  \<open>ss\<close>, each message to the node it is addressed to. The result has the nodes afterwards, and the message for
  \<open>p\<close> with its sender. It is \<open>None\<close> if a handler fails, or if a node calls anything but one broadcast for the
  request and one unicast to the right neighbour for the reply. Copies of a broadcast that reach other nodes are left out.
\<close>

primrec discover :: "node list \<Rightarrow> node \<Rightarrow> u32 \<Rightarrow> u8 list \<Rightarrow> (node list \<times> node \<times> u32 \<times> u8 list) option" where
  "discover [] d p bs = (case incoming_control_message p bs d of Inl _ \<Rightarrow> None
     | Inr (_, d') \<Rightarrow> (case said d d' of
           [Sent_unicast ip rs] \<Rightarrow> if ip = p then Some ([], d', ip_address d', rs) else None
         | _ \<Rightarrow> None))"
| "discover (s # ss) d p bs = (case incoming_control_message p bs s of Inl _ \<Rightarrow> None
     | Inr (_, s1) \<Rightarrow> (case said s s1 of
           [Sent_broadcast bs1] \<Rightarrow> (case discover ss d (ip_address s1) bs1 of None \<Rightarrow> None
             | Some (ss', d', q, rs) \<Rightarrow> (case incoming_control_message q rs s1 of Inl _ \<Rightarrow> None
                 | Inr (_, s2) \<Rightarrow> (case said s1 s2 of
                       [Sent_unicast ip rs2] \<Rightarrow> if ip = p then Some (s2 # ss', d', ip_address s2, rs2) else None
                     | _ \<Rightarrow> None)))
         | _ \<Rightarrow> None))"

primrec ready_row :: "u32 \<Rightarrow> rreq_header \<Rightarrow> node list \<Rightarrow> node \<Rightarrow> bool" where
  "ready_row p m [] d \<longleftrightarrow> ready p m d \<and> ip_address d = rreq_dest_ip m"
| "ready_row p m (s # ss) d \<longleftrightarrow> ready p m s \<and> no_number (rreq_dest_ip m) s \<and>
     slot_of (ip_address s) \<notin> {slot_of (rreq_src_ip m), slot_of (rreq_dest_ip m)} \<and>
     ready_row (ip_address s) (passed_on m) ss d"

text \<open>A node on the path: its routes to both ends, and that it forwards packets.\<close>

definition on_path :: "u32 \<Rightarrow> u32 \<Rightarrow> u32 \<times> u8 \<Rightarrow> u32 \<times> u8 \<Rightarrow> node \<Rightarrow> bool" where
  "on_path origin dest back ahead s \<longleftrightarrow>
     (\<exists>r. route_at s (slot_of origin) = Some r \<and> goes_over (fst back) (snd back) r) \<and>
     (\<exists>r. route_at s (slot_of dest) = Some r \<and> goes_over (fst ahead) (snd ahead) r) \<and>
     (\<exists>t. forwarded_messages origin dest s = Inr (PACKET_ACCEPT, t))"

lemma passed_on_simps [simp]:
  "rreq_src_ip (passed_on m) = rreq_src_ip m" "rreq_dest_ip (passed_on m) = rreq_dest_ip m"
  "rreq_type (passed_on m) = rreq_type m" "rreq_flag (passed_on m) f = rreq_flag m f"
  "rreq_hop_count (passed_on m) = rreq_hop_count m + 1" "rreq_ttl (passed_on m) = rreq_ttl m - 1"
  by (simp_all add: passed_on_def increment_hop_rreq_def rreq_flag_def)

lemma ready_row_next:
  "ready_row p m ss d \<Longrightarrow> slot_of (rreq_src_ip m) \<noteq> slot_of (rreq_dest_ip m) \<Longrightarrow>
     ip_address (hd (ss @ [d])) \<noteq> p \<and> slot_of (ip_address (hd (ss @ [d]))) \<noteq> slot_of (rreq_src_ip m)"
  by (cases ss) (auto simp: ready_def)

lemma ready_row_end: "ready_row p m ss d \<Longrightarrow> ip_address d = rreq_dest_ip m"
  by (induction ss arbitrary: p m) auto

lemma discover_row:
  assumes "ready_row p m ss d" and "rreq_type m = RREQ_TYPE" and "rreq_flag m RREQ_UNKNOWN"
    and "rreq_src_ip m \<noteq> 0" and "slot_of (rreq_src_ip m) \<noteq> slot_of (rreq_dest_ip m)"
    and "length ss < unat (rreq_ttl m)"
  shows "\<exists>ss' d' h. discover ss d p (encode_rreq m) = Some (ss', d', ip_address (hd (ss @ [d])), encode_rrep h) \<and>
    rrep_type h = RREP_TYPE \<and> rrep_dest_ip h = rreq_dest_ip m \<and> rrep_src_ip h = rreq_src_ip m \<and>
    rrep_hop_count h = of_nat (length ss) \<and> length ss' = length ss \<and>
    (\<forall>i < length ss. on_path (rreq_src_ip m) (rreq_dest_ip m)
       ((p # map ip_address ss) ! i, rreq_hop_count m + of_nat (Suc i))
       ((map ip_address ss @ [rreq_dest_ip m]) ! Suc i, of_nat (length ss - i)) (ss' ! i)) \<and>
    (\<exists>r. route_at d' (slot_of (rreq_src_ip m)) = Some r \<and>
       goes_over (last (p # map ip_address ss)) (rreq_hop_count m + of_nat (Suc (length ss))) r)"
  using assms
proof (induction ss arbitrary: p m)
  case Nil
  then have "ready p m d" "ip_address d = rreq_dest_ip m" by simp_all
  from request_answered[OF this(1) Nil.prems(2,3) this(2)] this(2) show ?case
    by (fastforce simp: answer_of_def over_def)
next
  case (Cons s ss)
  let ?m = "passed_on m" and ?q = "ip_address (hd (ss @ [d]))"
  have ttl: "1 < unat (rreq_ttl m)" using Cons.prems(6) by simp
  have row: "ready_row (ip_address s) ?m ss d" "ready p m s" "no_number (rreq_dest_ip m) s"
    "slot_of (ip_address s) \<notin> {slot_of (rreq_src_ip m), slot_of (rreq_dest_ip m)}" using Cons.prems(1) by simp_all
  have dest: "ip_address s \<noteq> rreq_dest_ip m" using row(4) by auto
  have "unat (rreq_ttl m - 1) = unat (rreq_ttl m) - 1" by (rule unat_minus_one) (use ttl in auto)
  then have "length ss < unat (rreq_ttl ?m)" using Cons.prems(6) by simp
  from Cons.IH[OF row(1) _ _ _ _ this] Cons.prems(2-5) obtain ss' d' h where
    rest: "discover ss d (ip_address s) (encode_rreq ?m) = Some (ss', d', ?q, encode_rrep h)"
    and h: "rrep_type h = RREP_TYPE" "rrep_dest_ip h = rreq_dest_ip m" "rrep_src_ip h = rreq_src_ip m"
      "rrep_hop_count h = of_nat (length ss)" "length ss' = length ss"
    and path: "\<forall>i < length ss. on_path (rreq_src_ip m) (rreq_dest_ip m)
       ((ip_address s # map ip_address ss) ! i, rreq_hop_count ?m + of_nat (Suc i))
       ((map ip_address ss @ [rreq_dest_ip m]) ! Suc i, of_nat (length ss - i)) (ss' ! i)"
    and last: "\<exists>r. route_at d' (slot_of (rreq_src_ip m)) = Some r \<and>
       goes_over (last (ip_address s # map ip_address ss)) (rreq_hop_count ?m + of_nat (Suc (length ss))) r"
    by auto
  have "1 < rreq_ttl m" using ttl by (simp add: word_less_nat_alt)
  from request_relayed[OF row(2) Cons.prems(2,3) this dest row(3)] Cons.prems(5)
  obtain v s1 r where s1: "incoming_control_message p (encode_rreq m) s = Inr (v, s1)"
    "said s s1 = [Sent_broadcast (encode_rreq ?m)]" "reach node_init quiet_step s1"
    "ip_address s1 = ip_address s" "no_number (rreq_dest_ip m) s1"
    and r: "route_at s1 (slot_of (rreq_src_ip m)) = Some r" "over p (increment_hop_rreq m) r" by metis
  have q: "?q \<noteq> ip_address s1" "slot_of ?q \<noteq> slot_of (rreq_src_ip m)"
    using ready_row_next[OF row(1)] Cons.prems(5) s1(4) by simp_all
  have own: "rreq_src_ip m \<noteq> ip_address s1" using row(4) s1(4) by auto
  have slots: "slot_of (rrep_src_ip h) \<notin> {slot_of (rrep_dest_ip h), slot_of ?q}"
    using Cons.prems(5) q(2) h(2,3) by auto
  from reply_relayed[OF s1(3) q(1) _ h(1) _ _ slots] s1(5) h(2,3) own r(1) Cons.prems(4)
  obtain w s2 rd where s2: "incoming_control_message ?q (encode_rrep h) s1 = Inr (w, s2)"
    "said s1 s2 = [Sent_unicast (r_next_hop r) (encode_rrep (increment_hop_rrep h))]" "ip_address s2 = ip_address s1"
    "route_at s2 (slot_of (rreq_src_ip m)) = Some r"
    "route_at s2 (slot_of (rreq_dest_ip m)) = Some rd" "goes_over ?q (rrep_hop_count h + 1) rd"
    "\<exists>t. forwarded_messages (rreq_src_ip m) (rreq_dest_ip m) s2 = Inr (PACKET_ACCEPT, t)" by metis
  have hop: "r_next_hop r = p" using r(2) by (simp add: over_def goes_over_def)
  have discover: "discover (s # ss) d p (encode_rreq m) =
      Some (s2 # ss', d', ip_address (hd ((s # ss) @ [d])), encode_rrep (increment_hop_rrep h))"
    using s1(1,2,4) rest s2(1-3) hop by simp
  have first: "(map ip_address ss @ [rreq_dest_ip m]) ! 0 = ?q"
    using ready_row_end[OF row(1)] by (cases ss) simp_all
  have "on_path (rreq_src_ip m) (rreq_dest_ip m) (p, rreq_hop_count m + 1) (?q, rrep_hop_count h + 1) s2"
    using s2(4-7) r(2) by (auto simp: on_path_def over_def)
  with path have "\<forall>i < length (s # ss). on_path (rreq_src_ip m) (rreq_dest_ip m)
       ((p # map ip_address (s # ss)) ! i, rreq_hop_count m + of_nat (Suc i))
       ((map ip_address (s # ss) @ [rreq_dest_ip m]) ! Suc i, of_nat (length (s # ss) - i)) ((s2 # ss') ! i)"
    using h(4) first by (auto simp: less_Suc_eq_0_disj ac_simps)
  with discover h last show ?case
    by (intro exI[of _ "s2 # ss'"] exI[of _ d'] exI[of _ "increment_hop_rrep h"])
      (simp add: increment_hop_rrep_def ac_simps del: discover.simps)
qed

text \<open>
  C3: Finding a route over any number of nodes. The node \<open>a\<close> asks for \<open>d\<close>, of which it knows no number,
  with a hop limit that reaches over the nodes \<open>ss\<close>. If none of these knows a number of \<open>d\<close> either, none
  has heard this request, and what they know of \<open>a\<close> is older or the same way back, then no handler
  fails, the request comes to \<open>d\<close> and its reply comes back to \<open>a\<close>. Then the search of \<open>a\<close> has
  succeeded, and it accepts packets for \<open>d\<close>; every node between has valid routes to both ends over its
  neighbours, with the hops there are, and accepts to forward packets of \<open>a\<close> for \<open>d\<close>; and \<open>d\<close> has a
  valid route back. (The two ends share no slot of the table with each other or with a node between.)
\<close>

theorem path_discovery:
  assumes a: "reach node_init quiet_step a" "ip_address a \<noteq> 0" "no_number (rreq_dest_ip m) a"
      "get_routing_entry (routes a) (rreq_dest_ip m) = Some e"
    and m: "rreq_src_ip m = ip_address a" "rreq_type m = RREQ_TYPE" "rreq_flag m RREQ_UNKNOWN" "rreq_hop_count m = 0"
    and row: "ready_row (ip_address a) m ss d" "length ss < unat (rreq_ttl m)"
      "slot_of (ip_address a) \<noteq> slot_of (rreq_dest_ip m)"
  shows "\<exists>ss' d' q rs v a'. discover ss d (ip_address a) (encode_rreq m) = Some (ss', d', q, rs) \<and>
    incoming_control_message q rs a = Inr (v, a') \<and>
    outcome_at e SEARCH_FOUND a' \<and> (\<exists>t. outgoing_message (ip_address d) a' = Inr (Returned PACKET_ACCEPT, t)) \<and>
    length ss' = length ss \<and>
    (\<forall>i < length ss. on_path (ip_address a) (ip_address d)
       ((ip_address a # map ip_address ss) ! i, of_nat (Suc i))
       ((map ip_address ss @ [ip_address d]) ! Suc i, of_nat (length ss - i)) (ss' ! i)) \<and>
    (\<exists>r. route_at d' (slot_of (ip_address a)) = Some r \<and>
       goes_over (last (ip_address a # map ip_address ss)) (of_nat (Suc (length ss))) r)"
proof -
  have dest: "rreq_dest_ip m = ip_address d" using ready_row_end[OF row(1)] by simp
  from discover_row[OF row(1) m(2,3) _ _ row(2)] a(2) m(1) row(3)
  obtain ss' d' h where run: "discover ss d (ip_address a) (encode_rreq m) =
      Some (ss', d', ip_address (hd (ss @ [d])), encode_rrep h)"
    and h: "rrep_type h = RREP_TYPE" "rrep_dest_ip h = rreq_dest_ip m" "rrep_src_ip h = ip_address a"
    and rest: "length ss' = length ss" "\<forall>i < length ss. on_path (ip_address a) (ip_address d)
       ((ip_address a # map ip_address ss) ! i, of_nat (Suc i))
       ((map ip_address ss @ [ip_address d]) ! Suc i, of_nat (length ss - i)) (ss' ! i)"
      "\<exists>r. route_at d' (slot_of (ip_address a)) = Some r \<and>
         goes_over (last (ip_address a # map ip_address ss)) (of_nat (Suc (length ss))) r"
    unfolding m(1) m(4) dest add_0 by auto
  have "ip_address (hd (ss @ [d])) \<noteq> ip_address a" using ready_row_next[OF row(1)] m(1) row(3) by simp
  from reply_arrives[OF a(1) this _ _ h(1,3) a(2)] a(3,4) h(2) row(3) obtain v a' where
    "incoming_control_message (ip_address (hd (ss @ [d]))) (encode_rrep h) a = Inr (v, a')"
    "\<exists>t. outgoing_message (rreq_dest_ip m) a' = Inr (Returned PACKET_ACCEPT, t)" "outcome_at e SEARCH_FOUND a'" by auto
  with run rest show ?thesis unfolding dest by blast
qed

text \<open>
  10.0.0.1 searches for 13.0.0.1. Its first request has a hop limit of 1 and ends at 11.0.0.1; the second
  one goes on.
\<close>

definition ring_request :: "u32 \<Rightarrow> 11 word \<Rightarrow> rreq_header" where
  "ring_request n ttl = \<lparr>rreq_hop_count = 0, rreq_ttl = ttl, rreq_flags = 5, rreq_type = RREQ_TYPE,
     rreq_rreq_id = n, rreq_dest_ip = 0x0D000001, rreq_dest_seq = 0, rreq_src_ip = 0x0A000001, rreq_src_seq = 1\<rparr>"

definition searcher :: node where
  "searcher = after [Data_out 0x0D000001, Run 2, Run 2]"

definition between :: node where
  "between = after_control 0x0A000001 (encode_rreq (ring_request 1 1)) (main_init 0x0B000001 0x0AFFFFFF sample_world)"

definition sought :: node where
  "sought = main_init 0x0D000001 0x0AFFFFFF sample_world"

lemma searcher_state:
  "filter is_message (events searcher) = map (Sent_broadcast \<circ> encode_rreq) [ring_request 1 1, ring_request 2 3]"
  "ip_address searcher = 0x0A000001" "get_routing_entry (routes searcher) 0x0D000001 = Some 0"
  "map_option r_seq_valid (route_at searcher 0x0D) = Some SEQ_INVALID"
  by code_simp+

lemma between_state:
  "returns (exec (Control_in 0x0A000001 (encode_rreq (ring_request 1 1))) (main_init 0x0B000001 0x0AFFFFFF sample_world))"
  "routes between 0x0A = Some 0" "map_option rreq_id (heap between 0) = Some 1" "routes between 0x0D = None"
  "map_option (goes_over 0x0A000001 1) (route_at between 0x0A) = Some True"
  "map_option r_dest_seq (route_at between 0x0A) = Some 1"
  by code_simp+

lemma quiet_start: "reach node_init quiet_step (main_init i bcast w)"
  by (rule reach_init) (rule node_initI)

lemma between_run:
  "reach node_init quiet_step between" "ip_address between = 0x0B000001" "world between = sample_world"
proof -
  note run = after_control_run[OF between_state(1), folded between_def]
  show "reach node_init quiet_step between" by (rule reach_step[OF quiet_start quiet_stepI[OF run]]) simp
  show "ip_address between = 0x0B000001" "world between = sample_world"
    using fixedD[OF fixed_exec run] by (simp_all add: later_def main_init_def)
qed

lemma sought_ready: "ready 0x0B000001 (passed_on (ring_request 2 3)) sought"
  using quiet_start[of "0x0D000001" "0x0AFFFFFF" sample_world]
  by (simp add: ready_def sought_def unheard_def main_init_def create_routing_table_def create_data_header_def
      sample_world_def ring_request_def route_at_def passed_on_def)

lemma between_ready: "ready 0x0A000001 (ring_request 2 3) between"
proof -
  obtain r where r: "route_at between 0x0A = Some r" "goes_over 0x0A000001 1 r" "r_dest_seq r = 1"
    using between_state(5,6) by auto
  then have "over 0x0A000001 (increment_hop_rreq (ring_request 2 3)) (rreq_route 0x0A000001 (increment_hop_rreq (ring_request 2 3)) r)"
    by (simp add: over_def goes_over_def rreq_route_def ring_request_def)
  then show ?thesis
    using between_run between_state(2,3) r(1)
    by (auto simp: ready_def unheard_def ring_request_def slot_of_def sample_world_def)
qed

theorem path_discovery_witness:
  "\<exists>s' d' q rs v a'. discover [between] sought 0x0A000001 (encode_rreq (ring_request 2 3)) = Some ([s'], d', q, rs) \<and>
     incoming_control_message q rs searcher = Inr (v, a') \<and>
     outcome_at 0 SEARCH_FOUND a' \<and> (\<exists>t. outgoing_message 0x0D000001 a' = Inr (Returned PACKET_ACCEPT, t)) \<and>
     on_path 0x0A000001 0x0D000001 (0x0A000001, 1) (0x0D000001, 1) s'"
proof -
  let ?m = "ring_request 2 3"
  have fields: "rreq_src_ip ?m = ip_address searcher" "rreq_dest_ip ?m = 0x0D000001" "rreq_type ?m = RREQ_TYPE"
    "rreq_flag ?m RREQ_UNKNOWN" "rreq_hop_count ?m = 0" "1 < unat (rreq_ttl ?m)"
    using searcher_state(2) by (simp_all add: ring_request_def rreq_flag_def rreq_flag_defs)
  have quiet: "reach node_init quiet_step searcher" unfolding searcher_def by (rule after_quiet) simp
  have none: "no_number (rreq_dest_ip ?m) searcher" "no_number (rreq_dest_ip ?m) between"
    using searcher_state(4) between_state(4) by (auto simp: no_number_def fields slot_of_def route_at_def)
  have ip: "ip_address sought = 0x0D000001" by (simp add: sought_def main_init_def)
  have "ready_row (ip_address searcher) ?m [between] sought"
    using between_ready sought_ready none(2) searcher_state(2) between_run(2) ip
    by (simp add: ring_request_def slot_of_def)
  from path_discovery[OF quiet _ none(1) _ fields(1,3,4,5) this] searcher_state(2,3) fields(2,6) between_run(2) ip
  show ?thesis by (force simp: slot_of_def length_Suc_conv)
qed

end
